(* ===== verification/Aesd_Prelude.thy ===== *)
theory Aesd_Prelude
  imports Main "HOL-Library.Word" "HOL-Library.Monad_Syntax"
begin

text \<open>
  Shared vocabulary of the development: the machine integer types of the 64-bit target,
  the error numbers the kernel module returns, and the generic facts on words, options
  and lists that the component proofs use.

  Conventions used everywhere:
  \<^item> an operation that the C program may leave without a defined outcome (an access outside
    an object, a free of something that is not allocated, a lock taken twice by the same
    caller, a loop that never ends, signed overflow) has a result of type \<open>'a option\<close>, and
    \<open>None\<close> is that missing outcome;
  \<^item> error codes and \<open>NULL\<close> results that the C code really returns are values inside \<open>Some\<close>.
\<close>

type_synonym uint8 = "8 word"
type_synonym uint32 = "32 word"
type_synonym size_t = "64 word"
type_synonym ssize_t = "64 word"
type_synonym loff_t = "64 word"
type_synonym cint = "32 word"
type_synonym byte = char

named_theorems word_nat \<open>reading machine integers as natural numbers\<close>

abbreviation newline :: byte where
  "newline \<equiv> CHR 0x0A"

abbreviation nul :: byte where
  "nul \<equiv> CHR 0x00"

subsection \<open>Error numbers (negative return values, as in errno-base.h)\<close>

abbreviation (input) ENOMEM :: "64 word" where "ENOMEM \<equiv> 12"
abbreviation (input) EFAULT :: "64 word" where "EFAULT \<equiv> 14"
abbreviation (input) EINVAL :: "64 word" where "EINVAL \<equiv> 22"
abbreviation (input) ENOTTY :: "64 word" where "ENOTTY \<equiv> 25"

subsection \<open>Words as natural numbers\<close>

lemma unat_word_of_nat [word_nat]:
  "n < 2 ^ LENGTH('a) \<Longrightarrow> unat (word_of_nat n :: 'a::len word) = n"
  by (simp add: unat_of_nat take_bit_nat_eq_self)

lemma unat_plus_small [word_nat]:
  fixes a b :: "'a::len word"
  shows "unat a + unat b < 2 ^ LENGTH('a) \<Longrightarrow> unat (a + b) = unat a + unat b"
  by (simp add: unat_word_ariths)

lemma unat_minus_le [word_nat]:
  fixes a b :: "'a::len word"
  shows "unat b \<le> unat a \<Longrightarrow> unat (a - b) = unat a - unat b"
  by (simp add: unat_sub_if')

lemma unat_less_pow: "unat (w :: 'a::len word) < 2 ^ LENGTH('a)"
  by (rule unsigned_less)

lemma unat_ucast_up [word_nat]:
  assumes "LENGTH('a::len) \<le> LENGTH('b::len)"
  shows "unat (ucast (w :: 'a word) :: 'b word) = unat w"
proof -
  have "unat w < 2 ^ LENGTH('a)" by (rule unat_less_pow)
  also have "\<dots> \<le> 2 ^ LENGTH('b)" using assms by simp
  finally show ?thesis by (simp add: unsigned_ucast_eq take_bit_nat_eq_self)
qed

text \<open>Truncating a 64-bit sum to 32 bits is addition of the truncated operands, and truncation
  undoes sign extension: mixed-width accumulation is exact modulo \<open>2 ^ 32\<close>.\<close>

lemma ucast_word_of_int: "(ucast (word_of_int k :: 64 word) :: 32 word) = word_of_int k"
  by (simp add: unsigned_of_int word_of_int_eq_iff)

lemma ucast_scast_add: "(ucast (scast (a :: 32 word) + (s :: 64 word)) :: 32 word) = a + ucast s"
proof -
  have "scast a + s = word_of_int (sint a + uint s)" by simp
  then have "(ucast (scast a + s) :: 32 word) = word_of_int (sint a + uint s)"
    by (simp only: ucast_word_of_int)
  then show ?thesis by simp
qed

lemma sint_word_of_nat [word_nat]:
  "n < 2 ^ (LENGTH('a) - 1) \<Longrightarrow> sint (word_of_nat n :: 'a::len word) = int n"
proof -
  assume "n < 2 ^ (LENGTH('a) - 1)"
  then have "int n < 2 ^ (LENGTH('a) - Suc 0)"
    by (metis One_nat_def of_nat_less_numeral_power_cancel_iff)
  then show ?thesis
    by (simp add: signed_of_nat signed_take_bit_int_eq_self order_trans [of _ 0])
qed

lemma sint_unat [word_nat]:
  "unat w < 2 ^ (LENGTH('a) - 1) \<Longrightarrow> sint (w :: 'a::len word) = int (unat w)"
  using sint_word_of_nat [of "unat w", where 'a = 'a] by simp

lemma scast_word_of_nat:
  "n < 2 ^ (LENGTH('a) - 1) \<Longrightarrow> (scast (word_of_nat n :: 'a::len word) :: 'b::len word) = word_of_nat n"
  by (simp add: sint_word_of_nat scast_eq)

lemma unat_sint_nonneg:
  assumes "0 \<le> sint (w :: 'a::len word)"
  shows "unat w = nat (sint w)"
proof -
  have "sint w < 2 ^ (LENGTH('a) - Suc 0)" by (rule sint_less)
  also have "\<dots> \<le> 2 ^ LENGTH('a)" by (intro power_increasing) simp_all
  finally have "nat (sint w) < 2 ^ LENGTH('a)"
    using assms by (simp add: nat_less_iff)
  then have "unat (word_of_nat (nat (sint w)) :: 'a word) = nat (sint w)"
    by (rule unat_word_of_nat)
  moreover have "word_of_nat (nat (sint w)) = w"
    using assms by (simp add: of_nat_nat)
  ultimately show ?thesis by simp
qed

lemma word_less_unat: "(a :: 'a::len word) < b \<longleftrightarrow> unat a < unat b"
  by (rule word_less_nat_alt)

lemma word_eq_unat: "(a :: 'a::len word) = b \<longleftrightarrow> unat a = unat b"
  by (simp add: word_unat_eq_iff)

lemma word_of_unat_eq: "unat (a :: 'a::len word) = n \<Longrightarrow> a = word_of_nat n"
  by auto

subsection \<open>Lists\<close>

lemma sum_list_take_le: "sum_list (take k xs) \<le> sum_list (xs :: nat list)"
  by (metis append_take_drop_id le_add1 sum_list_append)

lemma sum_list_bound: "(\<And>x. x \<in> set xs \<Longrightarrow> x \<le> (m::nat)) \<Longrightarrow> sum_list xs \<le> length xs * m"
  by (induction xs) (auto intro: add_mono)

lemma sum_list_nth_split:
  "k < length xs \<Longrightarrow> sum_list (take k xs) + xs ! k \<le> sum_list (xs :: nat list)"
  using sum_list_take_le [of "Suc k" xs] by (simp add: take_Suc_conv_app_nth)

lemma length_concat_take: "length (concat (take k xss)) \<le> length (concat xss)"
  by (metis append_take_drop_id concat_append le_add1 length_append)

text \<open>Keeping the newest \<open>n\<close> elements of a list: what a full ring buffer retains.\<close>

definition newest :: "nat \<Rightarrow> 'a list \<Rightarrow> 'a list" where
  "newest n xs = drop (length xs - n) xs"

lemma length_newest [simp]: "length (newest n xs) = min n (length xs)"
  by (simp add: newest_def min_def)

lemma newest_id [simp]: "length xs \<le> n \<Longrightarrow> newest n xs = xs"
  by (simp add: newest_def)

lemma newest_append_newest: "newest n (newest n xs @ ys) = newest n (xs @ ys)"
proof (cases "length xs \<le> n")
  case False
  then have "length xs - n + (length xs + length ys - (n + (length xs - n))) = length xs + length ys - n \<or> length xs \<le> length xs + length ys - n"
    by arith
  with False show ?thesis by (auto simp: newest_def add.commute)
qed simp

lemma newest_snoc_full: "length xs = n \<Longrightarrow> 0 < n \<Longrightarrow> newest n (xs @ [x]) = tl xs @ [x]"
  by (simp add: newest_def drop_Suc)

lemma set_newest: "set (newest n xs) \<subseteq> set xs"
  by (simp add: newest_def set_drop_subset)

lemma map_newest: "map f (newest n xs) = newest n (map f xs)"
  by (simp add: newest_def drop_map)

subsection \<open>Step relations that come to an end\<close>

text \<open>Where every state of interest is at its goal or has a step that brings it nearer, the goal is
  reached.\<close>

locale ranked_steps =
  fixes step :: "'s \<Rightarrow> 's \<Rightarrow> bool" and good :: "'s \<Rightarrow> bool" and goal :: "'s \<Rightarrow> bool" and rank :: "'s \<Rightarrow> nat"
  assumes nearer: "good s \<Longrightarrow> \<not> goal s \<Longrightarrow> \<exists>s'. step s s' \<and> good s' \<and> rank s' < rank s"
begin

lemma reaches_goal: "good s \<Longrightarrow> \<exists>s'. step\<^sup>*\<^sup>* s s' \<and> good s' \<and> goal s'"
proof (induction "rank s" arbitrary: s rule: less_induct)
  case less
  show ?case
  proof (cases "goal s")
    case True
    then show ?thesis using less.prems by blast
  next
    case False
    then obtain s1 where s1: "step s s1" "good s1" "rank s1 < rank s" using nearer less.prems by blast
    then show ?thesis using less.hyps [of s1] by (meson converse_rtranclp_into_rtranclp)
  qed
qed

end

end
