(* ===== verification/C_Memory.thy ===== *)
theory C_Memory
  imports Aesd_Prelude
begin

text \<open>
  Byte blocks on a heap, as far as the C sources use them: \<open>NULL\<close> or a pointer to the start
  of an allocated block, reads and writes at an offset, \<open>memcpy\<close> into a block, allocation
  and release. The allocator itself (\<open>kmalloc\<close>, \<open>malloc\<close>) is a parameter: a function that
  answers, for a request and the current heap, \<open>NULL\<close> or the address of the new block.
\<close>

datatype ptr = NULL | Ptr nat

type_synonym heap = "nat \<rightharpoonup> byte list"

type_synonym allocator = "nat \<Rightarrow> heap \<Rightarrow> ptr"

text \<open>Blocks come uninitialised; \<open>junk\<close> is whatever bytes they hold.\<close>

definition alloc :: "allocator \<Rightarrow> byte \<Rightarrow> nat \<Rightarrow> heap \<Rightarrow> ptr \<times> heap" where
  "alloc A junk n h = (case A n h of NULL \<Rightarrow> (NULL, h) | Ptr a \<Rightarrow> (Ptr a, h(a \<mapsto> replicate n junk)))"

text \<open>What C promises of an allocator: a non-empty request that succeeds gets a new block.\<close>

definition fresh_allocator :: "allocator \<Rightarrow> bool" where
  "fresh_allocator A \<longleftrightarrow> (\<forall>n h a. 0 < n \<longrightarrow> A n h = Ptr a \<longrightarrow> h a = None)"

text \<open>\<open>free(NULL)\<close> does nothing; a pointer that is not to a live block has no defined outcome.\<close>

fun cfree :: "ptr \<Rightarrow> heap \<Rightarrow> heap option" where
  "cfree NULL h = Some h"
| "cfree (Ptr a) h = (case h a of None \<Rightarrow> None | Some _ \<Rightarrow> Some (h(a := None)))"

fun load_byte :: "ptr \<Rightarrow> nat \<Rightarrow> heap \<Rightarrow> byte option" where
  "load_byte NULL i h = None"
| "load_byte (Ptr a) i h = (case h a of None \<Rightarrow> None | Some bs \<Rightarrow> if i < length bs then Some (bs ! i) else None)"

text \<open>Reading or writing no byte at all is harmless through any pointer, \<open>NULL\<close> included.\<close>

fun load_bytes :: "ptr \<Rightarrow> nat \<Rightarrow> nat \<Rightarrow> heap \<Rightarrow> byte list option" where
  "load_bytes p i 0 h = Some []"
| "load_bytes NULL i (Suc n) h = None"
| "load_bytes (Ptr a) i (Suc n) h = (case h a of None \<Rightarrow> None
     | Some bs \<Rightarrow> if i + Suc n \<le> length bs then Some (take (Suc n) (drop i bs)) else None)"

definition overwrite :: "nat \<Rightarrow> 'a list \<Rightarrow> 'a list \<Rightarrow> 'a list" where
  "overwrite i ys xs = take i xs @ ys @ drop (i + length ys) xs"

fun store_bytes :: "ptr \<Rightarrow> nat \<Rightarrow> byte list \<Rightarrow> heap \<Rightarrow> heap option" where
  "store_bytes p i [] h = Some h"
| "store_bytes NULL i (c # cs) h = None"
| "store_bytes (Ptr a) i (c # cs) h = (case h a of None \<Rightarrow> None
     | Some bs \<Rightarrow> if i + length (c # cs) \<le> length bs then Some (h(a \<mapsto> overwrite i (c # cs) bs)) else None)"

text \<open>\<open>memcpy(dst + i, src + j, n)\<close>\<close>

definition memcpy :: "ptr \<Rightarrow> nat \<Rightarrow> ptr \<Rightarrow> nat \<Rightarrow> nat \<Rightarrow> heap \<Rightarrow> heap option" where
  "memcpy dst i src j n h = do { bs \<leftarrow> load_bytes src j n h; store_bytes dst i bs h }"

subsection \<open>Facts\<close>

lemma length_overwrite [simp]: "i + length ys \<le> length xs \<Longrightarrow> length (overwrite i ys xs) = length xs"
  by (simp add: overwrite_def)

lemma overwrite_Nil [simp]: "overwrite i [] xs = xs"
  by (simp add: overwrite_def)

lemma overwrite_start: "length ys \<le> length xs \<Longrightarrow> overwrite 0 ys xs = ys @ drop (length ys) xs"
  by (simp add: overwrite_def)

lemma overwrite_after: "overwrite (length ys) zs (ys @ replicate (length zs) c) = ys @ zs"
  by (simp add: overwrite_def)

lemma load_bytes_block:
  "h a = Some bs \<Longrightarrow> i + n \<le> length bs \<Longrightarrow> load_bytes (Ptr a) i n h = Some (take n (drop i bs))"
  by (cases n) simp_all

lemma load_bytes_length: "load_bytes p i n h = Some bs \<Longrightarrow> length bs = n"
  by (cases "(p, i, n, h)" rule: load_bytes.cases) (auto split: option.splits if_splits)

lemma store_bytes_block:
  "h a = Some bs \<Longrightarrow> i + length cs \<le> length bs
   \<Longrightarrow> store_bytes (Ptr a) i cs h = Some (h(a \<mapsto> overwrite i cs bs))"
  by (cases cs) (auto simp: fun_upd_idem)

lemma store_bytes_dom: "store_bytes p i cs h = Some h' \<Longrightarrow> dom h' = dom h"
  by (cases "(p, i, cs, h)" rule: store_bytes.cases) (auto split: option.splits if_splits)

lemma cfree_Some: "cfree p h = Some h' \<longleftrightarrow> p = NULL \<and> h' = h \<or> (\<exists>a bs. p = Ptr a \<and> h a = Some bs \<and> h' = h(a := None))"
  by (cases p) (auto split: option.splits)

lemma alloc_NULL: "A n h = NULL \<Longrightarrow> alloc A junk n h = (NULL, h)"
  by (simp add: alloc_def)

lemma alloc_Ptr: "A n h = Ptr a \<Longrightarrow> alloc A junk n h = (Ptr a, h(a \<mapsto> replicate n junk))"
  by (simp add: alloc_def)

lemma fresh_allocatorD: "fresh_allocator A \<Longrightarrow> A n h = Ptr a \<Longrightarrow> 0 < n \<Longrightarrow> h a = None"
  by (auto simp: fresh_allocator_def)

subsection \<open>Blocks and ownership\<close>

text \<open>The addresses behind a pointer and the bytes of its block.\<close>

fun addrs :: "ptr \<Rightarrow> nat list" where
  "addrs NULL = []"
| "addrs (Ptr a) = [a]"

definition block_bytes :: "heap \<Rightarrow> ptr \<Rightarrow> byte list" where
  "block_bytes h p = (case p of NULL \<Rightarrow> [] | Ptr a \<Rightarrow> (case h a of None \<Rightarrow> [] | Some bs \<Rightarrow> bs))"

lemma block_bytes_simps [simp]:
  "block_bytes h NULL = []" "h a = Some bs \<Longrightarrow> block_bytes h (Ptr a) = bs"
  by (simp_all add: block_bytes_def)

lemma block_bytes_cong:
  "(\<And>x. x \<in> set (addrs p) \<Longrightarrow> h' x = h x) \<Longrightarrow> block_bytes h' p = block_bytes h p"
  by (cases p) (simp_all add: block_bytes_def)

lemma cfree_restrict: "set (addrs p) \<subseteq> dom h \<Longrightarrow> cfree p h = Some (h |` (- set (addrs p)))"
  by (cases p) (auto simp: restrict_map_def fun_eq_iff split: option.splits)

text \<open>Releasing a list of blocks, each owned once.\<close>

fun cfree_all :: "ptr list \<Rightarrow> heap \<Rightarrow> heap option" where
  "cfree_all [] h = Some h"
| "cfree_all (p # ps) h = do { h' \<leftarrow> cfree p h; cfree_all ps h' }"

lemma cfree_all_restrict:
  "distinct (concat (map addrs ps)) \<Longrightarrow> set (concat (map addrs ps)) \<subseteq> dom h \<Longrightarrow>
   cfree_all ps h = Some (h |` (- set (concat (map addrs ps))))"
proof (induction ps arbitrary: h)
  case Nil
  then show ?case by simp
next
  case (Cons p ps)
  have "cfree p h = Some (h |` (- set (addrs p)))"
    using Cons.prems by (intro cfree_restrict) auto
  moreover have "cfree_all ps (h |` (- set (addrs p))) =
      Some (h |` (- set (addrs p)) |` (- set (concat (map addrs ps))))"
    using Cons.prems by (intro Cons.IH) auto
  ultimately show ?case by (simp add: Compl_Un)
qed

end
