(* ===== verification/Libc.thy ===== *)
theory Libc
  imports C_Memory
begin

text \<open>
  What the socket server uses of the C library and of the socket layer. The allocator and the
  environment's choices are parameters: the record \<open>libc\<close> holds the decisions of \<open>malloc\<close> and
  \<open>realloc\<close>, and the record \<open>net\<close> holds, per socket, the results that \<open>recv\<close> will deliver and
  the answers that \<open>send\<close> will give. Any behaviour of the peer and of the network that the
  program can observe in a finite run is such a script; a \<open>recv\<close> with nothing left to deliver
  blocks for ever (\<open>None\<close>).
\<close>

subsection \<open>Allocation\<close>

text \<open>\<open>malloc\<close> and \<open>realloc\<close> of byte blocks, \<open>malloc\<close> of a struct given the addresses in use, and
  the bytes an uninitialised block holds.\<close>

record libc =
  cmalloc :: allocator
  crealloc :: "nat \<Rightarrow> nat \<Rightarrow> heap \<Rightarrow> ptr"
  malloc_struct :: "nat set \<Rightarrow> ptr"
  junk_byte :: byte

definition libc_ok :: "libc \<Rightarrow> bool" where
  "libc_ok L \<longleftrightarrow> fresh_allocator (cmalloc L) \<and>
     (\<forall>a n h b. crealloc L a n h = Ptr b \<longrightarrow> b = a \<or> h b = None) \<and>
     (\<forall>S a. malloc_struct L S = Ptr a \<longrightarrow> a \<notin> S)"

text \<open>A request up to the limit is served.\<close>

definition memory_up_to :: "libc \<Rightarrow> nat \<Rightarrow> bool" where
  "memory_up_to L limit \<longleftrightarrow> (\<forall>n h. finite (dom h) \<longrightarrow> n \<le> limit \<longrightarrow> cmalloc L n h \<noteq> NULL) \<and>
     (\<forall>a n h. finite (dom h) \<longrightarrow> n \<le> limit \<longrightarrow> crealloc L a n h \<noteq> NULL)"

definition malloc :: "libc \<Rightarrow> nat \<Rightarrow> heap \<Rightarrow> ptr \<times> heap" where
  "malloc L n h = alloc (cmalloc L) (junk_byte L) n h"

text \<open>\<open>realloc\<close> keeps the contents up to the smaller size; the old block is gone unless it fails.\<close>

fun realloc :: "libc \<Rightarrow> ptr \<Rightarrow> nat \<Rightarrow> heap \<Rightarrow> (ptr \<times> heap) option" where
  "realloc L NULL n h = Some (malloc L n h)"
| "realloc L (Ptr a) n h = (case h a of None \<Rightarrow> None
     | Some bs \<Rightarrow> (case crealloc L a n h of NULL \<Rightarrow> Some (NULL, h)
         | Ptr b \<Rightarrow> Some (Ptr b, h(a := None, b \<mapsto> take n bs @ replicate (n - length bs) (junk_byte L)))))"

text \<open>\<open>strdup\<close> of a string (its characters, without the terminating zero).\<close>

definition strdup :: "libc \<Rightarrow> byte list \<Rightarrow> heap \<Rightarrow> ptr \<times> heap" where
  "strdup L str h = (case cmalloc L (length str + 1) h of NULL \<Rightarrow> (NULL, h) | Ptr a \<Rightarrow> (Ptr a, h(a \<mapsto> str @ [nul])))"

text \<open>The string a pointer leads to: the bytes before the first zero byte of its block.\<close>

definition cstring :: "heap \<Rightarrow> ptr \<Rightarrow> byte list" where
  "cstring h p = takeWhile (\<lambda>c. c \<noteq> nul) (block_bytes h p)"

lemma libc_okD:
  assumes "libc_ok L"
  shows "cmalloc L n h = Ptr a \<Longrightarrow> 0 < n \<Longrightarrow> h a = None"
    and "crealloc L a n h = Ptr b \<Longrightarrow> b = a \<or> h b = None"
    and "malloc_struct L S = Ptr a \<Longrightarrow> a \<notin> S"
  using assms by (auto simp: libc_ok_def fresh_allocator_def)

lemma malloc_served:
  assumes "libc_ok L" and "memory_up_to L limit" and "n \<le> limit" and "0 < n" and "finite (dom h)"
  obtains a where "malloc L n h = (Ptr a, h(a \<mapsto> replicate n (junk_byte L)))" and "h a = None"
  using assms libc_okD(1) [OF assms(1)]
  by (cases "cmalloc L n h") (auto simp: malloc_def memory_up_to_def alloc_def)

lemma realloc_served:
  assumes "libc_ok L" and "memory_up_to L limit" and "n \<le> limit" and "h a = Some bs" and "length bs \<le> n" and "finite (dom h)"
  obtains b where "realloc L (Ptr a) n h = Some (Ptr b, h(a := None, b \<mapsto> bs @ replicate (n - length bs) (junk_byte L)))"
    and "b = a \<or> h b = None"
  using assms libc_okD(2) [OF assms(1)]
  by (cases "crealloc L a n h") (auto simp: memory_up_to_def)

text \<open>An allocator that uses the address after the highest one in use.\<close>

definition next_addr :: "nat set \<Rightarrow> ptr" where
  "next_addr S = (if finite S then Ptr (if S = {} then 0 else Suc (Max S)) else NULL)"

definition demo_libc :: libc where
  "demo_libc = \<lparr>cmalloc = (\<lambda>n h. next_addr (dom h)), crealloc = (\<lambda>a n h. Ptr a),
     malloc_struct = next_addr, junk_byte = nul\<rparr>"

lemma next_addr_fresh: "next_addr S = Ptr a \<Longrightarrow> a \<notin> S"
  by (auto simp: next_addr_def split: if_splits dest: Max_ge)

lemma demo_libc_ok: "libc_ok demo_libc"
  using next_addr_fresh by (fastforce simp: libc_ok_def fresh_allocator_def demo_libc_def)

lemma demo_libc_memory: "memory_up_to demo_libc limit"
  by (simp add: memory_up_to_def demo_libc_def next_addr_def)

lemma cstring_terminated:
  assumes "h a = Some bs" and "take (Suc (length str)) bs = str @ [nul]"
  shows "cstring h (Ptr a) = takeWhile (\<lambda>c. c \<noteq> nul) str"
proof -
  obtain zs where bs: "bs = str @ nul # zs"
    using append_take_drop_id [of "Suc (length str)" bs] assms(2) by (metis append.assoc append_Cons append_Nil)
  have "takeWhile (\<lambda>c. c \<noteq> nul) (str @ nul # zs) = takeWhile (\<lambda>c. c \<noteq> nul) str"
    by (induction str) auto
  with assms(1) bs show ?thesis by (simp add: cstring_def)
qed

subsection \<open>Sockets\<close>

datatype recv_event = Recv_Byte byte | Recv_Eof | Recv_Error

datatype send_event = Send_Error | Send_Accept nat

record net =
  inbox :: "cint \<Rightarrow> recv_event list"
  outbox :: "cint \<Rightarrow> byte list"
  send_plan :: "nat \<Rightarrow> send_event"
  sends :: nat
  open_socks :: "cint list"

text \<open>\<open>recv(fd, p, 1, 0)\<close> of one byte.\<close>

definition recv1 :: "cint \<Rightarrow> net \<Rightarrow> (recv_event \<times> net) option" where
  "recv1 fd w = (case inbox w fd of [] \<Rightarrow> None | ev # evs \<Rightarrow> Some (ev, w\<lparr>inbox := (inbox w)(fd := evs)\<rparr>))"

text \<open>\<open>send(fd, p, n, 0)\<close> takes some of the bytes, at most all of them, or fails with -1.\<close>

definition send :: "cint \<Rightarrow> byte list \<Rightarrow> net \<Rightarrow> ssize_t \<times> net" where
  "send fd bs w = (case send_plan w (sends w) of
       Send_Error \<Rightarrow> (- 1, w\<lparr>sends := Suc (sends w)\<rparr>)
     | Send_Accept k \<Rightarrow> (word_of_nat (min k (length bs)),
         w\<lparr>sends := Suc (sends w), outbox := (outbox w)(fd := outbox w fd @ take k bs)\<rparr>))"

definition close_sock :: "cint \<Rightarrow> net \<Rightarrow> net" where
  "close_sock fd w = w\<lparr>open_socks := remove1 fd (open_socks w)\<rparr>"

end
