(* ===== verification/Tcp_Connection.thy ===== *)
theory Tcp_Connection
  imports Libc
begin

text \<open>
  One client connection: \<^verbatim>\<open>server/src/tcp_connection.c\<close> and \<^verbatim>\<open>tcp_connection.h\<close>. Receiving a
  message grows a heap buffer by doubling, with the sizes as 32-bit \<open>int\<close>s; sending a file is a
  loop over the reads of that file. The file is a parameter here: the interface it has to
  offer is the locale \<open>chunk_reader\<close>.
\<close>

subsection \<open>State\<close>

record tcp_connection =
  socket :: cint
  client_address :: ptr
  is_open :: bool

text \<open>The byte heap, the connection structs and the network, as the server process sees them.\<close>

record pstate =
  pheap :: heap
  conns :: "nat \<rightharpoonup> tcp_connection"
  pnet :: net

subsection \<open>Operations\<close>

text \<open>The fields of a struct that \<open>malloc\<close> just returned are not yet set.\<close>

definition raw_connection :: tcp_connection where
  "raw_connection = \<lparr>socket = 0, client_address = NULL, is_open = False\<rparr>"

definition tcp_connection_create :: "libc \<Rightarrow> cint \<Rightarrow> byte list \<Rightarrow> pstate \<Rightarrow> ptr \<times> pstate" where
  "tcp_connection_create L sock addr s =
     (case malloc_struct L (dom (conns s)) of NULL \<Rightarrow> (NULL, s)
      | Ptr c \<Rightarrow>
          let s = s\<lparr>conns := (conns s)(c \<mapsto> raw_connection\<lparr>socket := sock\<rparr>)\<rparr>;
              (str, h) = strdup L addr (pheap s)
          in if str = NULL then (NULL, s\<lparr>conns := (conns s)(c := None)\<rparr>)
             else (Ptr c, s\<lparr>pheap := h,
               conns := (conns s)(c \<mapsto> \<lparr>socket = sock, client_address = str, is_open = True\<rparr>)\<rparr>))"

fun tcp_connection_destroy :: "ptr \<Rightarrow> pstate \<Rightarrow> pstate option" where
  "tcp_connection_destroy NULL s = Some s"
| "tcp_connection_destroy (Ptr c) s = do {
     connection \<leftarrow> conns s c;
     let s = s\<lparr>pnet := close_sock (socket connection) (pnet s)\<rparr>;
     h \<leftarrow> cfree (client_address connection) (pheap s);
     Some (s\<lparr>pheap := h, conns := (conns s)(c := None)\<rparr>)
   }"

fun tcp_connection_is_open :: "ptr \<Rightarrow> pstate \<Rightarrow> bool option" where
  "tcp_connection_is_open NULL s = None"
| "tcp_connection_is_open (Ptr c) s = map_option is_open (conns s c)"

text \<open>What \<open>tcp_connection_receive_message\<close> does: it stores a message and returns true, it
  returns false (with \<open>*message = NULL\<close>), or an \<open>assert\<close> ends the program.\<close>

datatype receive_result = Received ptr | Not_Received | Assert_Failed

text \<open>\<open>buffer_size *= 2\<close> on an \<open>int\<close> has no defined outcome beyond \<open>INT_MAX\<close>.\<close>

definition double_size :: "cint \<Rightarrow> cint option" where
  "double_size n = (if 2 * sint n < 2 ^ 31 then Some (2 * n) else None)"

partial_function (option) receive_loop ::
  "libc \<Rightarrow> nat \<Rightarrow> byte \<Rightarrow> ptr \<Rightarrow> cint \<Rightarrow> cint \<Rightarrow> pstate \<Rightarrow> (receive_result \<times> pstate) option" where
  "receive_loop L c delimiter buffer buffer_size current_size s = do {
     connection \<leftarrow> conns s c;
     (recv_size, w) \<leftarrow> recv1 (socket connection) (pnet s);
     let s = s\<lparr>pnet := w\<rparr>;
     (case recv_size of
        Recv_Byte b \<Rightarrow> do {
          h \<leftarrow> store_bytes buffer (unat current_size) [b] (pheap s);
          if b = delimiter
          then do {
            h \<leftarrow> store_bytes buffer (unat current_size) [nul] h;
            Some (Received buffer, s\<lparr>pheap := h\<rparr>)
          }
          else let current_size = current_size + 1 in
            if current_size = buffer_size
            then do {
              buffer_size \<leftarrow> double_size buffer_size;
              (buffer, h) \<leftarrow> realloc L buffer (unat buffer_size) h;
              if buffer = NULL then Some (Assert_Failed, s\<lparr>pheap := h\<rparr>)
              else receive_loop L c delimiter buffer buffer_size current_size (s\<lparr>pheap := h\<rparr>)
            }
            else receive_loop L c delimiter buffer buffer_size current_size (s\<lparr>pheap := h\<rparr>)
        }
      | Recv_Eof \<Rightarrow> do {
          h \<leftarrow> cfree buffer (pheap s);
          Some (Not_Received, s\<lparr>pheap := h, conns := (conns s)(c \<mapsto> connection\<lparr>is_open := False\<rparr>)\<rparr>)
        }
      | Recv_Error \<Rightarrow> do {
          h \<leftarrow> cfree buffer (pheap s);
          Some (Not_Received, s\<lparr>pheap := h\<rparr>)
        })
   }"

fun tcp_connection_receive_message ::
  "libc \<Rightarrow> ptr \<Rightarrow> byte \<Rightarrow> pstate \<Rightarrow> (receive_result \<times> pstate) option" where
  "tcp_connection_receive_message L NULL delimiter s = Some (Assert_Failed, s)"
| "tcp_connection_receive_message L (Ptr c) delimiter s =
     (let buffer_size = 1024; (buffer, h) = malloc L (unat buffer_size) (pheap s)
      in if buffer = NULL then Some (Assert_Failed, s)
         else receive_loop L c delimiter buffer buffer_size 0 (s\<lparr>pheap := h\<rparr>))"

fun tcp_connection_send_message :: "ptr \<Rightarrow> byte list \<Rightarrow> pstate \<Rightarrow> (bool \<times> pstate) option" where
  "tcp_connection_send_message NULL message s = None"
| "tcp_connection_send_message (Ptr c) message s = do {
     connection \<leftarrow> conns s c;
     let (ret, w) = send (socket connection) message (pnet s);
     Some (ret \<noteq> - 1, s\<lparr>pnet := w\<rparr>)
   }"

text \<open>The reads of a file: \<open>rd n f\<close> is \<open>read(fd->_fileno, buffer, n)\<close> in file state \<open>f\<close>. Its result is
  the bytes read (none at the end of the file) or \<open>None\<close> for an error, and the new file state;
  the outer option is a read without a defined outcome.\<close>

type_synonym 'f reader = "nat \<Rightarrow> 'f \<Rightarrow> (byte list option \<times> 'f) option"

partial_function (option) send_file_loop ::
  "'f reader \<Rightarrow> ptr \<Rightarrow> 'f \<Rightarrow> pstate \<Rightarrow> (bool \<times> 'f \<times> pstate) option" where
  "send_file_loop rd connection f s = do {
     (bytes_read, f) \<leftarrow> rd 4096 f;
     (case bytes_read of
        None \<Rightarrow> Some (True, f, s)
      | Some buffer \<Rightarrow>
          if buffer = [] then Some (True, f, s)
          else do {
            (ok, s) \<leftarrow> tcp_connection_send_message connection buffer s;
            if \<not> ok then Some (False, f, s) else send_file_loop rd connection f s
          })
   }"

definition tcp_connection_send_file :: "'f reader \<Rightarrow> ptr \<Rightarrow> 'f \<Rightarrow> pstate \<Rightarrow> (bool \<times> 'f \<times> pstate) option" where
  "tcp_connection_send_file rd connection f s = send_file_loop rd connection f s"


subsection \<open>Receiving a message\<close>

text \<open>The buffer while a message comes in: a block of its own beside \<open>h0\<close>, of a size that is a
  power of two up to 2 to the 30, with the bytes received so far at its start and room for one more.\<close>

definition recv_buf :: "heap \<Rightarrow> heap \<Rightarrow> nat \<Rightarrow> cint \<Rightarrow> cint \<Rightarrow> byte list \<Rightarrow> bool" where
  "recv_buf h0 h a n m got \<longleftrightarrow> (\<exists>bs k. h = h0(a \<mapsto> bs) \<and> h0 a = None \<and> length bs = unat n \<and> unat n = 2 ^ k \<and> k \<le> 30 \<and>
     unat m = length got \<and> length got < unat n \<and> take (length got) bs = got)"

lemma recv_bufE:
  assumes "recv_buf h0 h a n m got"
  obtains bs k where "h = h0(a \<mapsto> bs)" and "h0 a = None" and "length bs = unat n" and "unat n = 2 ^ k" and "k \<le> 30"
    and "unat m = length got" and "length got < unat n" and "take (length got) bs = got"
  using assms by (auto simp: recv_buf_def)

lemma unat_small_word32: "n < 4294967296 \<Longrightarrow> unat (word_of_nat n :: cint) = n"
  using unat_word_of_nat [of n, where 'a=32] by simp

lemma double_size_power:
  assumes "unat n = 2 ^ k" and "k < 30"
  shows "double_size n = Some (2 * n)" and "unat (2 * n) = 2 ^ Suc k"
proof -
  have "(2 :: nat) ^ k \<le> 2 ^ 29" using assms(2) by (intro power_increasing) auto
  then have n: "unat n \<le> 536870912" using assms(1) by simp
  have "sint n = int (unat n)"
    by (rule sint_unat) (use n in simp)
  then have "sint n \<le> 536870912" using n by linarith
  then show "double_size n = Some (2 * n)" by (simp add: double_size_def)
  have "unat (n + n) = unat n + unat n"
    by (rule unat_plus_small) (use n in simp)
  then show "unat (2 * n) = 2 ^ Suc k"
    by (simp only: mult_2 assms(1) power_Suc)
qed

lemma unat_Suc_word:
  fixes m :: cint
  assumes "unat m = k" and "k < 2 ^ 30"
  shows "unat (m + 1) = Suc k"
  using assms unat_plus_small [of m 1] by simp

lemma take_Suc_overwrite:
  "length got < length bs \<Longrightarrow> take (length got) bs = got \<Longrightarrow> take (Suc (length got)) (overwrite (length got) [b] bs) = got @ [b]"
  by (simp add: overwrite_def)

lemma recv_buf_store:
  assumes "recv_buf h0 h a n m got"
  shows "\<exists>bs. store_bytes (Ptr a) (unat m) [b] h = Some (h0(a \<mapsto> bs)) \<and> length bs = unat n \<and> take (Suc (length got)) bs = got @ [b]"
proof -
  obtain bs where bs: "h = h0(a \<mapsto> bs)" "length bs = unat n" "unat m = length got" "length got < unat n" "take (length got) bs = got"
    using assms by (elim recv_bufE)
  then have "store_bytes (Ptr a) (unat m) [b] h = Some (h0(a \<mapsto> overwrite (length got) [b] bs))"
    by (subst store_bytes_block [of h a bs]) simp_all
  with bs take_Suc_overwrite [of got bs b] show ?thesis by auto
qed


text \<open>One more byte that is not the delimiter.\<close>

definition took :: "cint \<Rightarrow> recv_event list \<Rightarrow> net \<Rightarrow> net" where
  "took fd evs w = w\<lparr>inbox := (inbox w)(fd := evs)\<rparr>"

lemma took_simps [simp]: "inbox (took fd evs w) fd = evs" "took fd evs (took fd evs' w) = took fd evs w"
  by (simp_all add: took_def)

lemma recv1_Cons: "inbox w fd = ev # evs \<Longrightarrow> recv1 fd w = Some (ev, took fd evs w)"
  by (simp add: recv1_def took_def)

lemma recv_buf_more:
  assumes L: "libc_ok L" "memory_up_to L (2 ^ 30)" and buf: "recv_buf h0 h a n m got" and len: "Suc (length got) < 2 ^ 30"
    and fin: "finite (dom h0)" and st: "store_bytes (Ptr a) (unat m) [b] h = Some h1"
  shows "if m + 1 = n
    then \<exists>a' h2. double_size n = Some (2 * n) \<and> realloc L (Ptr a) (unat (2 * n)) h1 = Some (Ptr a', h2) \<and>
           recv_buf h0 h2 a' (2 * n) (m + 1) (got @ [b])
    else recv_buf h0 h1 a n (m + 1) (got @ [b])"
proof -
  obtain bs k where inv: "h0 a = None" "unat n = 2 ^ k" "k \<le> 30" "unat m = length got" "length got < unat n"
    using buf by (elim recv_bufE)
  obtain bs where h1: "h1 = h0(a \<mapsto> bs)" "length bs = unat n" "take (Suc (length got)) bs = got @ [b]"
    using recv_buf_store [OF buf, of b] st by auto
  have m1: "unat (m + 1) = Suc (length got)"
    using unat_Suc_word [OF inv(4)] len by simp
  show ?thesis
  proof (cases "m + 1 = n")
    case False
    then have "Suc (length got) \<noteq> unat n" using m1 word_eq_unat [of "m + 1" n] by simp
    with False h1 m1 inv show ?thesis by (auto simp: recv_buf_def)
  next
    case True
    then have len_n: "unat n = Suc (length got)" using m1 by simp
    then have "(2 :: nat) ^ k < 2 ^ 30" using inv(2) len by simp
    then have k: "k < 30" by (rule power_less_imp_less_exp [rotated]) simp
    note dbl = double_size_power [OF inv(2) k]
    have lim: "unat (2 * n) \<le> 2 ^ 30"
      unfolding dbl(2) using k by (intro power_increasing) auto
    have "h1 a = Some bs" "length bs \<le> unat (2 * n)"
      using h1 dbl(2) inv(2) by simp_all
    then obtain a' where a': "realloc L (Ptr a) (unat (2 * n)) h1 =
        Some (Ptr a', h1(a := None, a' \<mapsto> bs @ replicate (unat (2 * n) - length bs) (junk_byte L)))" "a' = a \<or> h1 a' = None"
      using realloc_served [OF L lim, of h1 a bs] fin h1(1) by auto
    have "h0 a' = None" "h1(a := None) = h0"
      using a'(2) inv(1) h1(1) by (auto split: if_splits)
    moreover have "bs = got @ [b]" "2 ^ k - length got = Suc 0"
      using h1(2,3) len_n inv(2) by simp_all
    ultimately have "recv_buf h0 (h1(a := None, a' \<mapsto> bs @ replicate (unat (2 * n) - length bs) (junk_byte L))) a' (2 * n) (m + 1) (got @ [b])"
      using dbl(2) k m1 inv(2) len_n unfolding recv_buf_def
      by (intro exI [of _ "bs @ replicate (unat (2 * n) - length bs) (junk_byte L)"] exI [of _ "Suc k"]) auto
    with True dbl(1) a'(1) show ?thesis by auto
  qed
qed


lemma receive_loop_byte:
  assumes L: "libc_ok L" "memory_up_to L (2 ^ 30)" and c: "conns s c = Some conn"
    and inb: "inbox (pnet s) (socket conn) = Recv_Byte b # evs" and b: "b \<noteq> delimiter"
    and buf: "recv_buf h0 (pheap s) a n m got" and len: "Suc (length got) < 2 ^ 30" and fin: "finite (dom h0)"
  shows "\<exists>a' n' m' h'. recv_buf h0 h' a' n' m' (got @ [b]) \<and>
    receive_loop L c delimiter (Ptr a) n m s =
    receive_loop L c delimiter (Ptr a') n' m' (s\<lparr>pnet := took (socket conn) evs (pnet s), pheap := h'\<rparr>)"
proof -
  obtain h1 where h1: "store_bytes (Ptr a) (unat m) [b] (pheap s) = Some h1"
    using recv_buf_store [OF buf, of b] by auto
  note more = recv_buf_more [OF L buf len fin h1]
  show ?thesis
  proof (cases "m + 1 = n")
    case True
    then obtain a' h2 where r: "double_size n = Some (2 * n)" "realloc L (Ptr a) (unat (2 * n)) h1 = Some (Ptr a', h2)"
        "recv_buf h0 h2 a' (2 * n) (m + 1) (got @ [b])"
      using more by auto
    then have "receive_loop L c delimiter (Ptr a) n m s =
        receive_loop L c delimiter (Ptr a') (2 * n) (m + 1) (s\<lparr>pnet := took (socket conn) evs (pnet s), pheap := h2\<rparr>)"
      using True c inb b h1 by (subst receive_loop.simps) (simp add: recv1_Cons Let_def del: store_bytes.simps realloc.simps)
    with r(3) show ?thesis by blast
  next
    case False
    then have "receive_loop L c delimiter (Ptr a) n m s =
        receive_loop L c delimiter (Ptr a) n (m + 1) (s\<lparr>pnet := took (socket conn) evs (pnet s), pheap := h1\<rparr>)"
      using c inb b h1 by (subst receive_loop.simps) (simp add: recv1_Cons Let_def del: store_bytes.simps realloc.simps)
    with False more show ?thesis by auto
  qed
qed

lemma receive_loop_bytes:
  assumes L: "libc_ok L" "memory_up_to L (2 ^ 30)" and fin: "finite (dom h0)"
  shows "conns s c = Some conn \<Longrightarrow> inbox (pnet s) (socket conn) = map Recv_Byte msg @ evs \<Longrightarrow> delimiter \<notin> set msg \<Longrightarrow>
    recv_buf h0 (pheap s) a n m got \<Longrightarrow> length got + length msg < 2 ^ 30 \<Longrightarrow>
    \<exists>a' n' m' h'. recv_buf h0 h' a' n' m' (got @ msg) \<and>
      receive_loop L c delimiter (Ptr a) n m s =
      receive_loop L c delimiter (Ptr a') n' m' (s\<lparr>pnet := took (socket conn) evs (pnet s), pheap := h'\<rparr>)"
proof (induction msg arbitrary: s a n m got)
  case Nil
  then have "took (socket conn) evs (pnet s) = pnet s" by (auto simp: took_def)
  with Nil show ?case by (intro exI [of _ a] exI [of _ n] exI [of _ m] exI [of _ "pheap s"]) simp
next
  case (Cons b msg)
  obtain a1 n1 m1 h1 where one: "recv_buf h0 h1 a1 n1 m1 (got @ [b])"
      "receive_loop L c delimiter (Ptr a) n m s =
       receive_loop L c delimiter (Ptr a1) n1 m1 (s\<lparr>pnet := took (socket conn) (map Recv_Byte msg @ evs) (pnet s), pheap := h1\<rparr>)"
    using receive_loop_byte [OF L Cons.prems(1) _ _ Cons.prems(4) _ fin, of b "map Recv_Byte msg @ evs" delimiter] Cons.prems
    by auto
  let ?s = "s\<lparr>pnet := took (socket conn) (map Recv_Byte msg @ evs) (pnet s), pheap := h1\<rparr>"
  have "\<exists>a' n' m' h'. recv_buf h0 h' a' n' m' ((got @ [b]) @ msg) \<and>
      receive_loop L c delimiter (Ptr a1) n1 m1 ?s =
      receive_loop L c delimiter (Ptr a') n' m' (?s\<lparr>pnet := took (socket conn) evs (pnet ?s), pheap := h'\<rparr>)"
    by (rule Cons.IH) (use Cons.prems one(1) in auto)
  then show ?case using one(2) by simp
qed


text \<open>The last event: the delimiter, the end of the stream or an error.\<close>

lemma receive_loop_delimiter:
  assumes "conns s c = Some conn" and "inbox (pnet s) (socket conn) = Recv_Byte delimiter # evs"
    and buf: "recv_buf h0 (pheap s) a n m got"
  shows "\<exists>bs. receive_loop L c delimiter (Ptr a) n m s =
      Some (Received (Ptr a), s\<lparr>pnet := took (socket conn) evs (pnet s), pheap := h0(a \<mapsto> bs)\<rparr>) \<and>
    h0 a = None \<and> take (Suc (length got)) bs = got @ [nul]"
proof -
  obtain bs1 k where h1: "store_bytes (Ptr a) (unat m) [delimiter] (pheap s) = Some (h0(a \<mapsto> bs1))"
      "length bs1 = unat n" "take (Suc (length got)) bs1 = got @ [delimiter]" "unat n = 2 ^ k" "k \<le> 30"
      "unat m = length got" "length got < unat n" "h0 a = None"
    using recv_buf_store [OF buf, of delimiter] buf by (elim recv_bufE) auto
  have "take (length got) (take (Suc (length got)) bs1) = got" using h1(3) by simp
  then have "take (length got) bs1 = got" by simp
  with h1 have "recv_buf h0 (h0(a \<mapsto> bs1)) a n m got" by (auto simp: recv_buf_def)
  from recv_buf_store [OF this, of nul] obtain bs2 where
    "store_bytes (Ptr a) (unat m) [nul] (h0(a \<mapsto> bs1)) = Some (h0(a \<mapsto> bs2))" "take (Suc (length got)) bs2 = got @ [nul]"
    by auto
  with assms(1,2) h1(1,8) show ?thesis
    by (intro exI [of _ bs2], subst receive_loop.simps) (simp add: recv1_Cons Let_def del: store_bytes.simps)
qed

lemma receive_loop_end:
  assumes "conns s c = Some conn" and "inbox (pnet s) (socket conn) = ev # evs"
    and buf: "recv_buf h0 (pheap s) a n m got"
  shows "ev = Recv_Eof \<Longrightarrow> receive_loop L c delimiter (Ptr a) n m s = Some (Not_Received,
      s\<lparr>pnet := took (socket conn) evs (pnet s), pheap := h0, conns := (conns s)(c \<mapsto> conn\<lparr>is_open := False\<rparr>)\<rparr>)"
    and "ev = Recv_Error \<Longrightarrow> receive_loop L c delimiter (Ptr a) n m s = Some (Not_Received,
      s\<lparr>pnet := took (socket conn) evs (pnet s), pheap := h0\<rparr>)"
proof -
  have "cfree (Ptr a) (pheap s) = Some h0"
    using buf by (auto elim!: recv_bufE simp: fun_upd_idem)
  then show "ev = Recv_Eof \<Longrightarrow> receive_loop L c delimiter (Ptr a) n m s = Some (Not_Received,
      s\<lparr>pnet := took (socket conn) evs (pnet s), pheap := h0, conns := (conns s)(c \<mapsto> conn\<lparr>is_open := False\<rparr>)\<rparr>)"
    and "ev = Recv_Error \<Longrightarrow> receive_loop L c delimiter (Ptr a) n m s = Some (Not_Received,
      s\<lparr>pnet := took (socket conn) evs (pnet s), pheap := h0\<rparr>)"
    using assms(1,2) by (subst receive_loop.simps, simp add: recv1_Cons Let_def del: cfree.simps)+
qed

text \<open>Entering the loop with the first buffer.\<close>

lemma receive_message_start:
  assumes L: "libc_ok L" "memory_up_to L (2 ^ 30)" and c: "conns s c = Some conn"
    and inb: "inbox (pnet s) (socket conn) = map Recv_Byte msg @ evs"
    and msg: "delimiter \<notin> set msg" "length msg < 2 ^ 30" and fin: "finite (dom (pheap s))"
  shows "\<exists>a n m h'. recv_buf (pheap s) h' a n m msg \<and>
    tcp_connection_receive_message L (Ptr c) delimiter s =
    receive_loop L c delimiter (Ptr a) n m (s\<lparr>pnet := took (socket conn) evs (pnet s), pheap := h'\<rparr>)"
proof -
  have lim: "unat (1024 :: cint) \<le> 2 ^ 30" by simp
  obtain a where a: "malloc L (unat (1024 :: cint)) (pheap s) = (Ptr a, (pheap s)(a \<mapsto> replicate (unat (1024 :: cint)) (junk_byte L)))"
      "pheap s a = None"
    using malloc_served [OF L lim _ fin] by auto
  let ?h = "(pheap s)(a \<mapsto> replicate (unat (1024 :: cint)) (junk_byte L))"
  have "recv_buf (pheap s) ?h a 1024 0 []"
    unfolding recv_buf_def using a(2)
    by (intro exI [of _ "replicate (unat (1024 :: cint)) (junk_byte L)"] exI [of _ 10]) simp
  then have "recv_buf (pheap s) (pheap (s\<lparr>pheap := ?h\<rparr>)) a 1024 0 []" by simp
  from receive_loop_bytes [OF L fin _ _ msg(1) this, of c conn evs] c inb msg(2)
  show ?thesis using a(1) by (simp add: Let_def)
qed


text \<open>A whole message: up to its delimiter, or cut off by the end of the stream or an error.\<close>

lemma receive_line:
  assumes "libc_ok L" and "memory_up_to L (2 ^ 30)" and "conns s c = Some conn"
    and "inbox (pnet s) (socket conn) = map Recv_Byte msg @ Recv_Byte delimiter # evs"
    and "delimiter \<notin> set msg" and "length msg < 2 ^ 30" and "finite (dom (pheap s))"
  shows "\<exists>a bs. tcp_connection_receive_message L (Ptr c) delimiter s =
      Some (Received (Ptr a), s\<lparr>pnet := took (socket conn) evs (pnet s), pheap := (pheap s)(a \<mapsto> bs)\<rparr>) \<and>
    pheap s a = None \<and> take (Suc (length msg)) bs = msg @ [nul]"
proof -
  obtain a n m h' where st: "recv_buf (pheap s) h' a n m msg"
      "tcp_connection_receive_message L (Ptr c) delimiter s = receive_loop L c delimiter (Ptr a) n m
         (s\<lparr>pnet := took (socket conn) (Recv_Byte delimiter # evs) (pnet s), pheap := h'\<rparr>)"
    using receive_message_start [OF assms] by blast
  let ?s = "s\<lparr>pnet := took (socket conn) (Recv_Byte delimiter # evs) (pnet s), pheap := h'\<rparr>"
  have "conns ?s c = Some conn" "inbox (pnet ?s) (socket conn) = Recv_Byte delimiter # evs" "recv_buf (pheap s) (pheap ?s) a n m msg"
    using assms(3) st(1) by simp_all
  from receive_loop_delimiter [OF this, of L] show ?thesis
    unfolding st(2) by (elim exE conjE, intro exI conjI) (assumption | simp)+
qed

lemma receive_cut:
  assumes "libc_ok L" and "memory_up_to L (2 ^ 30)" and "conns s c = Some conn"
    and "inbox (pnet s) (socket conn) = map Recv_Byte msg @ ev # evs"
    and "delimiter \<notin> set msg" and "length msg < 2 ^ 30" and "finite (dom (pheap s))"
  shows "ev = Recv_Eof \<Longrightarrow> tcp_connection_receive_message L (Ptr c) delimiter s =
      Some (Not_Received, s\<lparr>pnet := took (socket conn) evs (pnet s), conns := (conns s)(c \<mapsto> conn\<lparr>is_open := False\<rparr>)\<rparr>)"
    and "ev = Recv_Error \<Longrightarrow> tcp_connection_receive_message L (Ptr c) delimiter s =
      Some (Not_Received, s\<lparr>pnet := took (socket conn) evs (pnet s)\<rparr>)"
proof -
  obtain a n m h' where st: "recv_buf (pheap s) h' a n m msg"
      "tcp_connection_receive_message L (Ptr c) delimiter s = receive_loop L c delimiter (Ptr a) n m
         (s\<lparr>pnet := took (socket conn) (ev # evs) (pnet s), pheap := h'\<rparr>)"
    using receive_message_start [OF assms] by blast
  let ?s = "s\<lparr>pnet := took (socket conn) (ev # evs) (pnet s), pheap := h'\<rparr>"
  have "conns ?s c = Some conn" "inbox (pnet ?s) (socket conn) = ev # evs" "recv_buf (pheap s) (pheap ?s) a n m msg"
    using assms(3) st(1) by simp_all
  note fin = receive_loop_end [OF this, of L delimiter]
  show "ev = Recv_Eof \<Longrightarrow> tcp_connection_receive_message L (Ptr c) delimiter s =
      Some (Not_Received, s\<lparr>pnet := took (socket conn) evs (pnet s), conns := (conns s)(c \<mapsto> conn\<lparr>is_open := False\<rparr>)\<rparr>)"
    unfolding st(2) by (subst fin(1)) simp_all
  show "ev = Recv_Error \<Longrightarrow> tcp_connection_receive_message L (Ptr c) delimiter s =
      Some (Not_Received, s\<lparr>pnet := took (socket conn) evs (pnet s)\<rparr>)"
    unfolding st(2) by (subst fin(2)) simp_all
qed

subsection \<open>Sending a file\<close>

lemma accepted_not_error: "k \<le> 4096 \<Longrightarrow> (word_of_nat k :: ssize_t) \<noteq> - 1"
proof
  assume k: "k \<le> 4096" and eq: "(word_of_nat k :: ssize_t) = - 1"
  have "sint (word_of_nat k :: ssize_t) = int k" by (rule sint_word_of_nat) (use k in simp)
  with eq show False by simp
qed

text \<open>The sends from the current one on all take something: none fails.\<close>

definition no_send_errors :: "net \<Rightarrow> bool" where
  "no_send_errors w \<longleftrightarrow> (\<forall>i\<ge>sends w. send_plan w i \<noteq> Send_Error)"

text \<open>What arrives when the i-th send takes the first \<open>accepted i\<close> bytes of its chunk.\<close>

definition accepted :: "net \<Rightarrow> nat \<Rightarrow> nat" where
  "accepted w i = (case send_plan w (sends w + i) of Send_Error \<Rightarrow> 0 | Send_Accept k \<Rightarrow> k)"

fun delivered :: "(nat \<Rightarrow> nat) \<Rightarrow> byte list list \<Rightarrow> byte list" where
  "delivered acc [] = []"
| "delivered acc (ch # chs) = take (acc 0) ch @ delivered (\<lambda>i. acc (Suc i)) chs"

lemma delivered_full: "(\<And>i. i < length chs \<Longrightarrow> length (chs ! i) \<le> acc i) \<Longrightarrow> delivered acc chs = concat chs"
proof (induction chs arbitrary: acc)
  case (Cons ch chs)
  have "delivered (\<lambda>i. acc (Suc i)) chs = concat chs"
    by (rule Cons.IH) (use Cons.prems in fastforce)
  with Cons.prems [of 0] show ?case by simp
qed simp

definition sent_net :: "cint \<Rightarrow> byte list \<Rightarrow> nat \<Rightarrow> net \<Rightarrow> net" where
  "sent_net fd bs n w = w\<lparr>sends := sends w + n, outbox := (outbox w)(fd := outbox w fd @ bs)\<rparr>"

lemma send_message_accepted:
  assumes "conns s c = Some conn" and "no_send_errors (pnet s)" and "length bs \<le> 4096"
  shows "tcp_connection_send_message (Ptr c) bs s =
    Some (True, s\<lparr>pnet := sent_net (socket conn) (take (accepted (pnet s) 0) bs) 1 (pnet s)\<rparr>)"
proof (cases "send_plan (pnet s) (sends (pnet s))")
  case Send_Error
  then show ?thesis using assms(2) by (auto simp: no_send_errors_def)
next
  case (Send_Accept k)
  then show ?thesis
    using assms accepted_not_error [of "min k (length bs)"]
    by (simp add: send_def sent_net_def accepted_def)
qed

text \<open>
  What sending a file relies on: in a valid state a read delivers a prefix of what is left of
  the file, at most as much as asked for, and nothing only at the end.
\<close>

locale chunk_reader =
  fixes valid :: "'f \<Rightarrow> bool" and rd :: "'f reader" and rest :: "'f \<Rightarrow> byte list"
  assumes read_ok: "valid f \<Longrightarrow> 0 < n \<Longrightarrow> n \<le> 4096 \<Longrightarrow>
    \<exists>bs f'. rd n f = Some (Some bs, f') \<and> valid f' \<and> length bs \<le> n \<and> rest f = bs @ rest f' \<and> (bs = [] \<longrightarrow> rest f = [])"
begin

lemma send_file_end:
  assumes "valid f" and "rest f = []"
  shows "\<exists>f'. send_file_loop rd p f s = Some (True, f', s) \<and> valid f' \<and> rest f' = []"
proof -
  obtain bs f' where "rd 4096 f = Some (Some bs, f')" "valid f'" "rest f = bs @ rest f'"
    using read_ok [OF assms(1), of 4096] by auto
  with assms(2) show ?thesis by (subst send_file_loop.simps) simp
qed

lemma send_file_sends:
  "valid f \<Longrightarrow> conns s c = Some conn \<Longrightarrow> no_send_errors (pnet s) \<Longrightarrow>
   \<exists>f' chunks. concat chunks = rest f \<and> (\<forall>ch\<in>set chunks. length ch \<le> 4096) \<and> valid f' \<and> rest f' = [] \<and>
     send_file_loop rd (Ptr c) f s = Some (True, f',
       s\<lparr>pnet := sent_net (socket conn) (delivered (accepted (pnet s)) chunks) (length chunks) (pnet s)\<rparr>)"
proof (induction "length (rest f)" arbitrary: f s rule: less_induct)
  case less
  show ?case
  proof (cases "rest f = []")
    case True
    then show ?thesis
      using send_file_end [OF less.prems(1) True, of "Ptr c" s]
      by (auto intro!: exI [of _ "[]"] simp: sent_net_def)
  next
    case False
    obtain bs f1 where r: "rd 4096 f = Some (Some bs, f1)" "valid f1" "length bs \<le> 4096" "rest f = bs @ rest f1" "bs \<noteq> []"
      using read_ok [OF less.prems(1), of 4096] False by auto
    let ?w1 = "sent_net (socket conn) (take (accepted (pnet s) 0) bs) 1 (pnet s)"
    let ?s1 = "s\<lparr>pnet := ?w1\<rparr>"
    have step: "send_file_loop rd (Ptr c) f s = send_file_loop rd (Ptr c) f1 ?s1"
      using r send_message_accepted [OF less.prems(2,3) r(3)] by (subst send_file_loop.simps) simp
    have "no_send_errors (pnet ?s1)"
      using less.prems(3) by (simp add: no_send_errors_def sent_net_def)
    then obtain f' chunks where f': "concat chunks = rest f1" "\<forall>ch\<in>set chunks. length ch \<le> 4096" "valid f'" "rest f' = []"
        "send_file_loop rd (Ptr c) f1 ?s1 = Some (True, f',
          ?s1\<lparr>pnet := sent_net (socket conn) (delivered (accepted (pnet ?s1)) chunks) (length chunks) (pnet ?s1)\<rparr>)"
      using less.hyps [of f1 ?s1] r less.prems(2) by auto
    have "accepted ?w1 = (\<lambda>i. accepted (pnet s) (Suc i))"
      by (simp add: fun_eq_iff accepted_def sent_net_def)
    then show ?thesis
      using f' r step by (intro exI [of _ f'] exI [of _ "bs # chunks"]) (simp add: sent_net_def)
  qed
qed

text \<open>If every send takes its whole chunk, the rest of the file arrives complete and in order.\<close>

lemma send_file_complete:
  assumes "valid f" and "conns s c = Some conn" and "\<And>i. \<exists>k\<ge>4096. send_plan (pnet s) i = Send_Accept k"
  shows "\<exists>f' n. valid f' \<and> rest f' = [] \<and>
    tcp_connection_send_file rd (Ptr c) f s = Some (True, f', s\<lparr>pnet := sent_net (socket conn) (rest f) n (pnet s)\<rparr>)"
proof -
  have acc: "4096 \<le> accepted (pnet s) i" for i
    using assms(3) [of "sends (pnet s) + i"] by (auto simp: accepted_def)
  have "no_send_errors (pnet s)"
    using assms(3) by (metis no_send_errors_def send_event.distinct(1))
  then obtain f' chunks where f': "concat chunks = rest f" "\<forall>ch\<in>set chunks. length ch \<le> 4096" "valid f'" "rest f' = []"
      "send_file_loop rd (Ptr c) f s = Some (True, f',
        s\<lparr>pnet := sent_net (socket conn) (delivered (accepted (pnet s)) chunks) (length chunks) (pnet s)\<rparr>)"
    using send_file_sends [OF assms(1,2)] by blast
  have "delivered (accepted (pnet s)) chunks = rest f"
    unfolding f'(1) [symmetric] using f'(2) acc by (intro delivered_full) (meson le_trans nth_mem)
  with f' show ?thesis by (auto simp: tcp_connection_send_file_def)
qed

end


subsection \<open>Creating and destroying\<close>

lemma tcp_connection_create_result:
  assumes "libc_ok L" and "tcp_connection_create L sock addr s = (p, s')"
  shows "if p = NULL then s' = s
    else tcp_connection_is_open p s' = Some True \<and>
      (\<exists>a c. p = Ptr c \<and> conns s c = None \<and> pheap s a = None \<and> pheap s' a = Some (addr @ [nul]) \<and>
         conns s' c = Some \<lparr>socket = sock, client_address = Ptr a, is_open = True\<rparr>) \<and>
      tcp_connection_destroy p s' = Some (s\<lparr>pnet := close_sock sock (pnet s)\<rparr>)"
proof (cases "malloc_struct L (dom (conns s))")
  case NULL
  then show ?thesis using assms(2) by (simp add: tcp_connection_create_def)
next
  case (Ptr c)
  have c: "conns s c = None" using libc_okD(3) [OF assms(1) Ptr] by (auto simp: dom_def)
  then have upd: "(conns s)(c := None) = conns s" by (simp add: fun_upd_idem)
  show ?thesis
  proof (cases "cmalloc L (length addr + 1) (pheap s)")
    case NULL
    then show ?thesis using assms(2) Ptr upd by (auto simp: tcp_connection_create_def strdup_def Let_def)
  next
    case a: (Ptr a)
    have "pheap s a = None" using libc_okD(1) [OF assms(1) a] by simp
    then have h: "pheap s a = None" "(pheap s)(a := None) = pheap s" by (simp_all add: fun_upd_idem)
    have "p = Ptr c" "s' = s\<lparr>pheap := (pheap s)(a \<mapsto> addr @ [nul]),
        conns := (conns s)(c \<mapsto> \<lparr>socket = sock, client_address = Ptr a, is_open = True\<rparr>)\<rparr>"
      using assms(2) a Ptr by (simp_all add: tcp_connection_create_def strdup_def Let_def)
    with c upd h show ?thesis by (auto simp: Let_def)
  qed
qed

subsection \<open>Properties\<close>

text \<open>C12: Receiving a message ends as soon as the peer's bytes decide it, for messages below 2 to the 30 bytes
  and with memory for the buffer. If the delimiter arrives, the message is returned as a
  zero-terminated string in one new heap block, whatever its length (the buffer grows as
  needed), and the bytes after the delimiter stay unread. If the peer closes before that, the
  result is false, the buffer is released and the connection is marked closed; on a receive
  error the result is false and the buffer is released, and the connection stays open.\<close>

theorem receive_message_correct:
  assumes "libc_ok L" and "memory_up_to L (2 ^ 30)" and "conns s c = Some conn" and "finite (dom (pheap s))"
    and "inbox (pnet s) (socket conn) = map Recv_Byte msg @ ev # evs" and "delimiter \<notin> set msg" and "length msg < 2 ^ 30"
    and "ev \<in> {Recv_Byte delimiter, Recv_Eof, Recv_Error}"
  shows "\<exists>r s'. tcp_connection_receive_message L (Ptr c) delimiter s = Some (r, s') \<and>
    inbox (pnet s') = (inbox (pnet s))(socket conn := evs) \<and> outbox (pnet s') = outbox (pnet s) \<and>
    (case ev of
       Recv_Byte _ \<Rightarrow> \<exists>a bs. r = Received (Ptr a) \<and> pheap s a = None \<and> pheap s' = (pheap s)(a \<mapsto> bs) \<and>
         take (Suc (length msg)) bs = msg @ [nul] \<and> conns s' = conns s
     | Recv_Eof \<Rightarrow> r = Not_Received \<and> pheap s' = pheap s \<and> conns s' = (conns s)(c \<mapsto> conn\<lparr>is_open := False\<rparr>)
     | Recv_Error \<Rightarrow> r = Not_Received \<and> pheap s' = pheap s \<and> conns s' = conns s)"
proof -
  note prems = assms(1-3,5-7,4)
  consider "ev = Recv_Byte delimiter" | "ev = Recv_Eof" | "ev = Recv_Error" using assms(8) by blast
  then show ?thesis
  proof cases
    case 1
    then have "inbox (pnet s) (socket conn) = map Recv_Byte msg @ Recv_Byte delimiter # evs" using assms(5) by simp
    from receive_line [OF assms(1-3) this assms(6,7,4)] 1 show ?thesis by (elim exE conjE) (auto simp: took_def)
  next
    case 2
    then show ?thesis using receive_cut(1) [OF prems] by (auto simp: took_def)
  next
    case 3
    then show ?thesis using receive_cut(2) [OF prems] by (auto simp: took_def)
  qed
qed

text \<open>One open connection on socket 4 whose peer sends the given events; every send is taken whole.\<close>

definition sample_conn :: tcp_connection where
  "sample_conn = \<lparr>socket = 4, client_address = NULL, is_open = True\<rparr>"

definition sample_pstate :: "recv_event list \<Rightarrow> pstate" where
  "sample_pstate evs = \<lparr>pheap = Map.empty, conns = [1 \<mapsto> sample_conn],
     pnet = \<lparr>inbox = (\<lambda>fd. if fd = 4 then evs else []), outbox = (\<lambda>fd. []), send_plan = (\<lambda>i. Send_Accept 4096),
       sends = 0, open_socks = [4]\<rparr>\<rparr>"

theorem receive_message_correct_witness:
  "\<exists>r s'. tcp_connection_receive_message demo_libc (Ptr 1) newline
      (sample_pstate (map Recv_Byte ''hi'' @ Recv_Byte newline # [Recv_Eof])) = Some (r, s') \<and>
    inbox (pnet s') = (inbox (pnet (sample_pstate (map Recv_Byte ''hi'' @ Recv_Byte newline # [Recv_Eof]))))(socket sample_conn := [Recv_Eof]) \<and>
    outbox (pnet s') = outbox (pnet (sample_pstate (map Recv_Byte ''hi'' @ Recv_Byte newline # [Recv_Eof]))) \<and>
    (case Recv_Byte newline of
       Recv_Byte _ \<Rightarrow> \<exists>a bs. r = Received (Ptr a) \<and>
         pheap (sample_pstate (map Recv_Byte ''hi'' @ Recv_Byte newline # [Recv_Eof])) a = None \<and>
         pheap s' = (pheap (sample_pstate (map Recv_Byte ''hi'' @ Recv_Byte newline # [Recv_Eof])))(a \<mapsto> bs) \<and>
         take (Suc (length ''hi'')) bs = ''hi'' @ [nul] \<and>
         conns s' = conns (sample_pstate (map Recv_Byte ''hi'' @ Recv_Byte newline # [Recv_Eof]))
     | Recv_Eof \<Rightarrow> r = Not_Received \<and>
         pheap s' = pheap (sample_pstate (map Recv_Byte ''hi'' @ Recv_Byte newline # [Recv_Eof])) \<and>
         conns s' = (conns (sample_pstate (map Recv_Byte ''hi'' @ Recv_Byte newline # [Recv_Eof])))(1 \<mapsto> sample_conn\<lparr>is_open := False\<rparr>)
     | Recv_Error \<Rightarrow> r = Not_Received \<and>
         pheap s' = pheap (sample_pstate (map Recv_Byte ''hi'' @ Recv_Byte newline # [Recv_Eof])) \<and>
         conns s' = conns (sample_pstate (map Recv_Byte ''hi'' @ Recv_Byte newline # [Recv_Eof])))"
  by (rule receive_message_correct [OF demo_libc_ok demo_libc_memory])
    (simp_all add: sample_pstate_def sample_conn_def)

text \<open>C31: A message of 2 to the 30 or more bytes has no defined outcome: with that many bytes before the
  delimiter, doubling the \<open>int\<close> buffer size overflows.\<close>

theorem receive_message_overflow:
  assumes "libc_ok L" and "memory_up_to L (2 ^ 30)" and "conns s c = Some conn" and "finite (dom (pheap s))"
    and "inbox (pnet s) (socket conn) = map Recv_Byte msg @ evs" and "delimiter \<notin> set msg" and "2 ^ 30 \<le> length msg"
  shows "tcp_connection_receive_message L (Ptr c) delimiter s = None"
proof -
  define N where "N = (2 :: nat) ^ 30 - 1"
  define b where "b = msg ! N"
  let ?evs = "map Recv_Byte (drop (Suc N) msg) @ evs"
  let ?w = "took (socket conn) (Recv_Byte b # ?evs) (pnet s)"
  have N: "N < length msg" using assms(7) by (simp add: N_def)
  then have msg: "msg = take N msg @ b # drop (Suc N) msg" by (simp add: b_def id_take_nth_drop)
  then have inb: "inbox (pnet s) (socket conn) = map Recv_Byte (take N msg) @ Recv_Byte b # ?evs"
    using assms(5) by (metis append_assoc append_Cons list.simps(9) map_append)
  have d: "delimiter \<notin> set (take N msg)" "b \<noteq> delimiter"
    using assms(6) N by (auto simp: b_def dest: in_set_takeD)
  have len: "length (take N msg) = N" "N < 2 ^ 30" using N by (simp_all add: N_def)
  obtain a n m h' where st: "recv_buf (pheap s) h' a n m (take N msg)"
      "tcp_connection_receive_message L (Ptr c) delimiter s =
       receive_loop L c delimiter (Ptr a) n m (s\<lparr>pnet := ?w, pheap := h'\<rparr>)"
    using receive_message_start [OF assms(1-3) inb d(1) _ assms(4)] len by auto
  obtain k where k: "unat n = 2 ^ k" "k \<le> 30" "unat m = N" "N < unat n"
    using st(1) len(1) by (elim recv_bufE) auto
  have "k = 30"
  proof (rule ccontr)
    assume "k \<noteq> 30"
    then have "(2 :: nat) ^ k \<le> 2 ^ 29" using k(2) by (intro power_increasing) auto
    then show False using k(1,4) by (simp add: N_def)
  qed
  then have n: "unat n = 2 ^ 30" using k(1) by simp
  have "unat (m + 1) = Suc N" using unat_Suc_word [OF k(3) len(2)] .
  then have m1: "m + 1 = n" using n word_eq_unat [of "m + 1" n] by (simp add: N_def)
  have "sint n = 2 ^ 30" using sint_unat [of n] n by simp
  then have "double_size n = None" by (simp add: double_size_def)
  moreover obtain h1 where "store_bytes (Ptr a) (unat m) [b] h' = Some h1"
    using recv_buf_store [OF st(1), of b] by auto
  ultimately show ?thesis
    unfolding st(2) using assms(3) d(2) m1
    by (subst receive_loop.simps) (simp add: recv1_Cons Let_def del: store_bytes.simps)
qed

theorem receive_message_overflow_witness:
  "tcp_connection_receive_message demo_libc (Ptr 1) newline (sample_pstate (map Recv_Byte (replicate (2 ^ 30) CHR ''a'') @ [])) = None"
  by (rule receive_message_overflow [OF demo_libc_ok demo_libc_memory,
      where conn = sample_conn and msg = "replicate (2 ^ 30) CHR ''a''" and evs = "[]"])
    (simp_all add: sample_pstate_def sample_conn_def)


text \<open>Creating a connection either fails and leaves no trace, whichever of its two allocations failed, or gives a
  new open connection on the socket with its own copy of the address; destroying it right away
  releases both blocks and closes the socket, and nothing else changes.\<close>

lemma connection_create_destroy:
  assumes "libc_ok L" and "tcp_connection_create L sock addr s = (p, s')"
  shows "if p = NULL then s' = s
    else tcp_connection_is_open p s' = Some True \<and>
      (\<exists>a c. p = Ptr c \<and> conns s c = None \<and> pheap s a = None \<and> pheap s' a = Some (addr @ [nul]) \<and>
         conns s' c = Some \<lparr>socket = sock, client_address = Ptr a, is_open = True\<rparr>) \<and>
      tcp_connection_destroy p s' = Some (s\<lparr>pnet := close_sock sock (pnet s)\<rparr>)"
  by (rule tcp_connection_create_result [OF assms])

lemma connection_create_destroy_witness:
  "if fst (tcp_connection_create demo_libc 5 ''::1'' (sample_pstate [])) = NULL
    then snd (tcp_connection_create demo_libc 5 ''::1'' (sample_pstate [])) = sample_pstate []
    else tcp_connection_is_open (fst (tcp_connection_create demo_libc 5 ''::1'' (sample_pstate [])))
        (snd (tcp_connection_create demo_libc 5 ''::1'' (sample_pstate []))) = Some True \<and>
      (\<exists>a c. fst (tcp_connection_create demo_libc 5 ''::1'' (sample_pstate [])) = Ptr c \<and> conns (sample_pstate []) c = None \<and>
         pheap (sample_pstate []) a = None \<and>
         pheap (snd (tcp_connection_create demo_libc 5 ''::1'' (sample_pstate []))) a = Some (''::1'' @ [nul]) \<and>
         conns (snd (tcp_connection_create demo_libc 5 ''::1'' (sample_pstate []))) c =
           Some \<lparr>socket = 5, client_address = Ptr a, is_open = True\<rparr>) \<and>
      tcp_connection_destroy (fst (tcp_connection_create demo_libc 5 ''::1'' (sample_pstate [])))
        (snd (tcp_connection_create demo_libc 5 ''::1'' (sample_pstate []))) =
        Some ((sample_pstate [])\<lparr>pnet := close_sock 5 (pnet (sample_pstate []))\<rparr>)"
  by (rule connection_create_destroy [OF demo_libc_ok]) simp

end
