(* ===== verification/Circular_Buffer.thy ===== *)
theory Circular_Buffer
  imports C_Memory
begin

text \<open>
  The circular buffer of write commands: \<^verbatim>\<open>aesd-char-driver/aesd-circular-buffer.{h,c}\<close>.
  The structs are records at their C widths (\<open>uint8_t\<close> offsets, \<open>size_t\<close> sizes), the two
  loops are recursive functions whose return is proved, and the abstract view of a buffer
  is the list of its live entries, oldest first. The interface the driver relies on (a
  log that keeps the newest commands) is the locale \<open>command_log\<close>.
\<close>

subsection \<open>Data\<close>

definition AESDCHAR_MAX_WRITE_OPERATIONS_SUPPORTED :: nat where
  [simp, code_unfold]: "AESDCHAR_MAX_WRITE_OPERATIONS_SUPPORTED = 10"

record aesd_buffer_entry =
  buffptr :: ptr
  entry_size :: size_t

record aesd_circular_buffer =
  entry :: "aesd_buffer_entry list"
  in_offs :: uint8
  out_offs :: uint8
  num_entries :: uint8
  buffer_size :: size_t

definition zero_entry :: aesd_buffer_entry where
  "zero_entry = \<lparr>buffptr = NULL, entry_size = 0\<rparr>"

lemma zero_entry_simps [simp]: "buffptr zero_entry = NULL" "entry_size zero_entry = 0"
  by (simp_all add: zero_entry_def)

subsection \<open>Operations\<close>

definition aesd_circular_buffer_empty :: "aesd_circular_buffer \<Rightarrow> bool" where
  "aesd_circular_buffer_empty b \<longleftrightarrow> num_entries b = 0"

definition aesd_circular_buffer_full :: "aesd_circular_buffer \<Rightarrow> bool" where
  "aesd_circular_buffer_full b \<longleftrightarrow> unat (num_entries b) = AESDCHAR_MAX_WRITE_OPERATIONS_SUPPORTED"

definition aesd_circular_buffer_size :: "aesd_circular_buffer \<Rightarrow> size_t" where
  "aesd_circular_buffer_size b = buffer_size b"

text \<open>The array access \<open>buffer->entry[i]\<close>; outside the array there is no outcome.\<close>

definition entry_at :: "aesd_circular_buffer \<Rightarrow> nat \<Rightarrow> aesd_buffer_entry option" where
  "entry_at b i = (if i < length (entry b) then Some (entry b ! i) else None)"

text \<open>\<open>(offs + 1) % AESDCHAR_MAX_WRITE_OPERATIONS_SUPPORTED\<close>, computed in \<open>int\<close> and
  stored back into a \<open>uint8_t\<close>.\<close>

definition next_offs :: "uint8 \<Rightarrow> uint8" where
  "next_offs offs = word_of_nat ((unat offs + 1) mod AESDCHAR_MAX_WRITE_OPERATIONS_SUPPORTED)"

text \<open>The body of the \<open>do ... while\<close> loop. The result is \<open>Some None\<close> for a \<open>NULL\<close> pointer and
  \<open>Some (Some (i, off))\<close> for \<open>&buffer->entry[i]\<close> with \<open>*entry_offset_byte_rtn = off\<close>.\<close>

partial_function (option) find_loop ::
  "aesd_circular_buffer \<Rightarrow> size_t \<Rightarrow> uint8 \<Rightarrow> size_t \<Rightarrow> (nat \<times> size_t) option option" where
  "find_loop b char_offset current_offs current_size = do {
     e \<leftarrow> entry_at b (unat current_offs);
     if char_offset < current_size + entry_size e
     then Some (Some (unat current_offs, char_offset - current_size))
     else if next_offs current_offs \<noteq> in_offs b
     then find_loop b char_offset (next_offs current_offs) (current_size + entry_size e)
     else Some None
   }"

definition aesd_circular_buffer_find_entry_offset_for_fpos ::
  "aesd_circular_buffer \<Rightarrow> size_t \<Rightarrow> (nat \<times> size_t) option option" where
  "aesd_circular_buffer_find_entry_offset_for_fpos b char_offset =
     (if \<not> aesd_circular_buffer_empty b then find_loop b char_offset (out_offs b) 0 else Some None)"

text \<open>The result is the pointer to be freed (or \<open>NULL\<close>) and the new buffer.\<close>

definition aesd_circular_buffer_add_entry ::
  "aesd_circular_buffer \<Rightarrow> aesd_buffer_entry \<Rightarrow> (ptr \<times> aesd_circular_buffer) option" where
  "aesd_circular_buffer_add_entry b add_entry = do {
     old \<leftarrow> entry_at b (unat (in_offs b));
     let (replaced_entry, b1) =
       (if aesd_circular_buffer_full b
        then (buffptr old,
              b\<lparr>buffer_size := buffer_size b - entry_size old, out_offs := next_offs (out_offs b)\<rparr>)
        else (NULL, b\<lparr>num_entries := num_entries b + 1\<rparr>));
     Some (replaced_entry,
       b1\<lparr>entry := (entry b1)[unat (in_offs b1) := add_entry],
          buffer_size := buffer_size b1 + entry_size add_entry,
          in_offs := next_offs (in_offs b1)\<rparr>)
   }"

text \<open>The position \<open>(buffer->out_offs + index) % 10\<close>: the sum is an \<open>unsigned int\<close>.\<close>

definition slot :: "aesd_circular_buffer \<Rightarrow> uint32 \<Rightarrow> nat" where
  "slot b i = unat (ucast (out_offs b) + i) mod AESDCHAR_MAX_WRITE_OPERATIONS_SUPPORTED"

text \<open>\<open>for (uint8_t i = 0; i < index; i++) entry_fpos += ...\<close>: the sum is taken in \<open>size_t\<close> and
  stored back into the \<open>int\<close>.\<close>

partial_function (option) entry_fpos_loop ::
  "aesd_circular_buffer \<Rightarrow> uint32 \<Rightarrow> uint8 \<Rightarrow> cint \<Rightarrow> cint option" where
  "entry_fpos_loop b index i entry_fpos =
     (if ucast i < index
      then do {
        e \<leftarrow> entry_at b (slot b (ucast i));
        entry_fpos_loop b index (i + 1) (ucast (scast entry_fpos + entry_size e))
      }
      else Some entry_fpos)"

definition aesd_circular_buffer_get_entry_fpos ::
  "aesd_circular_buffer \<Rightarrow> uint32 \<Rightarrow> size_t \<Rightarrow> cint option" where
  "aesd_circular_buffer_get_entry_fpos b index offset =
     (if ucast (num_entries b) \<le> index then Some (- 1)
      else do {
        e \<leftarrow> entry_at b (slot b index);
        if entry_size e \<le> offset then Some (- 1)
        else do {
          entry_fpos \<leftarrow> entry_fpos_loop b index 0 0;
          Some (ucast (scast entry_fpos + offset))
        }
      })"

text \<open>\<open>memset(buffer, 0, sizeof(struct aesd_circular_buffer))\<close>\<close>

definition aesd_circular_buffer_init :: aesd_circular_buffer where
  "aesd_circular_buffer_init =
     \<lparr>entry = replicate AESDCHAR_MAX_WRITE_OPERATIONS_SUPPORTED zero_entry,
      in_offs = 0, out_offs = 0, num_entries = 0, buffer_size = 0\<rparr>"

text \<open>The macro \<open>AESD_CIRCULAR_BUFFER_FOREACH\<close> runs its body on every slot of the array, live or
  not, in index order.\<close>

function aesd_circular_buffer_foreach ::
  "(aesd_buffer_entry \<Rightarrow> 's \<Rightarrow> 's option) \<Rightarrow> aesd_circular_buffer \<Rightarrow> nat \<Rightarrow> 's \<Rightarrow> 's option" where
  "aesd_circular_buffer_foreach body b index s =
     (if index < AESDCHAR_MAX_WRITE_OPERATIONS_SUPPORTED
      then do {
        e \<leftarrow> entry_at b index;
        s' \<leftarrow> body e s;
        aesd_circular_buffer_foreach body b (Suc index) s'
      }
      else Some s)"
  by pat_completeness auto
termination
  by (relation "measure (\<lambda>(body, b, index, s). AESDCHAR_MAX_WRITE_OPERATIONS_SUPPORTED - index)") auto

declare aesd_circular_buffer_foreach.simps [simp del]

subsection \<open>Abstract view and invariant\<close>

text \<open>The live entries, oldest first.\<close>

definition live :: "aesd_circular_buffer \<Rightarrow> aesd_buffer_entry list" where
  "live b = map (\<lambda>i. entry b ! ((unat (out_offs b) + i) mod AESDCHAR_MAX_WRITE_OPERATIONS_SUPPORTED))
               [0..<unat (num_entries b)]"

definition sizes :: "aesd_circular_buffer \<Rightarrow> nat list" where
  "sizes b = map (\<lambda>e. unat (entry_size e)) (live b)"

text \<open>\<open>M\<close> bounds the size of a single entry (the largest block the allocator hands out).\<close>

definition cb_inv :: "nat \<Rightarrow> aesd_circular_buffer \<Rightarrow> bool" where
  "cb_inv M b \<longleftrightarrow>
     length (entry b) = AESDCHAR_MAX_WRITE_OPERATIONS_SUPPORTED \<and>
     unat (out_offs b) < AESDCHAR_MAX_WRITE_OPERATIONS_SUPPORTED \<and>
     unat (num_entries b) \<le> AESDCHAR_MAX_WRITE_OPERATIONS_SUPPORTED \<and>
     unat (in_offs b) = (unat (out_offs b) + unat (num_entries b)) mod AESDCHAR_MAX_WRITE_OPERATIONS_SUPPORTED \<and>
     (\<forall>n \<in> set (sizes b). n \<le> M) \<and>
     unat (buffer_size b) = sum_list (sizes b)"

text \<open>Where a position of the concatenated commands lies: the command and the offset in it.\<close>

fun locate :: "nat list \<Rightarrow> nat \<Rightarrow> (nat \<times> nat) option" where
  "locate [] p = None"
| "locate (n # ns) p = (if p < n then Some (0, p) else map_option (apfst Suc) (locate ns (p - n)))"

lemma length_live [simp]: "length (live b) = unat (num_entries b)"
  by (simp add: live_def)

lemma length_sizes [simp]: "length (sizes b) = unat (num_entries b)"
  by (simp add: sizes_def)

lemma live_nth:
  "k < unat (num_entries b) \<Longrightarrow> live b ! k = entry b ! ((unat (out_offs b) + k) mod 10)"
  by (simp add: live_def)

lemma sizes_nth:
  "k < unat (num_entries b) \<Longrightarrow> sizes b ! k = unat (entry_size (live b ! k))"
  by (simp add: sizes_def)

lemma unat_next_offs [simp]: "unat (next_offs u) = (unat u + 1) mod 10"
  by (simp add: next_offs_def word_nat)

lemma cb_invD:
  assumes "cb_inv M b"
  shows "length (entry b) = 10" "unat (out_offs b) < 10" "unat (num_entries b) \<le> 10"
    "unat (in_offs b) = (unat (out_offs b) + unat (num_entries b)) mod 10"
    "\<And>n. n \<in> set (sizes b) \<Longrightarrow> n \<le> M" "unat (buffer_size b) = sum_list (sizes b)"
  using assms by (auto simp: cb_inv_def)

lemma cb_inv_in_offs: "cb_inv M b \<Longrightarrow> unat (in_offs b) < 10"
  by (simp add: cb_invD(4))

lemma entry_at_mod:
  "cb_inv M b \<Longrightarrow> entry_at b (n mod 10) = Some (entry b ! (n mod 10))"
  by (simp add: entry_at_def cb_invD(1))

lemma sizes_sum_less: "cb_inv M b \<Longrightarrow> sum_list (sizes b) < 2 ^ 64"
  using unat_less_pow [of "buffer_size b"] by (simp add: cb_invD(6))

lemma sizes_sum_bound: "cb_inv M b \<Longrightarrow> sum_list (sizes b) \<le> unat (num_entries b) * M"
  using sum_list_bound [of "sizes b" M] by (simp add: cb_invD(5))

subsection \<open>The initial buffer\<close>

lemma cb_inv_init: "cb_inv M aesd_circular_buffer_init"
  by (simp add: cb_inv_def aesd_circular_buffer_init_def sizes_def live_def)

lemma live_init [simp]: "live aesd_circular_buffer_init = []"
  by (simp add: aesd_circular_buffer_init_def live_def)

subsection \<open>Adding an entry\<close>

lemma mod_ring_neq: "i < j \<Longrightarrow> j - i < n \<Longrightarrow> (p + i) mod n \<noteq> (p + j) mod (n::nat)"
proof
  assume less: "i < j" "j - i < n" and "(p + i) mod n = (p + j) mod n"
  then have "n dvd (p + j) - (p + i)"
    using mod_eq_dvd_iff_nat [of "p + i" "p + j" n] by simp
  with less show False by (auto dest: dvd_imp_le)
qed

lemma mod_ring_eq_iff:
  assumes "i < n" "j < (n::nat)"
  shows "(p + i) mod n = (p + j) mod n \<longleftrightarrow> i = j"
  using assms mod_ring_neq [of i j n p] mod_ring_neq [of j i n p]
  by (cases i j rule: linorder_cases) (auto simp: eq_commute)

text \<open>Adding to a buffer with room appends the entry to the live list.\<close>

lemma add_entry_room:
  assumes inv: "cb_inv M b" and room: "unat (num_entries b) < 10"
  obtains b' where "aesd_circular_buffer_add_entry b e = Some (NULL, b')"
    and "live b' = live b @ [e]" and "unat (num_entries b') = Suc (unat (num_entries b))"
    and "entry b' = (entry b)[unat (in_offs b) := e]" and "unat (out_offs b') = unat (out_offs b)"
    and "unat (in_offs b') = (unat (in_offs b) + 1) mod 10"
    and "buffer_size b' = buffer_size b + entry_size e"
proof -
  let ?b' = "b\<lparr>num_entries := num_entries b + 1, entry := (entry b)[unat (in_offs b) := e],
     buffer_size := buffer_size b + entry_size e, in_offs := next_offs (in_offs b)\<rparr>"
  have num: "unat (num_entries b + 1) = Suc (unat (num_entries b))"
    using room by (simp add: word_nat)
  have "live ?b' = live b @ [e]"
    using room cb_invD(1,4) [OF inv] num
    by (auto simp: live_def num mod_ring_eq_iff nth_list_update)
  moreover have "aesd_circular_buffer_add_entry b e = Some (NULL, ?b')"
    using room cb_invD(1) [OF inv] cb_inv_in_offs [OF inv]
    by (simp add: aesd_circular_buffer_add_entry_def entry_at_def aesd_circular_buffer_full_def)
  ultimately show ?thesis
    using num by (intro that [of ?b']) simp_all
qed

text \<open>Adding to a full buffer drops the oldest entry and hands its block back.\<close>

lemma add_entry_full:
  assumes inv: "cb_inv M b" and full: "unat (num_entries b) = 10"
  obtains b' where "aesd_circular_buffer_add_entry b e = Some (buffptr (hd (live b)), b')"
    and "live b' = tl (live b) @ [e]" and "unat (num_entries b') = 10"
    and "entry b' = (entry b)[unat (in_offs b) := e]" and "unat (out_offs b') = (unat (out_offs b) + 1) mod 10"
    and "unat (in_offs b') = (unat (in_offs b) + 1) mod 10"
    and "buffer_size b' = buffer_size b - entry_size (hd (live b)) + entry_size e"
proof -
  let ?b' = "b\<lparr>entry := (entry b)[unat (in_offs b) := e], in_offs := next_offs (in_offs b),
     out_offs := next_offs (out_offs b),
     buffer_size := buffer_size b - entry_size (hd (live b)) + entry_size e\<rparr>"
  have in_out: "unat (in_offs b) = unat (out_offs b)"
    using full cb_invD(2,4) [OF inv] by simp
  have hd: "hd (live b) = entry b ! unat (in_offs b)"
    using full cb_invD(2) [OF inv] by (simp add: in_out live_def hd_map)
  have "live ?b' = tl (live b) @ [e]"
  proof (rule nth_equalityI)
    fix k assume "k < length (live ?b')"
    then have k: "k < 10" by (simp add: full)
    have pos: "((unat (out_offs b) + 1) mod 10 + k) mod 10 = (unat (out_offs b) + Suc k) mod 10"
      by (simp add: mod_add_left_eq)
    show "live ?b' ! k = (tl (live b) @ [e]) ! k"
    proof (cases "k = 9")
      case True
      then show ?thesis
        using cb_invD(1,2) [OF inv] pos by (simp add: live_nth full in_out nth_append)
    next
      case False
      with k have "(unat (out_offs b) + Suc k) mod 10 \<noteq> unat (out_offs b)"
        using mod_ring_neq [of 0 "Suc k" 10 "unat (out_offs b)"] cb_invD(2) [OF inv] by simp
      with False k show ?thesis
        using pos by (simp add: live_nth full in_out nth_append nth_tl)
    qed
  qed (simp add: full)
  moreover have "aesd_circular_buffer_add_entry b e = Some (buffptr (hd (live b)), ?b')"
    using full cb_invD(1) [OF inv] cb_inv_in_offs [OF inv]
    by (simp add: aesd_circular_buffer_add_entry_def entry_at_def aesd_circular_buffer_full_def hd)
  ultimately show ?thesis
    using full by (intro that [of ?b']) simp_all
qed

text \<open>Slots that hold no live entry still hold the zero pointer of the initial buffer.\<close>

definition dead_null :: "aesd_circular_buffer \<Rightarrow> bool" where
  "dead_null b \<longleftrightarrow> (\<forall>k < AESDCHAR_MAX_WRITE_OPERATIONS_SUPPORTED. unat (num_entries b) \<le> k \<longrightarrow>
     buffptr (entry b ! ((unat (out_offs b) + k) mod AESDCHAR_MAX_WRITE_OPERATIONS_SUPPORTED)) = NULL)"

lemma dead_null_init: "dead_null aesd_circular_buffer_init"
  by (simp add: dead_null_def aesd_circular_buffer_init_def zero_entry_def)

lemma add_entry_dead_null:
  assumes inv: "cb_inv M b" and dead: "dead_null b" and add: "aesd_circular_buffer_add_entry b e = Some (p, b')"
  shows "dead_null b'"
proof (cases "unat (num_entries b) < 10")
  case True
  then have b': "unat (num_entries b') = Suc (unat (num_entries b))"
      "entry b' = (entry b)[unat (in_offs b) := e]" "unat (out_offs b') = unat (out_offs b)"
    using add_entry_room [OF inv True, of e thesis for thesis] add by auto
  show ?thesis
    unfolding dead_null_def
  proof (intro allI impI)
    fix k :: nat assume k: "k < AESDCHAR_MAX_WRITE_OPERATIONS_SUPPORTED" "unat (num_entries b') \<le> k"
    then have "unat (num_entries b) < k" "k - unat (num_entries b) < 10"
      using b'(1) by auto
    from mod_ring_neq [OF this, of "unat (out_offs b)"]
    have "(unat (out_offs b) + k) mod 10 \<noteq> unat (in_offs b)"
      using cb_invD(4) [OF inv] by simp
    then show "buffptr (entry b' ! ((unat (out_offs b') + k) mod AESDCHAR_MAX_WRITE_OPERATIONS_SUPPORTED)) = NULL"
      using k dead b' by (auto simp: dead_null_def nth_list_update)
  qed
next
  case False
  with cb_invD(3) [OF inv] have "unat (num_entries b) = 10" by simp
  then have "unat (num_entries b') = 10"
    using add_entry_full [OF inv, of e thesis for thesis] add by auto
  then show ?thesis by (simp add: dead_null_def)
qed

text \<open>Live entries followed by dead slots are the array, rotated to the oldest entry.\<close>

lemma live_dead_rotate:
  assumes "cb_inv M b"
  shows "live b = take (unat (num_entries b)) (rotate (unat (out_offs b)) (entry b))"
  using cb_invD(1-3) [OF assms]
  by (intro nth_equalityI) (auto simp: live_nth nth_rotate min_def add.commute)

text \<open>Both cases at once: the buffer keeps the newest ten entries, the invariant holds again and
  the returned pointer is that of the entry that fell out.\<close>

lemma add_entry_spec:
  assumes inv: "cb_inv M b" and e: "unat (entry_size e) \<le> M" and M: "10 * M < 2 ^ 64"
  shows "\<exists>b'. aesd_circular_buffer_add_entry b e =
           Some (if length (live b) = 10 then buffptr (hd (live b)) else NULL, b') \<and>
         cb_inv M b' \<and> live b' = newest 10 (live b @ [e]) \<and>
         entry b' = (entry b)[unat (in_offs b) := e]"
proof (cases "unat (num_entries b) < 10")
  case True
  obtain b' where b': "aesd_circular_buffer_add_entry b e = Some (NULL, b')"
      "live b' = live b @ [e]" "unat (num_entries b') = Suc (unat (num_entries b))"
      "entry b' = (entry b)[unat (in_offs b) := e]" "unat (out_offs b') = unat (out_offs b)"
      "unat (in_offs b') = (unat (in_offs b) + 1) mod 10" "buffer_size b' = buffer_size b + entry_size e"
    using add_entry_room [OF inv True] by blast
  have sz: "sizes b' = sizes b @ [unat (entry_size e)]"
    by (simp add: sizes_def b'(2))
  have "unat (num_entries b) * M \<le> 9 * M"
    by (rule mult_le_mono1) (use True in simp)
  then have "sum_list (sizes b) + unat (entry_size e) \<le> 9 * M + M"
    using sizes_sum_bound [OF inv] e by linarith
  then have "unat (buffer_size b') = sum_list (sizes b')"
    using M by (simp add: b'(7) sz cb_invD(6) [OF inv] word_nat)
  then have "cb_inv M b'"
    using True e cb_invD(1-5) [OF inv] b'(3-6) by (auto simp: cb_inv_def sz mod_Suc_eq)
  with True b' show ?thesis by simp
next
  case False
  with cb_invD(3) [OF inv] have full: "unat (num_entries b) = 10" by simp
  obtain b' where b': "aesd_circular_buffer_add_entry b e = Some (buffptr (hd (live b)), b')"
      "live b' = tl (live b) @ [e]" "unat (num_entries b') = 10"
      "entry b' = (entry b)[unat (in_offs b) := e]" "unat (out_offs b') = (unat (out_offs b) + 1) mod 10"
      "unat (in_offs b') = (unat (in_offs b) + 1) mod 10"
      "buffer_size b' = buffer_size b - entry_size (hd (live b)) + entry_size e"
    using add_entry_full [OF inv full] by blast
  obtain x xs where lv: "live b = x # xs" and xs: "length xs = 9"
    using full length_live [of b] by (cases "live b") auto
  let ?s = "\<lambda>e. unat (entry_size e)"
  have sz: "sizes b = ?s x # map ?s xs" "sizes b' = map ?s xs @ [?s e]"
    by (simp_all add: sizes_def b'(2) lv)
  have "sum_list (map ?s xs) \<le> 9 * M"
    using sum_list_bound [of "map ?s xs" M] cb_invD(5) [OF inv] sz xs by simp
  then have "unat (buffer_size b') = sum_list (sizes b')"
    using M e cb_invD(6) [OF inv] by (simp add: b'(7) sz lv word_nat)
  then have "cb_inv M b'"
    using full e cb_invD(1-5) [OF inv] b'(3-6) sz by (auto simp: cb_inv_def mod_Suc_eq)
  then show ?thesis
    using full b' by (simp add: newest_snoc_full)
qed

subsection \<open>Finding the entry for a file position\<close>

lemma locate_None: "locate ns p = None \<longleftrightarrow> sum_list ns \<le> p"
  by (induction ns p rule: locate.induct) auto

lemma locate_SomeD:
  "locate ns p = Some (k, off) \<Longrightarrow> k < length ns \<and> off < ns ! k \<and> p = sum_list (take k ns) + off"
  by (induction ns p arbitrary: k rule: locate.induct) (fastforce split: if_splits)+

lemma locate_complete:
  "k < length ns \<Longrightarrow> off < ns ! k \<Longrightarrow> locate ns (sum_list (take k ns) + off) = Some (k, off)"
proof (induction ns arbitrary: k)
  case (Cons n ns)
  then show ?case by (cases k) auto
qed simp

text \<open>The loop at its \<open>k\<close>-th round agrees with \<open>locate\<close> on the entries not yet visited; in
  particular it always returns.\<close>

lemma find_loop_locate:
  assumes inv: "cb_inv M b"
  shows "k < unat (num_entries b) \<Longrightarrow> unat cur = (unat (out_offs b) + k) mod 10 \<Longrightarrow>
    unat sz = sum_list (take k (sizes b)) \<Longrightarrow> unat sz \<le> unat p \<Longrightarrow>
    find_loop b p cur sz =
      Some (map_option (\<lambda>(j, off). ((unat (out_offs b) + (k + j)) mod 10, word_of_nat off))
              (locate (drop k (sizes b)) (unat p - unat sz)))"
proof (induction "unat (num_entries b) - k" arbitrary: k cur sz)
  case (Suc m)
  let ?e = "entry b ! unat cur"
  have e: "entry_at b (unat cur) = Some ?e" "unat (entry_size ?e) = sizes b ! k"
    using Suc.prems entry_at_mod [OF inv] by (simp_all add: sizes_nth live_nth)
  have tk: "sum_list (take (Suc k) (sizes b)) = unat sz + sizes b ! k"
    using Suc.prems by (simp add: take_Suc_conv_app_nth)
  then have "unat sz + unat (entry_size ?e) < 2 ^ 64"
    using sum_list_take_le [of "Suc k" "sizes b"] sizes_sum_less [OF inv] e(2) by linarith
  then have sz': "unat (sz + entry_size ?e) = unat sz + sizes b ! k"
    using e(2) by (simp add: word_nat)
  have dr: "drop k (sizes b) = sizes b ! k # drop (Suc k) (sizes b)"
    using Suc.prems(1) by (simp add: Cons_nth_drop_Suc)
  have nxt: "unat (next_offs cur) = (unat (out_offs b) + Suc k) mod 10"
    using Suc.prems(2) by (simp add: mod_Suc_eq)
  show ?case
  proof (cases "unat p < unat sz + sizes b ! k")
    case True
    have "p - sz = word_of_nat (unat p - unat sz)"
      by (rule word_of_unat_eq) (use Suc.prems(4) in \<open>simp add: word_nat\<close>)
    moreover have "find_loop b p cur sz = Some (Some (unat cur, p - sz))"
      using True by (subst find_loop.simps) (simp add: e(1) word_less_unat sz')
    moreover have "unat p - unat sz < sizes b ! k"
      using True Suc.prems(4) by linarith
    ultimately show ?thesis
      using Suc.prems(2) by (simp add: dr)
  next
    case False
    have split: "p < sz + entry_size ?e \<longleftrightarrow> False"
      using False by (simp add: word_less_unat sz')
    show ?thesis
    proof (cases "Suc k < unat (num_entries b)")
      case more: True
      then have "next_offs cur \<noteq> in_offs b"
        using nxt cb_invD(3,4) [OF inv] mod_ring_neq [of "Suc k" "unat (num_entries b)" 10 "unat (out_offs b)"]
        by (auto simp: word_eq_unat)
      then have "find_loop b p cur sz = find_loop b p (next_offs cur) (sz + entry_size ?e)"
        using split by (subst find_loop.simps) (simp add: e(1))
      also have "\<dots> = Some (map_option (\<lambda>(j, off). ((unat (out_offs b) + (Suc k + j)) mod 10, word_of_nat off))
            (locate (drop (Suc k) (sizes b)) (unat p - unat (sz + entry_size ?e))))"
        using Suc.hyps(2) more nxt tk sz' False by (intro Suc.hyps(1)) auto
      finally show ?thesis
        using False by (simp add: dr sz' option.map_comp comp_def case_prod_unfold)
    next
      case last: False
      with Suc.prems(1) have "unat (num_entries b) = Suc k" by simp
      then have "next_offs cur = in_offs b" "drop (Suc k) (sizes b) = []"
        using nxt cb_invD(4) [OF inv] by (simp_all add: word_eq_unat)
      then show ?thesis
        using split False by (subst find_loop.simps) (simp add: e(1) dr)
    qed
  qed
qed simp

lemma find_entry_locate:
  assumes "cb_inv M b"
  shows "aesd_circular_buffer_find_entry_offset_for_fpos b p =
    Some (map_option (\<lambda>(k, off). ((unat (out_offs b) + k) mod 10, word_of_nat off)) (locate (sizes b) (unat p)))"
proof (cases "aesd_circular_buffer_empty b")
  case True
  then have "sizes b = []"
    by (simp add: aesd_circular_buffer_empty_def sizes_def live_def)
  with True show ?thesis
    by (simp add: aesd_circular_buffer_find_entry_offset_for_fpos_def)
next
  case False
  then have "0 < unat (num_entries b)"
    by (simp add: aesd_circular_buffer_empty_def unat_gt_0)
  with False show ?thesis
    using find_loop_locate [OF assms, of 0 "out_offs b" 0 p] cb_invD(2) [OF assms]
    by (simp add: aesd_circular_buffer_find_entry_offset_for_fpos_def)
qed

subsection \<open>The file position of a command\<close>

lemma entry_at_slot:
  assumes inv: "cb_inv M b" and i: "unat i < unat (num_entries b)"
  shows "entry_at b (slot b i) = Some (live b ! unat i)"
proof -
  have "unat (ucast (out_offs b) + i) = unat (out_offs b) + unat i"
    using i cb_invD(2,3) [OF inv] by (subst unat_plus_small) (simp_all add: unat_ucast_up)
  then show ?thesis
    using i entry_at_mod [OF inv] by (simp add: slot_def live_nth)
qed

lemma entry_fpos_loop_sum:
  assumes inv: "cb_inv M b" and idx: "unat index \<le> unat (num_entries b)"
  shows "unat i \<le> unat index \<Longrightarrow> acc = word_of_nat (sum_list (take (unat i) (sizes b))) \<Longrightarrow>
    entry_fpos_loop b index i acc = Some (word_of_nat (sum_list (take (unat index) (sizes b))))"
proof (induction "unat index - unat i" arbitrary: i acc)
  case 0
  then show ?case
    by (subst entry_fpos_loop.simps) (simp add: word_less_unat unat_ucast_up)
next
  case (Suc m)
  have i: "unat i < unat index" "unat i < unat (num_entries b)"
    using Suc.hyps(2) Suc.prems(1) idx by linarith+
  have i1: "unat (i + 1) = Suc (unat i)"
    using i cb_invD(3) [OF inv] by (simp add: word_nat)
  have ui: "unat (ucast i :: uint32) = unat i"
    by (simp add: unat_ucast_up)
  have "acc + ucast (entry_size (live b ! unat i)) = word_of_nat (sum_list (take (unat (i + 1)) (sizes b)))"
    using i Suc.prems(2) by (simp add: i1 take_Suc_conv_app_nth sizes_nth)
  then have "entry_fpos_loop b index (i + 1) (acc + ucast (entry_size (live b ! unat i))) =
      Some (word_of_nat (sum_list (take (unat index) (sizes b))))"
    using Suc.hyps(2) i by (intro Suc.hyps(1)) (simp_all add: i1)
  then show ?case
    using i by (subst entry_fpos_loop.simps)
      (simp add: word_less_unat ui entry_at_slot [OF inv] ucast_scast_add)
qed

lemma get_entry_fpos_exact:
  assumes inv: "cb_inv M b"
  shows "aesd_circular_buffer_get_entry_fpos b index offset =
    Some (if unat index < unat (num_entries b) \<and> unat offset < sizes b ! unat index
          then word_of_nat (sum_list (take (unat index) (sizes b)) + unat offset) else - 1)"
proof (cases "unat index < unat (num_entries b)")
  case True
  then have "\<not> ucast (num_entries b) \<le> index"
    by (simp add: word_le_nat_alt unat_ucast_up)
  moreover have "entry_fpos_loop b index 0 0 = Some (word_of_nat (sum_list (take (unat index) (sizes b))))"
    using True by (intro entry_fpos_loop_sum [OF inv]) simp_all
  ultimately show ?thesis
    using True entry_at_slot [OF inv True]
    by (simp add: aesd_circular_buffer_get_entry_fpos_def word_le_nat_alt sizes_nth ucast_scast_add)
next
  case False
  then show ?thesis
    by (simp add: aesd_circular_buffer_get_entry_fpos_def word_le_nat_alt unat_ucast_up)
qed

subsection \<open>The interface: a log that keeps the newest commands\<close>

text \<open>Adding a whole sequence of entries, as the driver does over its lifetime.\<close>

fun add_all :: "('b \<Rightarrow> 'e \<Rightarrow> ('p \<times> 'b) option) \<Rightarrow> 'e list \<Rightarrow> 'b \<Rightarrow> ('p list \<times> 'b) option" where
  "add_all add [] b = Some ([], b)"
| "add_all add (e # es) b = do {
     (p, b') \<leftarrow> add b e;
     (ps, b'') \<leftarrow> add_all add es b';
     Some (p # ps, b'')
   }"

locale command_log =
  fixes add :: "'b \<Rightarrow> 'e \<Rightarrow> ('p \<times> 'b) option"
    and log :: "'b \<Rightarrow> 'e list"
    and block :: "'e \<Rightarrow> 'p"
    and no_block :: 'p
    and inv :: "'b \<Rightarrow> bool"
    and ok :: "'e \<Rightarrow> bool"
    and cap :: nat
  assumes cap_pos: "0 < cap"
    and log_cap: "inv b \<Longrightarrow> length (log b) \<le> cap"
    and add_spec: "inv b \<Longrightarrow> ok e \<Longrightarrow>
      \<exists>b'. add b e = Some (if length (log b) = cap then block (hd (log b)) else no_block, b') \<and>
           inv b' \<and> log b' = newest cap (log b @ [e])"
begin

text \<open>After any sequence of additions the log holds the newest entries.\<close>

lemma add_all_newest:
  "inv b \<Longrightarrow> \<forall>e \<in> set es. ok e \<Longrightarrow>
   \<exists>ps b'. add_all add es b = Some (ps, b') \<and> length ps = length es \<and> inv b' \<and> log b' = newest cap (log b @ es)"
proof (induction es arbitrary: b)
  case Nil
  then show ?case by (simp add: log_cap)
next
  case (Cons e es)
  then obtain p b1 where b1: "add b e = Some (p, b1)" "inv b1" "log b1 = newest cap (log b @ [e])"
    using add_spec [of b e] by auto
  then obtain ps b2 where "add_all add es b1 = Some (ps, b2)" "length ps = length es" "inv b2"
      "log b2 = newest cap (log b1 @ es)"
    using Cons.IH [of b1] Cons.prems by auto
  then show ?case
    using b1 by (simp add: newest_append_newest)
qed

text \<open>Nothing is lost track of: every block that went in is still in the log or was handed back,
  in order.\<close>

lemma add_all_blocks:
  "inv b \<Longrightarrow> \<forall>e \<in> set es. ok e \<Longrightarrow> \<forall>e \<in> set (log b @ es). block e \<noteq> no_block \<Longrightarrow>
   add_all add es b = Some (ps, b') \<Longrightarrow>
   map block (log b @ es) = filter (\<lambda>p. p \<noteq> no_block) ps @ map block (log b')"
proof (induction es arbitrary: b ps)
  case (Cons e es)
  let ?p = "if length (log b) = cap then block (hd (log b)) else no_block"
  from Cons.prems obtain b1 where b1: "add b e = Some (?p, b1)" "inv b1" "log b1 = newest cap (log b @ [e])"
    using add_spec [of b e] by auto
  then obtain ps' where ps: "ps = ?p # ps'" "add_all add es b1 = Some (ps', b')"
    using Cons.prems(4) by (auto split: bind_splits)
  have step: "map block (log b @ [e]) = filter (\<lambda>p. p \<noteq> no_block) [?p] @ map block (log b1)"
  proof (cases "length (log b) = cap")
    case True
    then obtain x xs where xs: "log b = x # xs" using cap_pos by (cases "log b") auto
    with True show ?thesis
      using b1(3) Cons.prems(3) newest_snoc_full [of "log b" cap e] cap_pos by simp
  next
    case False
    then have "length (log b @ [e]) \<le> cap" using log_cap [OF Cons.prems(1)] by simp
    with False show ?thesis using b1(3) by simp
  qed
  have sub: "set (log b1) \<subseteq> set (log b @ [e])"
    using b1(3) set_newest by metis
  have rest: "map block (log b1 @ es) = filter (\<lambda>p. p \<noteq> no_block) ps' @ map block (log b')"
    using Cons.prems sub by (intro Cons.IH [OF b1(2) _ _ ps(2)]) auto
  have "map block (log b @ e # es) = map block (log b @ [e]) @ map block es" by simp
  also have "\<dots> = filter (\<lambda>p. p \<noteq> no_block) [?p] @ map block (log b1 @ es)"
    unfolding step by (simp only: map_append append_assoc)
  also have "\<dots> = filter (\<lambda>p. p \<noteq> no_block) ([?p] @ ps') @ map block (log b')"
    by (simp only: rest filter_append append_assoc)
  finally show ?case by (simp only: ps(1) append.simps)
qed simp

end

text \<open>The circular buffer provides the interface, for any bound \<open>M\<close> on entry sizes whose tenfold
  fits \<open>size_t\<close>.\<close>

interpretation ring: command_log aesd_circular_buffer_add_entry live buffptr NULL
  "\<lambda>b. 10 * M < 2 ^ 64 \<and> cb_inv M b" "\<lambda>e. unat (entry_size e) \<le> M" 10
  for M :: nat
proof unfold_locales
  fix b and e :: aesd_buffer_entry
  assume "10 * M < 2 ^ 64 \<and> cb_inv M b" and "unat (entry_size e) \<le> M"
  then show "\<exists>b'. aesd_circular_buffer_add_entry b e =
      Some (if length (live b) = 10 then buffptr (hd (live b)) else NULL, b') \<and>
      (10 * M < 2 ^ 64 \<and> cb_inv M b') \<and> live b' = newest 10 (live b @ [e])"
    using add_entry_spec [of M b e] by auto
qed (auto dest: cb_invD(3))

subsection \<open>Properties\<close>

text \<open>C5: From the initial buffer, adding any sequence of entries (each of at most \<open>M\<close> bytes) always
  succeeds; the live entries are then exactly the newest ten, oldest first, the indices, the entry
  count and the byte total are consistent, and the pointers handed back for release are exactly
  those of the entries that fell out, in order.\<close>

theorem circular_buffer_keeps_newest:
  assumes "10 * M < 2 ^ 64" and "\<forall>e \<in> set es. unat (entry_size e) \<le> M \<and> buffptr e \<noteq> NULL"
  shows "\<exists>ps b. add_all aesd_circular_buffer_add_entry es aesd_circular_buffer_init = Some (ps, b) \<and>
    cb_inv M b \<and> live b = newest 10 es \<and>
    map buffptr es = filter (\<lambda>p. p \<noteq> NULL) ps @ map buffptr (live b)"
proof -
  have inv: "10 * M < 2 ^ 64 \<and> cb_inv M aesd_circular_buffer_init"
    using assms(1) cb_inv_init by blast
  have ok: "\<forall>e \<in> set es. unat (entry_size e) \<le> M"
    using assms(2) by blast
  obtain ps b where b: "add_all aesd_circular_buffer_add_entry es aesd_circular_buffer_init = Some (ps, b)"
      "cb_inv M b" "live b = newest 10 es"
    using ring.add_all_newest [OF inv ok] by auto
  moreover have "map buffptr es = filter (\<lambda>p. p \<noteq> NULL) ps @ map buffptr (live b)"
    using ring.add_all_blocks [OF inv ok _ b(1)] assms(2) by auto
  ultimately show ?thesis by blast
qed

theorem circular_buffer_keeps_newest_witness:
  "\<exists>ps b. add_all aesd_circular_buffer_add_entry
      (map (\<lambda>i. \<lparr>buffptr = Ptr i, entry_size = 5\<rparr>) [0..<12]) aesd_circular_buffer_init = Some (ps, b) \<and>
    cb_inv 8 b \<and> live b = newest 10 (map (\<lambda>i. \<lparr>buffptr = Ptr i, entry_size = 5\<rparr>) [0..<12]) \<and>
    map buffptr (map (\<lambda>i. \<lparr>buffptr = Ptr i, entry_size = 5\<rparr>) [0..<12]) =
      filter (\<lambda>p. p \<noteq> NULL) ps @ map buffptr (live b)"
  by (rule circular_buffer_keeps_newest) simp_all

text \<open>C7: In a consistent buffer the search for a file position always returns. It finds an entry exactly
  when the position lies inside the stored bytes, and then the entry is the one that covers the
  position (the bytes of all older entries come before it) with the matching offset.\<close>

theorem find_entry_offset_correct:
  assumes "cb_inv M b"
  shows "\<exists>r. aesd_circular_buffer_find_entry_offset_for_fpos b p = Some r \<and>
    (r = None \<longleftrightarrow> unat (aesd_circular_buffer_size b) \<le> unat p) \<and>
    (\<forall>i off. r = Some (i, off) \<longrightarrow> (\<exists>k < unat (num_entries b).
       entry_at b i = Some (live b ! k) \<and> off < entry_size (live b ! k) \<and>
       unat p = sum_list (map (\<lambda>e. unat (entry_size e)) (take k (live b))) + unat off))"
proof (cases "locate (sizes b) (unat p)")
  case None
  then have "aesd_circular_buffer_find_entry_offset_for_fpos b p = Some None"
    using find_entry_locate [OF assms, of p] by simp
  moreover have "unat (aesd_circular_buffer_size b) \<le> unat p"
    using None cb_invD(6) [OF assms] by (simp add: locate_None aesd_circular_buffer_size_def)
  ultimately show ?thesis by simp
next
  case (Some r)
  then obtain k off where r: "locate (sizes b) (unat p) = Some (k, off)" by (cases r) auto
  then have k: "k < unat (num_entries b)" "off < sizes b ! k" "unat p = sum_list (take k (sizes b)) + off"
    using locate_SomeD [OF r] by simp_all
  have bound: "\<not> unat (aesd_circular_buffer_size b) \<le> unat p"
    using r locate_None [of "sizes b" "unat p"] cb_invD(6) [OF assms] by (simp add: aesd_circular_buffer_size_def)
  have off: "unat (word_of_nat off :: size_t) = off"
    using k(2) unat_less_pow [of "entry_size (live b ! k)"] by (intro unat_word_of_nat) (simp add: sizes_nth [OF k(1)])
  have "entry_at b ((unat (out_offs b) + k) mod 10) = Some (live b ! k)"
    using entry_at_mod [OF assms] k(1) by (simp add: live_nth)
  then show ?thesis
    using find_entry_locate [OF assms, of p] r k off bound
    by (auto simp: word_less_unat sizes_nth sizes_def take_map intro!: exI [of _ k])
qed

text \<open>A full buffer that has wrapped around, used by the witnesses.\<close>

definition sample_buffer :: aesd_circular_buffer where
  "sample_buffer = \<lparr>entry = map (\<lambda>i. \<lparr>buffptr = Ptr i, entry_size = 5\<rparr>) [0..<10],
     in_offs = 3, out_offs = 3, num_entries = 10, buffer_size = 50\<rparr>"

lemma sample_buffer_sizes: "sizes sample_buffer = replicate 10 5"
  by (rule nth_equalityI) (simp_all add: sizes_nth live_nth, simp_all add: sample_buffer_def)

lemma sample_buffer_inv: "cb_inv 8 sample_buffer"
  unfolding cb_inv_def sample_buffer_sizes by (simp add: sample_buffer_def sum_list_replicate)

theorem find_entry_offset_correct_witness:
  "\<exists>r. aesd_circular_buffer_find_entry_offset_for_fpos sample_buffer 37 = Some r \<and>
    (r = None \<longleftrightarrow> unat (aesd_circular_buffer_size sample_buffer) \<le> unat (37 :: size_t)) \<and>
    (\<forall>i off. r = Some (i, off) \<longrightarrow> (\<exists>k < unat (num_entries sample_buffer).
       entry_at sample_buffer i = Some (live sample_buffer ! k) \<and> off < entry_size (live sample_buffer ! k) \<and>
       unat (37 :: size_t) = sum_list (map (\<lambda>e. unat (entry_size e)) (take k (live sample_buffer))) + unat off))"
  by (rule find_entry_offset_correct [OF sample_buffer_inv])

text \<open>C13: The two directions of the position arithmetic agree. For a consistent buffer with less than
  2 GiB of data, the file position computed for byte \<open>offset\<close> of command \<open>index\<close> is negative exactly
  when there is no such byte; otherwise searching for that position leads back to that very entry
  and offset.\<close>

theorem entry_fpos_roundtrip:
  assumes "cb_inv M b" and "unat (aesd_circular_buffer_size b) < 2 ^ 31"
  shows "\<exists>pos. aesd_circular_buffer_get_entry_fpos b index offset = Some pos \<and>
    (if unat index < unat (num_entries b) \<and> offset < entry_size (live b ! unat index)
     then 0 \<le> sint pos \<and>
          aesd_circular_buffer_find_entry_offset_for_fpos b (scast pos) = Some (Some (slot b index, offset))
     else sint pos = - 1)"
proof (cases "unat index < unat (num_entries b) \<and> offset < entry_size (live b ! unat index)")
  case True
  let ?n = "sum_list (take (unat index) (sizes b)) + unat offset"
  have off: "unat offset < sizes b ! unat index" and idx: "unat index < unat (num_entries b)"
    using True by (simp_all add: sizes_nth word_less_unat)
  have "?n < sum_list (sizes b)"
    using off idx sum_list_nth_split [of "unat index" "sizes b"] by simp
  then have n: "?n < 2 ^ 31"
    using assms(2) cb_invD(6) [OF assms(1)] by (simp add: aesd_circular_buffer_size_def)
  have get: "aesd_circular_buffer_get_entry_fpos b index offset = Some (word_of_nat ?n)"
    using off idx by (simp add: get_entry_fpos_exact [OF assms(1)])
  have "sint (word_of_nat ?n :: cint) = int ?n"
    by (rule sint_word_of_nat) (use n in simp)
  moreover have "(scast (word_of_nat ?n :: cint) :: size_t) = word_of_nat ?n"
    by (rule scast_word_of_nat) (use n in simp)
  moreover have "unat (word_of_nat ?n :: size_t) = ?n"
    using n by (intro unat_word_of_nat) simp
  moreover have "locate (sizes b) ?n = Some (unat index, unat offset)"
    using off idx by (intro locate_complete) simp_all
  moreover have "slot b index = (unat (out_offs b) + unat index) mod 10"
  proof -
    have "unat (ucast (out_offs b) + index) = unat (out_offs b) + unat index"
      using idx cb_invD(2,3) [OF assms(1)] by (subst unat_plus_small) (simp_all add: unat_ucast_up)
    then show ?thesis by (simp add: slot_def)
  qed
  ultimately show ?thesis
    using True get find_entry_locate [OF assms(1), of "word_of_nat ?n"] by simp
next
  case False
  then have "aesd_circular_buffer_get_entry_fpos b index offset = Some (- 1)"
    by (auto simp: get_entry_fpos_exact [OF assms(1)] sizes_nth word_less_unat)
  then show ?thesis
    using False by auto
qed

theorem entry_fpos_roundtrip_witness:
  "\<exists>pos. aesd_circular_buffer_get_entry_fpos sample_buffer 7 2 = Some pos \<and>
    (if unat (7 :: uint32) < unat (num_entries sample_buffer) \<and> 2 < entry_size (live sample_buffer ! unat (7 :: uint32))
     then 0 \<le> sint pos \<and>
          aesd_circular_buffer_find_entry_offset_for_fpos sample_buffer (scast pos) = Some (Some (slot sample_buffer 7, 2))
     else sint pos = - 1)"
proof (rule entry_fpos_roundtrip [OF sample_buffer_inv])
  show "unat (aesd_circular_buffer_size sample_buffer) < 2 ^ 31"
    by (simp add: sample_buffer_def aesd_circular_buffer_size_def)
qed

end
