(* ===== verification/Kernel_Api.thy ===== *)
theory Kernel_Api
  imports C_Memory
begin

text \<open>
  What the character driver uses of the Linux kernel. The kernel is not part of this
  repository: its functions are the fields of the record \<open>kernel_api\<close>, an argument of every
  driver definition that calls them, and \<open>kernel_ok\<close> collects the documented behaviour the
  driver relies on. User memory is a total map from addresses to bytes; which accesses
  fault is decided by the \<open>copy_*_user\<close> parameters.
\<close>

type_synonym uptr = "64 word"
type_synonym umem = "uptr \<Rightarrow> byte"

definition user_bytes :: "umem \<Rightarrow> uptr \<Rightarrow> nat \<Rightarrow> byte list" where
  "user_bytes m p n = map (\<lambda>i. m (p + word_of_nat i)) [0..<n]"

definition user_store :: "umem \<Rightarrow> uptr \<Rightarrow> byte list \<Rightarrow> umem" where
  "user_store m p bs = (\<lambda>a. if unat (a - p) < length bs then bs ! unat (a - p) else m a)"

text \<open>
  \<^item> \<open>kmalloc\<close> answers \<open>NULL\<close> or the new block; \<open>kmalloc_max\<close> is \<open>KMALLOC_MAX_SIZE\<close>;
    \<open>uninit\<close> is what fresh memory holds.
  \<^item> \<open>copy_from_user m p n\<close> gives the number of bytes not copied and the bytes stored into the
    destination; \<open>copy_to_user m p bs\<close> the number of bytes not copied and the new user memory.
  \<^item> \<open>fixed_size_llseek f_pos off whence size\<close> gives the return value and the new \<open>f_pos\<close>.
  \<^item> \<open>alloc_chrdev_region minor\<close> gives the return value and the \<open>dev_t\<close>; \<open>cdev_add dev\<close> its
    return value.
\<close>

record kernel_api =
  kmalloc :: allocator
  kmalloc_max :: nat
  uninit :: byte
  copy_from_user :: "umem \<Rightarrow> uptr \<Rightarrow> size_t \<Rightarrow> size_t \<times> byte list"
  copy_to_user :: "umem \<Rightarrow> uptr \<Rightarrow> byte list \<Rightarrow> size_t \<times> umem"
  fixed_size_llseek :: "loff_t \<Rightarrow> loff_t \<Rightarrow> cint \<Rightarrow> loff_t \<Rightarrow> loff_t \<times> loff_t"
  alloc_chrdev_region :: "uint32 \<Rightarrow> cint \<times> uint32"
  cdev_add :: "uint32 \<Rightarrow> cint"

definition kmalloc_ok :: "kernel_api \<Rightarrow> bool" where
  "kmalloc_ok K \<longleftrightarrow> fresh_allocator (kmalloc K) \<and>
     (\<forall>n h a. kmalloc K n h = Ptr a \<longrightarrow> n \<le> kmalloc_max K) \<and> 10 * kmalloc_max K < 2 ^ 31"

definition uaccess_ok :: "kernel_api \<Rightarrow> bool" where
  "uaccess_ok K \<longleftrightarrow>
     (\<forall>m p n left bs. copy_from_user K m p n = (left, bs) \<longrightarrow>
        length bs \<le> unat n \<and> (left = 0 \<longrightarrow> bs = user_bytes m p (unat n))) \<and>
     (\<forall>m p bs left m'. copy_to_user K m p bs = (left, m') \<longrightarrow> left = 0 \<longrightarrow> m' = user_store m p bs)"

text \<open>A seek answers a new position between 0 and the size, or an error that leaves the
  position alone; an absolute seek (\<open>SEEK_SET\<close>) inside the range succeeds.\<close>

definition llseek_ok :: "kernel_api \<Rightarrow> bool" where
  "llseek_ok K \<longleftrightarrow>
     (\<forall>cur off whence size r cur'. fixed_size_llseek K cur off whence size = (r, cur') \<longrightarrow>
        (if 0 \<le> sint r then cur' = r \<and> sint r \<le> sint size else cur' = cur) \<and>
        (whence = 0 \<longrightarrow> 0 \<le> sint off \<longrightarrow> sint off \<le> sint size \<longrightarrow> r = off))"

definition kernel_ok :: "kernel_api \<Rightarrow> bool" where
  "kernel_ok K \<longleftrightarrow> kmalloc_ok K \<and> uaccess_ok K \<and> llseek_ok K"

subsection \<open>Facts\<close>

lemma length_user_bytes [simp]: "length (user_bytes m p n) = n"
  by (simp add: user_bytes_def)

lemma user_bytes_0 [simp]: "user_bytes m p 0 = []"
  by (simp add: user_bytes_def)

lemma user_bytes_store:
  assumes "length bs < 2 ^ 64"
  shows "user_bytes (user_store m p bs) p (length bs) = bs"
  using assms by (auto simp: user_bytes_def user_store_def unat_word_of_nat intro!: nth_equalityI)

lemma user_store_outside:
  "length bs \<le> unat (a - p) \<Longrightarrow> user_store m p bs a = m a"
  by (simp add: user_store_def)

lemma kernel_okD:
  assumes "kernel_ok K"
  shows "fresh_allocator (kmalloc K)" "kmalloc K n h = Ptr a \<Longrightarrow> n \<le> kmalloc_max K"
    "10 * kmalloc_max K < 2 ^ 31"
    "copy_from_user K m p c = (left, bs) \<Longrightarrow> length bs \<le> unat c"
    "copy_from_user K m p c = (0, bs) \<Longrightarrow> bs = user_bytes m p (unat c)"
    "copy_to_user K m p bs = (0, m') \<Longrightarrow> m' = user_store m p bs"
  using assms by (auto simp: kernel_ok_def kmalloc_ok_def uaccess_ok_def)

subsection \<open>A kernel that satisfies the assumptions\<close>

text \<open>Used by the witnesses: the first free address below a bound, at most 4 MiB per block;
  user copies that always succeed; seeks as the kernel's \<open>fixed_size_llseek\<close> documents them.\<close>

fun first_free :: "heap \<Rightarrow> nat \<Rightarrow> nat \<Rightarrow> ptr" where
  "first_free h a 0 = NULL"
| "first_free h a (Suc n) = (if h a = None then Ptr a else first_free h (Suc a) n)"

definition demo_llseek :: "loff_t \<Rightarrow> loff_t \<Rightarrow> cint \<Rightarrow> loff_t \<Rightarrow> loff_t \<times> loff_t" where
  "demo_llseek cur off whence sz =
     (let target = (if whence = 0 then off else if whence = 1 then cur + off else sz + off)
      in if whence \<le> 2 \<and> 0 \<le> sint target \<and> sint target \<le> sint sz then (target, target) else (- EINVAL, cur))"

definition demo_kernel :: kernel_api where
  "demo_kernel =
     \<lparr>kmalloc = (\<lambda>n h. if n \<le> 4194304 then first_free h 0 64 else NULL), kmalloc_max = 4194304,
      uninit = CHR 0x00,
      copy_from_user = (\<lambda>m p n. (0, user_bytes m p (unat n))),
      copy_to_user = (\<lambda>m p bs. (0, user_store m p bs)),
      fixed_size_llseek = demo_llseek,
      alloc_chrdev_region = (\<lambda>minor. (0, push_bit 20 240)), cdev_add = (\<lambda>dev. 0)\<rparr>"

lemma first_free_hit: "h a = None \<Longrightarrow> 0 < n \<Longrightarrow> first_free h a n = Ptr a"
  by (cases n) simp_all

lemma first_free_None: "first_free h a n = Ptr b \<Longrightarrow> h b = None"
  by (induction h a n rule: first_free.induct) (auto split: if_splits)

lemma demo_kernel_ok: "kernel_ok demo_kernel"
proof -
  have "llseek_ok demo_kernel"
    by (auto simp: llseek_ok_def demo_kernel_def demo_llseek_def Let_def split: if_splits)
  moreover have "kmalloc_ok demo_kernel"
    by (auto simp: kmalloc_ok_def fresh_allocator_def demo_kernel_def dest: first_free_None split: if_splits)
  moreover have "uaccess_ok demo_kernel"
    by (auto simp: uaccess_ok_def demo_kernel_def)
  ultimately show ?thesis by (simp add: kernel_ok_def)
qed

end
