(* ===== verification/Char_Driver.thy ===== *)
theory Char_Driver
  imports Circular_Buffer Kernel_Api
begin

text \<open>
  The character driver: \<^verbatim>\<open>aesd-char-driver/main.c\<close> with the structs of
  \<^verbatim>\<open>aesdchar.h\<close> and \<^verbatim>\<open>aesd_ioctl.h\<close>. The global \<open>aesd_device\<close>, the kernel heap and
  user memory form the state \<open>kstate\<close>; each file operation is one definition with the
  lock, the allocation, the copies and the releases in the order of the source.
\<close>

subsection \<open>Data\<close>

datatype mutex_state = Mutex_Zero | Unlocked | Locked

datatype cdev_state = Cdev_None | Cdev_Added

record aesd_dev =
  circular_buffer :: aesd_circular_buffer
  staging_entry :: aesd_buffer_entry
  lock :: mutex_state
  cdev :: cdev_state

text \<open>\<open>filp->private_data\<close> is \<open>NULL\<close> until \<open>aesd_open\<close> points it at the only device.\<close>

datatype device_ref = No_Device | Aesd_Device

record kfile =
  f_pos :: loff_t
  private_data :: device_ref

record kstate =
  aesd_device :: aesd_dev
  kheap :: heap
  user_mem :: umem
  aesd_major :: uint32
  aesd_minor :: uint32
  chrdev_region :: "uint32 option"

record aesd_seekto =
  write_cmd :: uint32
  write_cmd_offset :: uint32

definition AESD_IOC_MAGIC :: uint32 where
  "AESD_IOC_MAGIC = 0x16"

text \<open>\<open>_IOWR(type, nr, T)\<close>: direction 3 in bits 30-31, \<open>sizeof(T)\<close> in bits 16-29, type and number
  below (\<open>asm-generic/ioctl.h\<close>).\<close>

definition AESDCHAR_IOCSEEKTO :: uint32 where
  "AESDCHAR_IOCSEEKTO = push_bit 30 3 + push_bit 16 8 + push_bit 8 AESD_IOC_MAGIC + 1"

text \<open>A \<open>struct aesd_seekto\<close> in memory: two little-endian 32-bit words.\<close>

definition le32 :: "byte list \<Rightarrow> uint32" where
  "le32 bs = word_of_nat (foldr (\<lambda>c n. of_char c + 256 * n) bs 0)"

definition seekto_of_bytes :: "byte list \<Rightarrow> aesd_seekto" where
  "seekto_of_bytes bs = \<lparr>write_cmd = le32 (take 4 bs), write_cmd_offset = le32 (take 4 (drop 4 bs))\<rparr>"

definition sizeof_aesd_seekto :: size_t where
  "sizeof_aesd_seekto = 8"

subsection \<open>The device lock\<close>

text \<open>Taking a lock that is held, or one that was never initialised, has no outcome.\<close>

definition mutex_lock :: "kstate \<Rightarrow> kstate option" where
  "mutex_lock s = (if lock (aesd_device s) = Unlocked
     then Some (s\<lparr>aesd_device := (aesd_device s)\<lparr>lock := Locked\<rparr>\<rparr>) else None)"

definition mutex_unlock :: "kstate \<Rightarrow> kstate option" where
  "mutex_unlock s = (if lock (aesd_device s) = Locked
     then Some (s\<lparr>aesd_device := (aesd_device s)\<lparr>lock := Unlocked\<rparr>\<rparr>) else None)"

text \<open>Following \<open>filp->private_data\<close>.\<close>

definition aesd_dev_ptr :: "kfile \<Rightarrow> unit option" where
  "aesd_dev_ptr filp = (if private_data filp = Aesd_Device then Some () else None)"

subsection \<open>File operations\<close>

definition aesd_open :: "kfile \<Rightarrow> cint \<times> kfile" where
  "aesd_open filp = (0, filp\<lparr>private_data := Aesd_Device\<rparr>)"

definition aesd_release :: "kfile \<Rightarrow> cint" where
  "aesd_release filp = 0"

definition aesd_llseek :: "kernel_api \<Rightarrow> kfile \<Rightarrow> loff_t \<Rightarrow> cint \<Rightarrow> kstate \<Rightarrow> (loff_t \<times> kfile \<times> kstate) option" where
  "aesd_llseek K filp off whence s = do {
     _ \<leftarrow> aesd_dev_ptr filp;
     s \<leftarrow> mutex_lock s;
     let (retval, pos) = fixed_size_llseek K (f_pos filp) off whence
                           (aesd_circular_buffer_size (circular_buffer (aesd_device s)));
     s \<leftarrow> mutex_unlock s;
     Some (retval, filp\<lparr>f_pos := pos\<rparr>, s)
   }"

text \<open>The result is the return value, \<open>*f_pos\<close> and the state after the call.\<close>

definition aesd_read ::
  "kernel_api \<Rightarrow> kfile \<Rightarrow> uptr \<Rightarrow> size_t \<Rightarrow> loff_t \<Rightarrow> kstate \<Rightarrow> (ssize_t \<times> loff_t \<times> kstate) option" where
  "aesd_read K filp buf count pos s = do {
     _ \<leftarrow> aesd_dev_ptr filp;
     s \<leftarrow> mutex_lock s;
     found \<leftarrow> aesd_circular_buffer_find_entry_offset_for_fpos (circular_buffer (aesd_device s)) pos;
     (retval, s) \<leftarrow> (case found of
         None \<Rightarrow> Some (0, s)
       | Some (i, buffer_entry_off) \<Rightarrow> do {
           e \<leftarrow> entry_at (circular_buffer (aesd_device s)) i;
           let retval = min count (entry_size e - buffer_entry_off);
           bs \<leftarrow> load_bytes (buffptr e) (unat buffer_entry_off) (unat retval) (kheap s);
           let (left, um) = copy_to_user K (user_mem s) buf bs;
           Some (if 0 < left then - EFAULT else retval, s\<lparr>user_mem := um\<rparr>)
         });
     let pos = (if 0 < sint retval then pos + retval else pos);
     s \<leftarrow> mutex_unlock s;
     Some (retval, pos, s)
   }"

text \<open>The part of \<open>aesd_write\<close> after a successful copy: the new block becomes the staging entry,
  and a staging entry that ends in a newline moves into the circular buffer.\<close>

definition write_commit :: "ptr \<Rightarrow> size_t \<Rightarrow> kstate \<Rightarrow> heap \<Rightarrow> (ssize_t \<times> kstate) option" where
  "write_commit bufferptr count s h = do {
     let dev = aesd_device s;
     let old = staging_entry dev;
     h \<leftarrow> cfree (buffptr old) h;
     let staged = \<lparr>buffptr = bufferptr, entry_size = entry_size old + count\<rparr>;
     c \<leftarrow> load_byte (buffptr staged) (unat (entry_size staged - 1)) h;
     if c = newline
     then do {
       (replaced, cb) \<leftarrow> aesd_circular_buffer_add_entry (circular_buffer dev) staged;
       h \<leftarrow> cfree replaced h;
       Some (count, s\<lparr>kheap := h,
         aesd_device := dev\<lparr>circular_buffer := cb, staging_entry := zero_entry\<rparr>\<rparr>)
     }
     else Some (count, s\<lparr>kheap := h, aesd_device := dev\<lparr>staging_entry := staged\<rparr>\<rparr>)
   }"

definition aesd_write ::
  "kernel_api \<Rightarrow> kfile \<Rightarrow> uptr \<Rightarrow> size_t \<Rightarrow> loff_t \<Rightarrow> kstate \<Rightarrow> (ssize_t \<times> loff_t \<times> kstate) option" where
  "aesd_write K filp buf count pos s = do {
     _ \<leftarrow> aesd_dev_ptr filp;
     s \<leftarrow> mutex_lock s;
     let old = staging_entry (aesd_device s);
     let (bufferptr, h) = alloc (kmalloc K) (uninit K) (unat (count + entry_size old)) (kheap s);
     (retval, s) \<leftarrow> (if bufferptr = NULL then Some (- ENOMEM, s)
       else do {
         h \<leftarrow> memcpy bufferptr 0 (buffptr old) 0 (unat (entry_size old)) h;
         let (left, bs) = copy_from_user K (user_mem s) buf count;
         h \<leftarrow> store_bytes bufferptr (unat (entry_size old)) bs h;
         if 0 < left
         then do { h \<leftarrow> cfree bufferptr h; Some (- EFAULT, s\<lparr>kheap := h\<rparr>) }
         else write_commit bufferptr count s h
       });
     s \<leftarrow> mutex_unlock s;
     Some (retval, pos, s)
   }"

definition aesd_adjust_file_offset ::
  "kfile \<Rightarrow> uint32 \<Rightarrow> uint32 \<Rightarrow> kstate \<Rightarrow> (64 word \<times> kfile \<times> kstate) option" where
  "aesd_adjust_file_offset filp cmd cmd_offset s = do {
     _ \<leftarrow> aesd_dev_ptr filp;
     s \<leftarrow> mutex_lock s;
     pos \<leftarrow> aesd_circular_buffer_get_entry_fpos (circular_buffer (aesd_device s)) cmd (ucast cmd_offset);
     let new_fpos = (scast pos :: loff_t);
     let (retval, filp) = (if 0 \<le> sint new_fpos then (0, filp\<lparr>f_pos := new_fpos\<rparr>) else (- EINVAL, filp));
     s \<leftarrow> mutex_unlock s;
     Some (retval, filp, s)
   }"

definition aesd_ioctl ::
  "kernel_api \<Rightarrow> kfile \<Rightarrow> uint32 \<Rightarrow> uptr \<Rightarrow> kstate \<Rightarrow> (64 word \<times> kfile \<times> kstate) option" where
  "aesd_ioctl K filp cmd arg s =
     (if cmd = AESDCHAR_IOCSEEKTO
      then (let (left, bs) = copy_from_user K (user_mem s) arg sizeof_aesd_seekto; seekto = seekto_of_bytes bs
            in if left \<noteq> 0 then Some (- EFAULT, filp, s)
               else aesd_adjust_file_offset filp (write_cmd seekto) (write_cmd_offset seekto) s)
      else Some (- ENOTTY, filp, s))"

subsection \<open>Module initialisation and removal\<close>

definition MKDEV :: "uint32 \<Rightarrow> uint32 \<Rightarrow> uint32" where
  "MKDEV ma mi = or (push_bit 20 ma) mi"

definition MAJOR :: "uint32 \<Rightarrow> uint32" where
  "MAJOR dev = drop_bit 20 dev"

definition zero_dev :: aesd_dev where
  "zero_dev = \<lparr>circular_buffer = aesd_circular_buffer_init, staging_entry = zero_entry,
               lock = Mutex_Zero, cdev = Cdev_None\<rparr>"

definition unregister_chrdev_region :: "uint32 \<Rightarrow> kstate \<Rightarrow> kstate" where
  "unregister_chrdev_region dev s = (if chrdev_region s = Some dev then s\<lparr>chrdev_region := None\<rparr> else s)"

definition aesd_setup_cdev :: "kernel_api \<Rightarrow> kstate \<Rightarrow> cint \<times> kstate" where
  "aesd_setup_cdev K s =
     (let devno = MKDEV (aesd_major s) (aesd_minor s); err = cdev_add K devno
      in (err, if err = 0 then s\<lparr>aesd_device := (aesd_device s)\<lparr>cdev := Cdev_Added\<rparr>\<rparr> else s))"

definition aesd_init_module :: "kernel_api \<Rightarrow> kstate \<Rightarrow> cint \<times> kstate" where
  "aesd_init_module K s =
     (let (result, dev) = alloc_chrdev_region K (aesd_minor s);
          s = s\<lparr>aesd_major := MAJOR dev\<rparr>
      in if sint result < 0 then (result, s)
         else let s = s\<lparr>chrdev_region := Some dev\<rparr>;
                  s = s\<lparr>aesd_device := zero_dev\<rparr>;
                  s = s\<lparr>aesd_device := (aesd_device s)\<lparr>circular_buffer := aesd_circular_buffer_init\<rparr>\<rparr>;
                  s = s\<lparr>aesd_device := (aesd_device s)\<lparr>lock := Unlocked\<rparr>\<rparr>;
                  (result, s) = aesd_setup_cdev K s
              in if result \<noteq> 0 then (result, unregister_chrdev_region dev s) else (result, s))"

definition aesd_cleanup_module :: "kstate \<Rightarrow> kstate option" where
  "aesd_cleanup_module s = do {
     let devno = MKDEV (aesd_major s) (aesd_minor s);
     let s = s\<lparr>aesd_device := (aesd_device s)\<lparr>cdev := Cdev_None\<rparr>\<rparr>;
     let s = s\<lparr>aesd_device := (aesd_device s)\<lparr>lock := Mutex_Zero\<rparr>\<rparr>;
     h \<leftarrow> aesd_circular_buffer_foreach (\<lambda>e h. cfree (buffptr e) h) (circular_buffer (aesd_device s)) 0 (kheap s);
     Some (unregister_chrdev_region devno (s\<lparr>kheap := h\<rparr>))
   }"

subsection \<open>Invariant and abstract view\<close>

definition entry_bytes :: "heap \<Rightarrow> aesd_buffer_entry \<Rightarrow> byte list" where
  "entry_bytes h e = block_bytes h (buffptr e)"

text \<open>An entry whose pointer is a live block of exactly its size.\<close>

definition entry_ok :: "heap \<Rightarrow> aesd_buffer_entry \<Rightarrow> bool" where
  "entry_ok h e \<longleftrightarrow> (case buffptr e of NULL \<Rightarrow> False
     | Ptr a \<Rightarrow> (case h a of None \<Rightarrow> False | Some bs \<Rightarrow> length bs = unat (entry_size e)))"

definition command_ok :: "heap \<Rightarrow> aesd_buffer_entry \<Rightarrow> bool" where
  "command_ok h e \<longleftrightarrow> entry_ok h e \<and> entry_bytes h e \<noteq> [] \<and> last (entry_bytes h e) = newline"

definition staging_ok :: "nat \<Rightarrow> heap \<Rightarrow> aesd_buffer_entry \<Rightarrow> bool" where
  "staging_ok M h st \<longleftrightarrow> st = zero_entry \<or>
     (entry_ok h st \<and> unat (entry_size st) \<le> M \<and> entry_bytes h st \<noteq> [] \<and> last (entry_bytes h st) \<noteq> newline)"

definition live_addrs :: "aesd_circular_buffer \<Rightarrow> nat list" where
  "live_addrs cb = concat (map (\<lambda>e. addrs (buffptr e)) (live cb))"

text \<open>Ownership: the driver's blocks are the live entries and the staging entry, each once; the
  rest of the kernel heap, \<open>F\<close>, belongs to others.\<close>

definition store_inv :: "nat \<Rightarrow> nat set \<Rightarrow> aesd_circular_buffer \<Rightarrow> aesd_buffer_entry \<Rightarrow> heap \<Rightarrow> bool" where
  "store_inv M F cb st h \<longleftrightarrow>
     cb_inv M cb \<and> dead_null cb \<and> (\<forall>e \<in> set (live cb). command_ok h e) \<and> staging_ok M h st \<and>
     distinct (live_addrs cb @ addrs (buffptr st)) \<and>
     dom h = F \<union> set (live_addrs cb @ addrs (buffptr st)) \<and>
     F \<inter> set (live_addrs cb @ addrs (buffptr st)) = {}"

definition dev_inv :: "kernel_api \<Rightarrow> nat set \<Rightarrow> kstate \<Rightarrow> bool" where
  "dev_inv K F s \<longleftrightarrow> lock (aesd_device s) = Unlocked \<and>
     store_inv (kmalloc_max K) F (circular_buffer (aesd_device s)) (staging_entry (aesd_device s)) (kheap s)"

text \<open>The abstract device: the complete commands, oldest first, and the unfinished one.\<close>

record log_state =
  commands :: "byte list list"
  pending :: "byte list"

definition log_of :: "kstate \<Rightarrow> log_state" where
  "log_of s = \<lparr>commands = map (entry_bytes (kheap s)) (live (circular_buffer (aesd_device s))),
               pending = entry_bytes (kheap s) (staging_entry (aesd_device s))\<rparr>"

definition spec_write :: "byte list \<Rightarrow> log_state \<Rightarrow> log_state" where
  "spec_write bs l = (let p = pending l @ bs in
     if p \<noteq> [] \<and> last p = newline then \<lparr>commands = newest 10 (commands l @ [p]), pending = []\<rparr>
     else l\<lparr>pending := p\<rparr>)"

definition spec_read :: "log_state \<Rightarrow> nat \<Rightarrow> nat \<Rightarrow> byte list" where
  "spec_read l pos count = (case locate (map length (commands l)) pos of
       None \<Rightarrow> [] | Some (k, off) \<Rightarrow> take count (drop off (commands l ! k)))"

subsection \<open>Heap facts for entries\<close>

lemma entry_okE:
  assumes "entry_ok h e"
  obtains a bs where "buffptr e = Ptr a" "h a = Some bs" "length bs = unat (entry_size e)" "entry_bytes h e = bs"
  using assms by (auto simp: entry_ok_def entry_bytes_def split: ptr.splits option.splits)

lemma entry_ok_length: "entry_ok h e \<Longrightarrow> length (entry_bytes h e) = unat (entry_size e)"
  by (erule entry_okE) simp

lemma entry_bytes_zero [simp]: "entry_bytes h zero_entry = []"
  by (simp add: entry_bytes_def zero_entry_def)

lemma entry_bytes_cong:
  "(\<And>x. x \<in> set (addrs (buffptr e)) \<Longrightarrow> h' x = h x) \<Longrightarrow> entry_bytes h' e = entry_bytes h e"
  unfolding entry_bytes_def by (rule block_bytes_cong)

lemma entry_ok_cong:
  "(\<And>x. x \<in> set (addrs (buffptr e)) \<Longrightarrow> h' x = h x) \<Longrightarrow> entry_ok h' e = entry_ok h e"
  by (cases "buffptr e") (simp_all add: entry_ok_def)

lemma command_ok_cong:
  "(\<And>x. x \<in> set (addrs (buffptr e)) \<Longrightarrow> h' x = h x) \<Longrightarrow> command_ok h' e = command_ok h e"
  using entry_ok_cong [of e h' h] entry_bytes_cong [of e h' h] by (simp add: command_ok_def)

lemma staging_length: "staging_ok M h st \<Longrightarrow> length (entry_bytes h st) = unat (entry_size st)"
  by (auto simp: staging_ok_def entry_ok_length)

lemma staging_bound: "staging_ok M h st \<Longrightarrow> unat (entry_size st) \<le> M"
  by (auto simp: staging_ok_def)

text \<open>The new block after \<open>memcpy\<close> of the staged bytes and \<open>copy_from_user\<close>.\<close>

lemma fill_block:
  assumes st: "staging_ok M h st" and fresh: "h a = None" and len: "length bs \<le> c"
  shows "memcpy (Ptr a) 0 (buffptr st) 0 (unat (entry_size st)) (h(a \<mapsto> replicate (c + unat (entry_size st)) x)) =
           Some (h(a \<mapsto> entry_bytes h st @ replicate c x))" (is ?copy)
    and "store_bytes (Ptr a) (unat (entry_size st)) bs (h(a \<mapsto> entry_bytes h st @ replicate c x)) =
           Some (h(a \<mapsto> entry_bytes h st @ bs @ replicate (c - length bs) x))" (is ?store)
proof -
  have sl: "length (entry_bytes h st) = unat (entry_size st)"
    using st by (rule staging_length)
  have load: "load_bytes (buffptr st) 0 (unat (entry_size st)) (h(a \<mapsto> y)) = Some (entry_bytes h st)" for y
  proof (cases "st = zero_entry")
    case True
    then show ?thesis by simp
  next
    case False
    with st have "entry_ok h st" by (simp add: staging_ok_def)
    then obtain b ys where b: "buffptr st = Ptr b" "h b = Some ys" "length ys = unat (entry_size st)" "entry_bytes h st = ys"
      by (rule entry_okE)
    with fresh have "b \<noteq> a" by auto
    then show ?thesis
      using b by (simp add: load_bytes_block)
  qed
  show ?copy
    unfolding memcpy_def load by (simp add: store_bytes_block overwrite_start sl)
  show ?store
    using len by (simp add: store_bytes_block overwrite_def sl)
qed

subsection \<open>Committing a write\<close>

lemma store_invD:
  assumes "store_inv M F cb st h"
  shows "cb_inv M cb" "dead_null cb" "\<And>e. e \<in> set (live cb) \<Longrightarrow> command_ok h e" "staging_ok M h st"
    "distinct (live_addrs cb)" "distinct (addrs (buffptr st))" "set (live_addrs cb) \<inter> set (addrs (buffptr st)) = {}"
    "dom h = F \<union> set (live_addrs cb) \<union> set (addrs (buffptr st))"
    "F \<inter> set (live_addrs cb) = {}" "F \<inter> set (addrs (buffptr st)) = {}"
  using assms by (auto simp: store_inv_def)

lemma live_addrs_mem: "e \<in> set (live cb) \<Longrightarrow> x \<in> set (addrs (buffptr e)) \<Longrightarrow> x \<in> set (live_addrs cb)"
  by (auto simp: live_addrs_def)

text \<open>The heap once the old staging block is released: the new block \<open>a\<close> beside the live ones.\<close>

lemma fresh_unowned:
  assumes "store_inv M F cb st h" and "h a = None"
  shows "a \<notin> F" "a \<notin> set (live_addrs cb)" "a \<notin> set (addrs (buffptr st))"
  using assms store_invD(8) [OF assms(1)] by auto

lemma release_staging:
  fixes p :: "byte list"
  assumes inv: "store_inv M F cb st h" and fresh: "h a = None"
  defines "h3 \<equiv> (h(a \<mapsto> p)) |` (- set (addrs (buffptr st)))"
  shows "cfree (buffptr st) (h(a \<mapsto> p)) = Some h3" "h3 a = Some p"
    "\<And>x. x \<in> set (live_addrs cb) \<Longrightarrow> h3 x = h x"
    "dom h3 = F \<union> set (live_addrs cb) \<union> {a}"
proof -
  have a: "a \<notin> dom h" using fresh by auto
  note un = fresh_unowned [OF inv fresh]
  then show "h3 a = Some p" by (simp add: h3_def)
  show "cfree (buffptr st) (h(a \<mapsto> p)) = Some h3"
    unfolding h3_def using store_invD(8) [OF inv] by (intro cfree_restrict) auto
  show "h3 x = h x" if "x \<in> set (live_addrs cb)" for x
    using that a store_invD(7,8) [OF inv] by (auto simp: h3_def restrict_map_def)
  show "dom h3 = F \<union> set (live_addrs cb) \<union> {a}"
    using un store_invD(7-10) [OF inv] by (auto simp: h3_def)
qed

lemma map_entry_bytes_live:
  "(\<And>x. x \<in> set (live_addrs cb) \<Longrightarrow> h' x = h x) \<Longrightarrow> map (entry_bytes h') (live cb) = map (entry_bytes h) (live cb)"
  by (auto intro!: entry_bytes_cong dest: live_addrs_mem)

lemma command_ok_live:
  "(\<And>x. x \<in> set (live_addrs cb) \<Longrightarrow> h' x = h x) \<Longrightarrow> e \<in> set (live cb) \<Longrightarrow> command_ok h' e = command_ok h e"
  by (auto intro!: command_ok_cong dest: live_addrs_mem)

lemma commit_stage:
  assumes inv: "store_inv M F cb st h" and fresh: "h a = None"
    and p: "p \<noteq> []" "last p \<noteq> newline" "length p \<le> M" "unat sz = length p"
  shows "store_inv M F cb \<lparr>buffptr = Ptr a, entry_size = sz\<rparr> ((h(a \<mapsto> p)) |` (- set (addrs (buffptr st))))"
proof -
  note rs = release_staging [OF inv fresh, where p = p] and un = fresh_unowned [OF inv fresh]
  let ?h3 = "(h(a \<mapsto> p)) |` (- set (addrs (buffptr st)))"
  have "staging_ok M ?h3 \<lparr>buffptr = Ptr a, entry_size = sz\<rparr>"
    using rs(2) p by (simp add: staging_ok_def entry_ok_def entry_bytes_def)
  moreover have "\<forall>e \<in> set (live cb). command_ok ?h3 e"
    using command_ok_live [of cb ?h3 h] rs(3) store_invD(3) [OF inv] by blast
  ultimately show ?thesis
    using un rs(4) store_invD(1,2,5,9) [OF inv] by (simp add: store_inv_def)
qed

lemma commit_command:
  assumes inv: "store_inv M F cb st h" and fresh: "h a = None" and M: "10 * M < 2 ^ 64"
    and p: "p \<noteq> []" "last p = newline" "length p \<le> M" "unat sz = length p"
  defines "h3 \<equiv> (h(a \<mapsto> p)) |` (- set (addrs (buffptr st)))"
  obtains q cb' h4 where "aesd_circular_buffer_add_entry cb \<lparr>buffptr = Ptr a, entry_size = sz\<rparr> = Some (q, cb')"
    and "cfree q h3 = Some h4" and "store_inv M F cb' zero_entry h4"
    and "map (entry_bytes h4) (live cb') = newest 10 (map (entry_bytes h) (live cb) @ [p])"
proof -
  note rs = release_staging [OF inv fresh, where p = p, folded h3_def] and un = fresh_unowned [OF inv fresh]
  let ?e = "\<lparr>buffptr = Ptr a, entry_size = sz\<rparr>"
  let ?q = "if length (live cb) = 10 then buffptr (hd (live cb)) else NULL"
  obtain cb' where cb': "aesd_circular_buffer_add_entry cb ?e = Some (?q, cb')" "cb_inv M cb'"
      "live cb' = newest 10 (live cb @ [?e])"
    using add_entry_spec [OF store_invD(1) [OF inv], of ?e] p M by auto
  have split: "live_addrs cb @ [a] = addrs ?q @ live_addrs cb'"
  proof (cases "length (live cb) = 10")
    case True
    then obtain x xs where "live cb = x # xs" by (cases "live cb") auto
    moreover from this have "live cb' = xs @ [?e]"
      using True newest_snoc_full [of "live cb" 10 ?e] cb'(3) by simp
    ultimately show ?thesis
      using True by (simp add: live_addrs_def)
  next
    case False
    then have "length (live cb @ [?e]) \<le> 10"
      using cb_invD(3) [OF store_invD(1) [OF inv]] by simp
    then show ?thesis
      using False cb'(3) by (simp add: live_addrs_def)
  qed
  have "distinct (live_addrs cb @ [a])"
    using un store_invD(5) [OF inv] by simp
  then have dist: "distinct (addrs ?q @ live_addrs cb')"
    by (simp only: split)
  have sets: "insert a (set (live_addrs cb)) = set (addrs ?q) \<union> set (live_addrs cb')"
    using arg_cong [OF split, of set] by simp
  define h4 where "h4 = h3 |` (- set (addrs ?q))"
  have "cfree ?q h3 = Some h4"
    unfolding h4_def using rs(4) sets by (intro cfree_restrict) auto
  have h4: "h4 x = h3 x" if "x \<in> set (live_addrs cb')" for x
    using that dist by (auto simp: h4_def restrict_map_def)
  have dom4: "dom h4 = F \<union> set (live_addrs cb')"
    using un rs(4) sets dist store_invD(9) [OF inv] by (auto simp: h4_def)
  have F4: "F \<inter> set (live_addrs cb') = {}"
    using un sets store_invD(9) [OF inv] by auto
  have old: "command_ok h3 e \<and> entry_bytes h3 e = entry_bytes h e" if "e \<in> set (live cb)" for e
    using that store_invD(3) [OF inv that] command_ok_cong [of e h3 h] entry_bytes_cong [of e h3 h] rs(3)
    by (auto dest: live_addrs_mem)
  have new: "command_ok h3 ?e \<and> entry_bytes h3 ?e = p"
    using rs(2) p by (simp add: command_ok_def entry_ok_def entry_bytes_def)
  have cmd: "command_ok h4 e" if "e \<in> set (live cb')" for e
  proof -
    have "e \<in> set (live cb @ [?e])"
      using that cb'(3) set_newest by fastforce
    then have "command_ok h3 e" using old new by auto
    then show ?thesis
      using command_ok_cong [of e h4 h3] h4 that by (auto dest: live_addrs_mem)
  qed
  have bytes: "map (entry_bytes h4) (live cb') = newest 10 (map (entry_bytes h) (live cb) @ [p])"
  proof -
    have "map (entry_bytes h4) (live cb') = map (entry_bytes h3) (live cb')"
      using h4 by (rule map_entry_bytes_live)
    also have "\<dots> = newest 10 (map (entry_bytes h3) (live cb) @ [entry_bytes h3 ?e])"
      by (simp add: cb'(3) map_newest)
    also have "map (entry_bytes h3) (live cb) = map (entry_bytes h) (live cb)"
      using rs(3) by (rule map_entry_bytes_live)
    finally show ?thesis using new by simp
  qed
  have "store_inv M F cb' zero_entry h4"
    using cb'(2) add_entry_dead_null [OF store_invD(1,2) [OF inv] cb'(1)] cmd dist dom4 F4
    by (simp add: store_inv_def staging_ok_def)
  with cb'(1) \<open>cfree ?q h3 = Some h4\<close> bytes that show ?thesis by blast
qed

text \<open>The commit step as a whole: it always has an outcome, keeps the invariant and performs the
  abstract write.\<close>

lemma write_commit_spec:
  fixes s :: kstate and bs :: "byte list"
  defines "cb \<equiv> circular_buffer (aesd_device s)" and "st \<equiv> staging_entry (aesd_device s)"
  defines "p \<equiv> entry_bytes (kheap s) st @ bs"
  assumes inv: "store_inv M F cb st (kheap s)" and fresh: "kheap s a = None" and M: "10 * M < 2 ^ 64"
    and p: "p \<noteq> []" "length p \<le> M" and bs: "length bs = unat count"
  shows "\<exists>cb' st' h'. write_commit (Ptr a) count s ((kheap s)(a \<mapsto> p)) =
      Some (count, s\<lparr>kheap := h', aesd_device := (aesd_device s)\<lparr>circular_buffer := cb', staging_entry := st'\<rparr>\<rparr>) \<and>
      store_inv M F cb' st' h' \<and>
      \<lparr>commands = map (entry_bytes h') (live cb'), pending = entry_bytes h' st'\<rparr> = spec_write bs (log_of s)"
proof -
  define h3 where "h3 = ((kheap s)(a \<mapsto> p)) |` (- set (addrs (buffptr st)))"
  note rs = release_staging [OF inv fresh, where p = p, folded h3_def]
  let ?sz = "entry_size st + count"
  have lp: "length p = unat (entry_size st) + unat count"
    using staging_length [OF store_invD(4) [OF inv]] bs by (simp add: p_def)
  then have sz: "unat ?sz = length p"
    using p(2) M by (simp add: word_nat)
  have last: "load_byte (Ptr a) (unat (?sz - 1)) h3 = Some (last p)"
  proof -
    have "unat (?sz - 1) = length p - 1"
      using p(1) sz by (simp add: word_nat Suc_leI)
    then show ?thesis
      using p(1) rs(2) by (simp add: last_conv_nth)
  qed
  have log: "log_of s = \<lparr>commands = map (entry_bytes (kheap s)) (live cb), pending = entry_bytes (kheap s) st\<rparr>"
    by (simp add: log_of_def cb_def st_def)
  show ?thesis
  proof (cases "last p = newline")
    case True
    obtain q cb' h4 where c: "aesd_circular_buffer_add_entry cb \<lparr>buffptr = Ptr a, entry_size = ?sz\<rparr> = Some (q, cb')"
        "cfree q h3 = Some h4" "store_inv M F cb' zero_entry h4"
        "map (entry_bytes h4) (live cb') = newest 10 (map (entry_bytes (kheap s)) (live cb) @ [p])"
      using commit_command [OF inv fresh M p(1) True p(2) sz, folded h3_def] by blast
    have "write_commit (Ptr a) count s ((kheap s)(a \<mapsto> p)) =
        Some (count, s\<lparr>kheap := h4, aesd_device := (aesd_device s)\<lparr>circular_buffer := cb', staging_entry := zero_entry\<rparr>\<rparr>)"
      using True rs(1) last c by (simp add: write_commit_def Let_def del: load_byte.simps flip: cb_def st_def)
    moreover have "\<lparr>commands = map (entry_bytes h4) (live cb'), pending = entry_bytes h4 zero_entry\<rparr> = spec_write bs (log_of s)"
      using True p(1) c(4) by (simp add: log spec_write_def Let_def flip: p_def)
    ultimately show ?thesis
      using c(3) by blast
  next
    case False
    let ?st' = "\<lparr>buffptr = Ptr a, entry_size = ?sz\<rparr>"
    have "write_commit (Ptr a) count s ((kheap s)(a \<mapsto> p)) =
        Some (count, s\<lparr>kheap := h3, aesd_device := (aesd_device s)\<lparr>circular_buffer := cb, staging_entry := ?st'\<rparr>\<rparr>)"
      using False rs(1) last by (simp add: write_commit_def Let_def cb_def del: load_byte.simps flip: st_def)
    moreover have "store_inv M F cb ?st' h3"
      using commit_stage [OF inv fresh p(1) False p(2) sz, folded h3_def] .
    moreover have "\<lparr>commands = map (entry_bytes h3) (live cb), pending = entry_bytes h3 ?st'\<rparr> = spec_write bs (log_of s)"
    proof -
      have "entry_bytes h3 ?st' = p"
        using rs(2) by (simp add: entry_bytes_def)
      with False show ?thesis
        using map_entry_bytes_live [of cb h3 "kheap s", OF rs(3)]
        by (simp add: log spec_write_def Let_def flip: p_def)
    qed
    ultimately show ?thesis by blast
  qed
qed

subsection \<open>The write operation\<close>

lemma mutex_lock_Unlocked:
  "lock (aesd_device s) = Unlocked \<Longrightarrow> mutex_lock s = Some (s\<lparr>aesd_device := (aesd_device s)\<lparr>lock := Locked\<rparr>\<rparr>)"
  by (simp add: mutex_lock_def)

lemma dev_invD:
  assumes "dev_inv K F s"
  shows "lock (aesd_device s) = Unlocked"
    "store_inv (kmalloc_max K) F (circular_buffer (aesd_device s)) (staging_entry (aesd_device s)) (kheap s)"
  using assms by (simp_all add: dev_inv_def)

lemma pending_log_of:
  "dev_inv K F s \<Longrightarrow> length (pending (log_of s)) = unat (entry_size (staging_entry (aesd_device s)))"
  using staging_length [OF store_invD(4) [OF dev_invD(2)]] by (simp add: log_of_def)

definition write_result :: "kernel_api \<Rightarrow> uptr \<Rightarrow> size_t \<Rightarrow> kstate \<Rightarrow> ssize_t" where
  "write_result K buf count s =
     (if kmalloc K (unat count + length (pending (log_of s))) (kheap s) = NULL then - ENOMEM
      else if fst (copy_from_user K (user_mem s) buf count) \<noteq> 0 then - EFAULT else count)"

definition write_accepted :: "kernel_api \<Rightarrow> uptr \<Rightarrow> size_t \<Rightarrow> kstate \<Rightarrow> bool" where
  "write_accepted K buf count s \<longleftrightarrow>
     kmalloc K (unat count + length (pending (log_of s))) (kheap s) \<noteq> NULL \<and>
     fst (copy_from_user K (user_mem s) buf count) = 0"

text \<open>Everything a write does, on all three of its branches. The frame says what a write cannot
  touch: user memory, the registration data, the lock and the character device.\<close>

lemma aesd_write_spec:
  assumes K: "kernel_ok K" and inv: "dev_inv K F s" and filp: "private_data filp = Aesd_Device"
    and some: "0 < unat count + length (pending (log_of s))"
    and no_wrap: "unat count + length (pending (log_of s)) < 2 ^ 64"
  obtains cb st h where "aesd_write K filp buf count pos s = Some (write_result K buf count s, pos,
        s\<lparr>kheap := h, aesd_device := (aesd_device s)\<lparr>circular_buffer := cb, staging_entry := st\<rparr>\<rparr>)"
    and "store_inv (kmalloc_max K) F cb st h"
    and "\<lparr>commands = map (entry_bytes h) (live cb), pending = entry_bytes h st\<rparr> =
      (if write_accepted K buf count s then spec_write (user_bytes (user_mem s) buf (unat count)) (log_of s) else log_of s)"
proof -
  let ?M = "kmalloc_max K" and ?cb = "circular_buffer (aesd_device s)" and ?st = "staging_entry (aesd_device s)"
  let ?s1 = "s\<lparr>aesd_device := (aesd_device s)\<lparr>lock := Locked\<rparr>\<rparr>"
  let ?n = "unat count + length (pending (log_of s))"
  note si = dev_invD(2) [OF inv] and pl = pending_log_of [OF inv]
  have n: "unat (count + entry_size ?st) = ?n"
    using no_wrap pl by (simp add: word_nat)
  have pend: "pending (log_of s) = entry_bytes (kheap s) ?st"
    by (simp add: log_of_def)
  note start = aesd_write_def aesd_dev_ptr_def filp mutex_lock_Unlocked [OF dev_invD(1) [OF inv]] n
  show thesis
  proof (cases "kmalloc K ?n (kheap s)")
    case NULL
    then have r: "write_result K buf count s = - ENOMEM" "\<not> write_accepted K buf count s"
      by (simp_all add: write_result_def write_accepted_def)
    have "aesd_write K filp buf count pos s = Some (- ENOMEM, pos,
        s\<lparr>kheap := kheap s, aesd_device := (aesd_device s)\<lparr>circular_buffer := ?cb, staging_entry := ?st\<rparr>\<rparr>)"
      using NULL dev_invD(1) [OF inv] by (simp add: start alloc_NULL mutex_unlock_def)
    then show ?thesis
      using si NULL r by (intro that [where h = "kheap s" and cb = ?cb and st = ?st]) (simp_all add: log_of_def)
  next
    case (Ptr a)
    have fresh: "kheap s a = None"
      using fresh_allocatorD [OF kernel_okD(1) [OF K] Ptr some] .
    obtain left bs where cfu: "copy_from_user K (user_mem s) buf count = (left, bs)"
      by (cases "copy_from_user K (user_mem s) buf count")
    have len: "length bs \<le> unat count"
      using kernel_okD(4) [OF K cfu] .
    note fill = fill_block [OF store_invD(4) [OF si] fresh len, of "uninit K"]
    show ?thesis
    proof (cases "left = 0")
      case False
      then have r: "write_result K buf count s = - EFAULT" "\<not> write_accepted K buf count s"
        using Ptr cfu by (simp_all add: write_result_def write_accepted_def)
      have "aesd_write K filp buf count pos s = Some (- EFAULT, pos,
          s\<lparr>kheap := kheap s, aesd_device := (aesd_device s)\<lparr>circular_buffer := ?cb, staging_entry := ?st\<rparr>\<rparr>)"
        using False dev_invD(1) [OF inv] Ptr cfu fill pl fresh
        by (simp add: start alloc_Ptr mutex_unlock_def word_neq_0_conv fun_upd_idem)
      then show ?thesis
        using si cfu False r by (intro that [where h = "kheap s" and cb = ?cb and st = ?st]) (simp_all add: log_of_def)
    next
      case True
      then have bs: "bs = user_bytes (user_mem s) buf (unat count)"
        using kernel_okD(5) [OF K] cfu by blast
      let ?p = "entry_bytes (kheap s) ?st @ bs"
      have lb: "length bs = unat count" by (simp add: bs)
      then have lp: "length ?p = ?n" by (simp add: pend)
      with some have "length ?p \<noteq> 0" by (simp only: neq0_conv)
      then have "?p \<noteq> []" by (metis list.size(3))
      moreover have "length ?p \<le> ?M"
        using lp kernel_okD(2) [OF K Ptr] by simp
      moreover note lb
      moreover have "10 * ?M < 2 ^ 64"
        using kernel_okD(3) [OF K] by simp
      ultimately obtain cb' st' h' where wc: "write_commit (Ptr a) count ?s1 ((kheap s)(a \<mapsto> ?p)) =
          Some (count, ?s1\<lparr>kheap := h', aesd_device := (aesd_device ?s1)\<lparr>circular_buffer := cb', staging_entry := st'\<rparr>\<rparr>)"
          "store_inv ?M F cb' st' h'"
          "\<lparr>commands = map (entry_bytes h') (live cb'), pending = entry_bytes h' st'\<rparr> = spec_write bs (log_of ?s1)"
        using write_commit_spec [of ?M F ?s1 a bs count] si fresh by auto
      have "aesd_write K filp buf count pos s = Some (count, pos,
          s\<lparr>kheap := h', aesd_device := (aesd_device s)\<lparr>circular_buffer := cb', staging_entry := st'\<rparr>\<rparr>)"
        using True dev_invD(1) [OF inv] Ptr cfu fill pl wc(1) bs
        by (simp add: start alloc_Ptr mutex_unlock_def)
      then show ?thesis
        using wc Ptr True cfu bs by (intro that [where h = h' and cb = cb' and st = st']) (simp_all add: log_of_def write_result_def write_accepted_def)
    qed
  qed
qed

end
