(* ===== verification/Seek_Command.thy ===== *)
theory Seek_Command
  imports Char_Driver
begin

text \<open>
  The text command \<open>AESDCHAR_IOCSEEKTO:X,Y\<close> and its decoding, \<open>decode_ioctl_command\<close> in
  \<^verbatim>\<open>server/src/connection_manager.c\<close>, on top of the C library's \<open>strncmp\<close> and of \<open>sscanf\<close> with
  the format \<open>%u,%u\<close>. Strings are the characters before the terminating zero.
\<close>

subsection \<open>The C library's part\<close>

fun strncmp :: "byte list \<Rightarrow> byte list \<Rightarrow> nat \<Rightarrow> int" where
  "strncmp s t 0 = 0"
| "strncmp [] [] (Suc n) = 0"
| "strncmp [] (b # t) (Suc n) = - of_char b"
| "strncmp (a # s) [] (Suc n) = of_char a"
| "strncmp (a # s) (b # t) (Suc n) = (if a \<noteq> b then of_char a - of_char b else strncmp s t n)"

definition isspace :: "byte \<Rightarrow> bool" where
  "isspace c \<longleftrightarrow> c \<in> {CHR '' '', CHR 0x09, CHR 0x0A, CHR 0x0B, CHR 0x0C, CHR 0x0D}"

definition isdigit :: "byte \<Rightarrow> bool" where
  "isdigit c \<longleftrightarrow> 48 \<le> (of_char c :: nat) \<and> of_char c \<le> (57 :: nat)"

definition digit_value :: "byte \<Rightarrow> nat" where
  "digit_value c = of_char c - 48"

definition digits_value :: "byte list \<Rightarrow> nat" where
  "digits_value ds = foldl (\<lambda>n c. 10 * n + digit_value c) 0 ds"

text \<open>One \<open>%u\<close> conversion: white space, an optional sign, decimal digits. \<open>Some None\<close> is a matching
  failure; a number that does not fit an \<open>unsigned int\<close> has no defined outcome.\<close>

definition scan_uint :: "byte list \<Rightarrow> (uint32 \<times> byte list) option option" where
  "scan_uint str =
     (let str = dropWhile isspace str;
          (negative, str) = (case str of [] \<Rightarrow> (False, [])
            | c # cs \<Rightarrow> if c = CHR ''-'' then (True, cs) else if c = CHR ''+'' then (False, cs) else (False, str));
          digits = takeWhile isdigit str;
          value = digits_value digits
      in if digits = [] then Some None
         else if value \<ge> 2 ^ 32 then None
         else Some (Some (if negative then - word_of_nat value else word_of_nat value, dropWhile isdigit str)))"

text \<open>\<open>sscanf(str, "%u,%u", &x, &y)\<close>: both numbers if the result is 2, otherwise \<open>Some None\<close>.\<close>

definition sscanf_uint_comma_uint :: "byte list \<Rightarrow> (uint32 \<times> uint32) option option" where
  "sscanf_uint_comma_uint str = do {
     first \<leftarrow> scan_uint str;
     (case first of None \<Rightarrow> Some None
      | Some (x, rest) \<Rightarrow>
          (case rest of [] \<Rightarrow> Some None
           | c # rest \<Rightarrow>
               if c \<noteq> CHR '','' then Some None
               else do {
                 second \<leftarrow> scan_uint rest;
                 Some (map_option (\<lambda>(y, _). (x, y)) second)
               }))
   }"

subsection \<open>The server's part\<close>

definition seek_prefix :: "byte list" where
  "seek_prefix = ''AESDCHAR_IOCSEEKTO:''"

definition decode_ioctl_command :: "byte list \<Rightarrow> aesd_seekto option option" where
  "decode_ioctl_command message =
     (if strncmp message seek_prefix (length seek_prefix) = 0
      then do {
        numbers \<leftarrow> sscanf_uint_comma_uint (drop (length seek_prefix) message);
        Some (map_option (\<lambda>(x, y). \<lparr>write_cmd = x, write_cmd_offset = y\<rparr>) numbers)
      }
      else Some None)"

subsection \<open>Facts\<close>

text \<open>Decimal notation, as a client prints the numbers.\<close>

definition digit :: "nat \<Rightarrow> byte" where
  "digit d = char_of (48 + d)"

fun decimal :: "nat \<Rightarrow> byte list" where
  "decimal n = (if n < 10 then [digit n] else decimal (n div 10) @ [digit (n mod 10)])"

declare decimal.simps [simp del]

lemma of_char_digit: "d < 10 \<Longrightarrow> of_char (digit d) = 48 + d"
  by (simp add: digit_def)

lemma isdigit_digit [simp]: "d < 10 \<Longrightarrow> isdigit (digit d)"
  by (simp add: isdigit_def of_char_digit)

lemma digit_value_digit [simp]: "d < 10 \<Longrightarrow> digit_value (digit d) = d"
  by (simp add: digit_value_def of_char_digit)

lemma digits_value_snoc: "digits_value (ds @ [c]) = 10 * digits_value ds + digit_value c"
  by (simp add: digits_value_def)

lemma decimal_digits: "\<forall>c\<in>set (decimal n). isdigit c"
  by (induction n rule: decimal.induct) (subst decimal.simps, auto)

lemma decimal_nonempty [simp]: "decimal n \<noteq> []"
  by (subst decimal.simps) simp

lemma digits_value_decimal [simp]: "digits_value (decimal n) = n"
proof (induction n rule: decimal.induct)
  case (1 n)
  show ?case
  proof (cases "n < 10")
    case True
    then show ?thesis by (subst decimal.simps) (simp add: digits_value_def)
  next
    case False
    then show ?thesis using 1 by (subst decimal.simps) (simp add: digits_value_snoc)
  qed
qed

lemma isdigit_not_special: "isdigit c \<Longrightarrow> \<not> isspace c \<and> c \<noteq> CHR ''-'' \<and> c \<noteq> CHR ''+''"
  by (auto simp: isdigit_def isspace_def)

lemma scan_uint_decimal:
  assumes "n < 2 ^ 32" and "rest = [] \<or> \<not> isdigit (hd rest)"
  shows "scan_uint (decimal n @ rest) = Some (Some (word_of_nat n, rest))"
proof -
  obtain c cs where d: "decimal n = c # cs" by (cases "decimal n") simp_all
  have "isdigit c" using decimal_digits [of n] d by simp
  then have c: "\<not> isspace c" "c \<noteq> CHR ''-''" "c \<noteq> CHR ''+''" using isdigit_not_special by auto
  have "takeWhile isdigit (decimal n @ rest) = decimal n" "dropWhile isdigit (decimal n @ rest) = rest"
    using decimal_digits [of n] assms(2) by (cases rest; simp)+
  moreover have "dropWhile isspace (decimal n @ rest) = decimal n @ rest"
      "(case decimal n @ rest of [] \<Rightarrow> (False, [])
        | e # es \<Rightarrow> if e = CHR ''-'' then (True, es) else if e = CHR ''+'' then (False, es) else (False, decimal n @ rest)) =
       (False, decimal n @ rest)"
    by (simp_all add: d c)
  ultimately show ?thesis
    using assms(1) by (simp add: scan_uint_def)
qed

lemma strncmp_zero:
  "nul \<notin> set t \<Longrightarrow> strncmp s t (length t) = 0 \<longleftrightarrow> take (length t) s = t"
proof (induction s t "length t" rule: strncmp.induct)
  case (3 b t n)
  then show ?case using of_char_eq_iff [of b nul, where 'a = int] by auto
next
  case (5 a s b t n)
  then show ?case by auto
qed auto

lemma seek_prefix_no_nul: "nul \<notin> set seek_prefix"
  by (simp add: seek_prefix_def)

lemma decode_prefix: "decode_ioctl_command message = Some (Some st) \<Longrightarrow> take (length seek_prefix) message = seek_prefix"
  using strncmp_zero [OF seek_prefix_no_nul] by (auto simp: decode_ioctl_command_def split: if_splits)

lemma decode_no_prefix:
  "take (length seek_prefix) message \<noteq> seek_prefix \<Longrightarrow> decode_ioctl_command message = Some None"
  using strncmp_zero [OF seek_prefix_no_nul] by (simp add: decode_ioctl_command_def)

lemma decode_decimal:
  assumes "x < 2 ^ 32" and "y < 2 ^ 32" and "tail = [] \<or> \<not> isdigit (hd tail)"
  shows "decode_ioctl_command (seek_prefix @ decimal x @ '','' @ decimal y @ tail) =
    Some (Some \<lparr>write_cmd = word_of_nat x, write_cmd_offset = word_of_nat y\<rparr>)"
proof -
  have "scan_uint (decimal x @ CHR '','' # decimal y @ tail) = Some (Some (word_of_nat x, CHR '','' # decimal y @ tail))"
    by (rule scan_uint_decimal) (use assms in \<open>auto simp: isdigit_def\<close>)
  moreover have "scan_uint (decimal y @ tail) = Some (Some (word_of_nat y, tail))"
    using scan_uint_decimal assms(2,3) .
  ultimately have "sscanf_uint_comma_uint (decimal x @ CHR '','' # decimal y @ tail) = Some (Some (word_of_nat x, word_of_nat y))"
    by (simp add: sscanf_uint_comma_uint_def)
  moreover have "strncmp (seek_prefix @ decimal x @ '','' @ decimal y @ tail) seek_prefix (length seek_prefix) = 0"
    by (subst strncmp_zero [OF seek_prefix_no_nul]) simp
  ultimately show ?thesis by (simp add: decode_ioctl_command_def)
qed

subsection \<open>Properties\<close>



end
