(* ===== verification/Char_Driver_Ops.thy ===== *)
theory Char_Driver_Ops
  imports Char_Driver
begin

text \<open>
  Correctness of the driver's remaining operations against the abstract command log:
  reading, seeking (\<open>llseek\<close> and the ioctl), module initialisation and removal, and the
  write that has no outcome.
\<close>

subsection \<open>Reading the abstract log\<close>

definition content :: "log_state \<Rightarrow> byte list" where
  "content l = concat (commands l)"

text \<open>User memory belongs to the processes: neither the invariant nor the log depends on it.\<close>

lemma log_of_user_mem [simp]: "log_of (s\<lparr>user_mem := u\<rparr>) = log_of s"
  by (simp add: log_of_def)

lemma dev_inv_user_mem [simp]: "dev_inv K F (s\<lparr>user_mem := u\<rparr>) = dev_inv K F s"
  by (simp add: dev_inv_def)

lemma length_concat_sum: "length (concat xss) = sum_list (map length xss)"
  by (rule length_concat)

lemma spec_read_Nil_iff:
  "spec_read l pos n = [] \<longleftrightarrow> length (content l) \<le> pos \<or> n = 0"
proof (cases "locate (map length (commands l)) pos")
  case None
  then have "length (content l) \<le> pos"
    by (simp add: content_def locate_None length_concat)
  with None show ?thesis by (simp add: spec_read_def)
next
  case (Some r)
  then obtain k off where r: "locate (map length (commands l)) pos = Some (k, off)" by (cases r) auto
  with locate_SomeD [OF r] have "off < length (commands l ! k)" by auto
  moreover have "\<not> length (content l) \<le> pos"
    using r by (metis content_def length_concat locate_None option.distinct(1))
  ultimately show ?thesis
    by (simp add: spec_read_def r)
qed

text \<open>A read returns the next bytes of the concatenated commands, never past the end of the
  command it starts in.\<close>

lemma spec_read_prefix:
  "spec_read l pos n = take (length (spec_read l pos n)) (drop pos (content l))"
proof (cases "locate (map length (commands l)) pos")
  case None
  then show ?thesis by (simp add: spec_read_def)
next
  case (Some r)
  then obtain k off where r: "locate (map length (commands l)) pos = Some (k, off)" by (cases r) auto
  note ko = locate_SomeD [OF r]
  let ?cs = "commands l"
  have k: "k < length ?cs" "off < length (?cs ! k)" and pos: "pos = length (concat (take k ?cs)) + off"
    using ko by (auto simp: length_concat take_map)
  have "content l = concat (take k ?cs) @ ?cs ! k @ concat (drop (Suc k) ?cs)"
    using k(1) by (metis Cons_nth_drop_Suc append_take_drop_id concat.simps(2) concat_append content_def)
  then have "drop pos (content l) = drop off (?cs ! k) @ concat (drop (Suc k) ?cs)"
    using k(2) by (simp add: pos)
  then show ?thesis
    by (simp add: spec_read_def r min_def)
qed

lemma length_spec_read: "length (spec_read l pos n) \<le> n"
  by (auto simp: spec_read_def split: option.splits)

lemma length_spec_read_content: "pos + length (spec_read l pos n) \<le> max pos (length (content l))"
  using arg_cong [OF spec_read_prefix [of l pos n], of length] by simp

subsection \<open>The device and its abstract log\<close>

lemma sizes_log:
  assumes "dev_inv K F s"
  shows "sizes (circular_buffer (aesd_device s)) = map length (commands (log_of s))"
  using store_invD(3) [OF dev_invD(2) [OF assms]]
  by (auto simp: sizes_def log_of_def command_ok_def entry_ok_length)

lemma length_commands:
  "length (commands (log_of s)) = unat (num_entries (circular_buffer (aesd_device s)))"
  by (simp add: log_of_def)

lemma content_small:
  assumes K: "kernel_ok K" and inv: "dev_inv K F s"
  shows "length (content (log_of s)) < 2 ^ 31"
proof -
  note cb = store_invD(1) [OF dev_invD(2) [OF inv]]
  have "unat (num_entries (circular_buffer (aesd_device s))) * kmalloc_max K \<le> 10 * kmalloc_max K"
    by (rule mult_le_mono1 [OF cb_invD(3) [OF cb]])
  then have "sum_list (sizes (circular_buffer (aesd_device s))) \<le> 10 * kmalloc_max K"
    using sizes_sum_bound [OF cb] by linarith
  then show ?thesis
    using kernel_okD(3) [OF K] by (simp add: content_def length_concat sizes_log [OF inv])
qed

lemma buffer_size_content:
  assumes "dev_inv K F s"
  shows "unat (buffer_size (circular_buffer (aesd_device s))) = length (content (log_of s))"
  using cb_invD(6) [OF store_invD(1) [OF dev_invD(2) [OF assms]]]
  by (simp add: content_def length_concat sizes_log [OF assms])

subsection \<open>Read\<close>

text \<open>The entry the driver finds holds the bytes of the abstract command.\<close>

lemma find_entry_log:
  assumes inv: "dev_inv K F s" and loc: "locate (map length (commands (log_of s))) (unat pos) = Some (k, off)"
  defines "cb \<equiv> circular_buffer (aesd_device s)"
  obtains i e where "aesd_circular_buffer_find_entry_offset_for_fpos cb pos = Some (Some (i, word_of_nat off))"
    and "entry_at cb i = Some e" and "unat (word_of_nat off :: size_t) = off"
    and "unat (entry_size e) = length (commands (log_of s) ! k)"
    and "\<And>n. off + n \<le> length (commands (log_of s) ! k) \<Longrightarrow>
           load_bytes (buffptr e) off n (kheap s) = Some (take n (drop off (commands (log_of s) ! k)))"
proof -
  note si = dev_invD(2) [OF inv, folded cb_def]
  note cbi = store_invD(1) [OF si]
  note ko = locate_SomeD [OF loc]
  then have k: "k < unat (num_entries cb)" "off < length (commands (log_of s) ! k)"
    by (auto simp: length_commands cb_def)
  let ?e = "live cb ! k"
  have mem: "?e \<in> set (live cb)" using k by (intro nth_mem) simp
  then have "entry_ok (kheap s) ?e"
    using store_invD(3) [OF si] by (simp add: command_ok_def)
  then obtain a bs where a: "buffptr ?e = Ptr a" "kheap s a = Some bs" "length bs = unat (entry_size ?e)"
      "entry_bytes (kheap s) ?e = bs"
    by (rule entry_okE)
  have cmd: "commands (log_of s) ! k = bs"
    using k a(4) by (simp add: log_of_def cb_def)
  have off: "unat (word_of_nat off :: size_t) = off"
    using k(2) cmd a(3) unat_less_pow [of "entry_size ?e"] by (intro unat_word_of_nat) simp
  have "aesd_circular_buffer_find_entry_offset_for_fpos cb pos =
      Some (Some ((unat (out_offs cb) + k) mod 10, word_of_nat off))"
    using find_entry_locate [OF cbi] loc sizes_log [OF inv] by (simp flip: cb_def)
  moreover have "entry_at cb ((unat (out_offs cb) + k) mod 10) = Some ?e"
    using entry_at_mod [OF cbi] k by (simp add: live_nth)
  ultimately show ?thesis
    using that [of _ ?e] off a cmd load_bytes_block by auto
qed

lemma aesd_read_end:
  assumes inv: "dev_inv K F s" and filp: "private_data filp = Aesd_Device"
    and past: "length (content (log_of s)) \<le> unat pos"
  shows "aesd_read K filp buf count pos s = Some (0, pos, s)"
proof -
  have "locate (map length (commands (log_of s))) (unat pos) = None"
    using past by (simp add: locate_None content_def length_concat)
  then have "aesd_circular_buffer_find_entry_offset_for_fpos (circular_buffer (aesd_device s)) pos = Some None"
    using find_entry_locate [OF store_invD(1) [OF dev_invD(2) [OF inv]]] sizes_log [OF inv] by simp
  then show ?thesis
    using dev_invD(1) [OF inv] filp
    by (simp add: aesd_read_def aesd_dev_ptr_def mutex_lock_def mutex_unlock_def)
qed

lemma aesd_read_data:
  assumes K: "kernel_ok K" and inv: "dev_inv K F s" and filp: "private_data filp = Aesd_Device"
    and inside: "unat pos < length (content (log_of s))"
    and copy: "copy_to_user K (user_mem s) buf (spec_read (log_of s) (unat pos) (unat count)) = (left, um)"
  defines "n \<equiv> word_of_nat (length (spec_read (log_of s) (unat pos) (unat count)))"
  shows "aesd_read K filp buf count pos s =
    Some (if left = 0 then n else - EFAULT, if left = 0 then pos + n else pos, s\<lparr>user_mem := um\<rparr>)"
proof -
  let ?l = "log_of s" and ?cb = "circular_buffer (aesd_device s)"
  have "locate (map length (commands ?l)) (unat pos) \<noteq> None"
    using inside by (simp add: locate_None content_def length_concat)
  then obtain k off where loc: "locate (map length (commands ?l)) (unat pos) = Some (k, off)" by auto
  obtain i e where f: "aesd_circular_buffer_find_entry_offset_for_fpos ?cb pos = Some (Some (i, word_of_nat off))"
      "entry_at ?cb i = Some e" "unat (word_of_nat off :: size_t) = off"
      "unat (entry_size e) = length (commands ?l ! k)"
      "\<And>n. off + n \<le> length (commands ?l ! k) \<Longrightarrow>
           load_bytes (buffptr e) off n (kheap s) = Some (take n (drop off (commands ?l ! k)))"
    using find_entry_log [OF inv loc] by blast
  have off: "off < length (commands ?l ! k)" using locate_SomeD [OF loc] by auto
  let ?m = "min count (entry_size e - word_of_nat off)"
  have m: "unat ?m = min (unat count) (length (commands ?l ! k) - off)"
    using off f(3,4) by (simp add: min_def word_le_nat_alt word_nat)
  have bs: "spec_read ?l (unat pos) (unat count) = take (unat ?m) (drop off (commands ?l ! k))"
    by (subst m) (simp add: spec_read_def loc min_def)
  have mn: "?m = n"
    using m off by (simp add: n_def spec_read_def loc word_of_unat_eq min.commute)
  have "unat n \<le> length (content ?l)"
    using m off mn length_spec_read_content [of "unat pos" ?l "unat count"] inside
    by (simp add: n_def spec_read_def loc min.commute)
  then have "sint n = int (unat n)"
    using content_small [OF K inv] by (intro sint_unat) simp
  then have pos: "0 < sint n \<longleftrightarrow> n \<noteq> 0"
    by (simp only: of_nat_0_less_iff unat_gt_0)
  have load: "load_bytes (buffptr e) off (unat ?m) (kheap s) = Some (spec_read ?l (unat pos) (unat count))"
    unfolding bs using m off by (intro f(5)) simp
  show ?thesis
    using dev_invD(1) [OF inv] filp f(1-3) load copy pos
    by (simp add: aesd_read_def aesd_dev_ptr_def mutex_lock_def mutex_unlock_def mn word_neq_0_conv [symmetric])
qed

subsection \<open>Seek\<close>

text \<open>The file position of byte \<open>off\<close> of command \<open>i\<close>, if there is such a byte.\<close>

definition seek_target :: "log_state \<Rightarrow> nat \<Rightarrow> nat \<Rightarrow> nat option" where
  "seek_target l i off = (if i < length (commands l) \<and> off < length (commands l ! i)
     then Some (length (concat (take i (commands l))) + off) else None)"

lemma seek_target_less: "seek_target l i off = Some p \<Longrightarrow> p < length (content l)"
proof -
  assume "seek_target l i off = Some p"
  then have i: "i < length (commands l)" "off < length (commands l ! i)"
    and p: "p = length (concat (take i (commands l))) + off"
    by (auto simp: seek_target_def split: if_splits)
  have "length (concat (take (Suc i) (commands l))) \<le> length (content l)"
    unfolding content_def by (rule length_concat_take)
  with i p show ?thesis by (simp add: take_Suc_conv_app_nth)
qed

lemma aesd_adjust_file_offset_spec:
  assumes K: "kernel_ok K" and inv: "dev_inv K F s" and filp: "private_data filp = Aesd_Device"
  shows "aesd_adjust_file_offset filp cmd off s =
    Some (case seek_target (log_of s) (unat cmd) (unat off) of
            Some p \<Rightarrow> (0, filp\<lparr>f_pos := word_of_nat p\<rparr>, s) | None \<Rightarrow> (- EINVAL, filp, s))"
proof -
  let ?cb = "circular_buffer (aesd_device s)" and ?l = "log_of s"
  note cbi = store_invD(1) [OF dev_invD(2) [OF inv]]
  have uo: "unat (ucast off :: size_t) = unat off" by (rule unat_ucast_up) simp
  have fpos: "aesd_circular_buffer_get_entry_fpos ?cb cmd (ucast off) =
      Some (case seek_target ?l (unat cmd) (unat off) of Some p \<Rightarrow> word_of_nat p | None \<Rightarrow> - 1)"
    using sizes_log [OF inv] length_commands [of s]
    by (auto simp: get_entry_fpos_exact [OF cbi] uo seek_target_def length_concat take_map)
  note start = aesd_adjust_file_offset_def aesd_dev_ptr_def filp mutex_lock_def mutex_unlock_def
    dev_invD(1) [OF inv] fpos
  show ?thesis
  proof (cases "seek_target ?l (unat cmd) (unat off)")
    case None
    then show ?thesis
      by (simp add: start)
  next
    case (Some p)
    then have p: "p < 2 ^ 31"
      using seek_target_less content_small [OF K inv] by fastforce
    then have "(scast (word_of_nat p :: cint) :: loff_t) = word_of_nat p"
      by (intro scast_word_of_nat) simp
    moreover have "sint (word_of_nat p :: loff_t) = int p"
      using p by (intro sint_word_of_nat) simp
    ultimately show ?thesis
      using Some by (simp add: start)
  qed
qed

lemma AESDCHAR_IOCSEEKTO_value: "AESDCHAR_IOCSEEKTO = 0xC0081601"
  by (simp add: AESDCHAR_IOCSEEKTO_def AESD_IOC_MAGIC_def)

lemma aesd_llseek_spec:
  assumes K: "kernel_ok K" and inv: "dev_inv K F s" and filp: "private_data filp = Aesd_Device"
  obtains r pos where "aesd_llseek K filp off whence s = Some (r, filp\<lparr>f_pos := pos\<rparr>, s)"
    and "0 \<le> sint r \<Longrightarrow> pos = r \<and> unat pos \<le> length (content (log_of s))"
    and "sint r < 0 \<Longrightarrow> pos = f_pos filp"
    and "whence = 0 \<Longrightarrow> unat off \<le> length (content (log_of s)) \<Longrightarrow> r = off"
proof -
  let ?n = "buffer_size (circular_buffer (aesd_device s))"
  have n: "unat ?n = length (content (log_of s))" "sint ?n = int (length (content (log_of s)))"
    using buffer_size_content [OF inv] content_small [OF K inv] by (simp_all add: sint_unat)
  obtain r pos where seek: "fixed_size_llseek K (f_pos filp) off whence ?n = (r, pos)" by fastforce
  have "llseek_ok K" using K by (simp add: kernel_ok_def)
  then have laws: "if 0 \<le> sint r then pos = r \<and> sint r \<le> sint ?n else pos = f_pos filp"
      "whence = 0 \<longrightarrow> 0 \<le> sint off \<longrightarrow> sint off \<le> sint ?n \<longrightarrow> r = off"
    using seek unfolding llseek_ok_def by blast+
  have r: "unat r \<le> length (content (log_of s))" if "0 \<le> sint r"
    using laws(1) that n(2) by (simp add: unat_sint_nonneg nat_le_iff)
  have off: "0 \<le> sint off \<and> sint off \<le> sint ?n" if le: "unat off \<le> length (content (log_of s))"
  proof -
    have "sint off = int (unat off)"
      using le content_small [OF K inv] by (intro sint_unat) simp
    with le show ?thesis
      unfolding n(2) by (simp only: of_nat_0_le_iff of_nat_le_iff simp_thms)
  qed
  show thesis
  proof (rule that [of r pos])
    show "aesd_llseek K filp off whence s = Some (r, filp\<lparr>f_pos := pos\<rparr>, s)"
      using seek filp dev_invD(1) [OF inv]
      by (simp add: aesd_llseek_def aesd_dev_ptr_def mutex_lock_def mutex_unlock_def aesd_circular_buffer_size_def)
  qed (use laws r off n in auto)
qed

subsection \<open>Module initialisation and removal\<close>

lemma aesd_init_module_spec:
  assumes region: "alloc_chrdev_region K (aesd_minor s) = (result, dev)"
  shows "aesd_init_module K s =
    (let s1 = s\<lparr>aesd_major := MAJOR dev\<rparr>; err = cdev_add K (MKDEV (MAJOR dev) (aesd_minor s))
     in if sint result < 0 then (result, s1)
        else (err, s1\<lparr>aesd_device := zero_dev\<lparr>lock := Unlocked, cdev := (if err = 0 then Cdev_Added else Cdev_None)\<rparr>,
                       chrdev_region := (if err = 0 then Some dev else None)\<rparr>))"
  using region
  by (simp add: aesd_init_module_def aesd_setup_cdev_def Let_def zero_dev_def unregister_chrdev_region_def)

lemma dev_inv_init:
  assumes "dom (kheap s) = F" and "lock (aesd_device s) = Unlocked"
    and "circular_buffer (aesd_device s) = aesd_circular_buffer_init" and "staging_entry (aesd_device s) = zero_entry"
  shows "dev_inv K F s"
  using assms cb_inv_init dead_null_init by (simp add: dev_inv_def store_inv_def live_addrs_def staging_ok_def)

text \<open>The removal loop frees every slot of the array, which is every live block once.\<close>

lemma foreach_cfree:
  assumes len: "length (entry b) = 10"
  shows "aesd_circular_buffer_foreach (\<lambda>e h. cfree (buffptr e) h) b i h = cfree_all (map buffptr (drop i (entry b))) h"
proof (induction "10 - i" arbitrary: i h)
  case 0
  then show ?case
    using len by (simp add: aesd_circular_buffer_foreach.simps)
next
  case (Suc n)
  then have i: "i < 10" by simp
  with len have "drop i (entry b) = entry b ! i # drop (Suc i) (entry b)"
    by (simp add: Cons_nth_drop_Suc)
  moreover have "aesd_circular_buffer_foreach (\<lambda>e h. cfree (buffptr e) h) b (Suc i) h' =
      cfree_all (map buffptr (drop (Suc i) (entry b))) h'" for h'
    using Suc.hyps(2) by (intro Suc.hyps(1)) simp
  ultimately show ?case
    using i len
    by (subst aesd_circular_buffer_foreach.simps)
      (cases "cfree (buffptr (entry b ! i)) h"; simp add: entry_at_def)
qed

lemma concat_map_rotate:
  "distinct (concat (map f (rotate n xs))) = distinct (concat (map f xs))"
  "set (concat (map f (rotate n xs))) = set (concat (map f xs))"
proof -
  define m where "m = n mod length xs"
  have "concat (map f xs) = concat (map f (take m xs)) @ concat (map f (drop m xs))"
    by (metis append_take_drop_id concat_append map_append)
  moreover have "concat (map f (rotate n xs)) = concat (map f (drop m xs)) @ concat (map f (take m xs))"
    by (simp add: rotate_drop_take m_def)
  ultimately show "distinct (concat (map f (rotate n xs))) = distinct (concat (map f xs))"
    "set (concat (map f (rotate n xs))) = set (concat (map f xs))"
    by (auto simp del: set_concat)
qed

lemma slots_addrs:
  assumes inv: "cb_inv M b" and dead: "dead_null b"
  shows "concat (map (\<lambda>e. addrs (buffptr e)) (rotate (unat (out_offs b)) (entry b))) = live_addrs b"
proof -
  let ?r = "rotate (unat (out_offs b)) (entry b)" and ?n = "unat (num_entries b)"
  have len: "length ?r = 10" using cb_invD(1) [OF inv] by simp
  have null: "buffptr e = NULL" if e: "e \<in> set (drop ?n ?r)" for e
  proof -
    from e obtain j where j: "j < length (drop ?n ?r)" "e = drop ?n ?r ! j"
      unfolding in_set_conv_nth by blast
    then have "?n + j < 10" using len by simp
    then have "e = entry b ! ((unat (out_offs b) + (?n + j)) mod 10)"
      using j(2) len cb_invD(1) [OF inv] nth_rotate [of "?n + j" "entry b" "unat (out_offs b)"] by simp
    then show ?thesis
      using dead \<open>?n + j < 10\<close> by (simp add: dead_null_def)
  qed
  have "concat (map (\<lambda>e. addrs (buffptr e)) ?r) =
      concat (map (\<lambda>e. addrs (buffptr e)) (take ?n ?r)) @ concat (map (\<lambda>e. addrs (buffptr e)) (drop ?n ?r))"
    by (metis append_take_drop_id concat_append map_append)
  also have "concat (map (\<lambda>e. addrs (buffptr e)) (drop ?n ?r)) = []"
    using null by simp
  finally show ?thesis
    by (simp add: live_addrs_def live_dead_rotate [OF inv])
qed

lemma aesd_cleanup_module_spec:
  assumes inv: "dev_inv K F s"
  shows "\<exists>s'. aesd_cleanup_module s = Some s' \<and>
     kheap s' = kheap s |` (F \<union> set (addrs (buffptr (staging_entry (aesd_device s))))) \<and>
     cdev (aesd_device s') = Cdev_None \<and>
     (chrdev_region s = Some (MKDEV (aesd_major s) (aesd_minor s)) \<longrightarrow> chrdev_region s' = None)"
proof -
  let ?cb = "circular_buffer (aesd_device s)" and ?st = "staging_entry (aesd_device s)"
  note si = dev_invD(2) [OF inv]
  let ?as = "concat (map addrs (map buffptr (entry ?cb)))"
  have "distinct ?as" "set ?as = set (live_addrs ?cb)"
    using store_invD(5) [OF si] slots_addrs [OF store_invD(1,2) [OF si]]
      concat_map_rotate [of "\<lambda>e. addrs (buffptr e)" "unat (out_offs ?cb)" "entry ?cb"]
    by (simp_all add: comp_def)
  moreover have "set (live_addrs ?cb) \<subseteq> dom (kheap s)"
    using store_invD(8) [OF si] by auto
  ultimately have free: "cfree_all (map buffptr (entry ?cb)) (kheap s) = Some (kheap s |` (- set (live_addrs ?cb)))"
    using cfree_all_restrict [of "map buffptr (entry ?cb)" "kheap s"] by simp
  have heap: "kheap s |` (- set (live_addrs ?cb)) = kheap s |` (F \<union> set (addrs (buffptr ?st)))"
    using store_invD(7-9) [OF si] by (auto simp: restrict_map_def fun_eq_iff domIff)
  show ?thesis
    using free heap
    by (simp add: aesd_cleanup_module_def foreach_cfree [OF cb_invD(1) [OF store_invD(1) [OF si]]]
        unregister_chrdev_region_def Let_def)
qed

subsection \<open>The empty write\<close>

text \<open>With nothing staged, a write of zero bytes asks the allocator for an empty block and then
  reads the byte before its start: no outcome.\<close>

lemma aesd_write_empty:
  assumes K: "kernel_ok K" and inv: "dev_inv K F s" and filp: "private_data filp = Aesd_Device"
    and none: "pending (log_of s) = []" and mem: "kmalloc K 0 (kheap s) \<noteq> NULL"
    and copy: "fst (copy_from_user K (user_mem s) buf 0) = 0"
  shows "aesd_write K filp buf 0 pos s = None"
proof -
  let ?st = "staging_entry (aesd_device s)"
  have st: "?st = zero_entry"
    using none store_invD(4) [OF dev_invD(2) [OF inv]] by (auto simp: log_of_def staging_ok_def)
  obtain a where a: "kmalloc K 0 (kheap s) = Ptr a"
    using mem by (cases "kmalloc K 0 (kheap s)") auto
  obtain bs where bs: "copy_from_user K (user_mem s) buf 0 = (0, bs)"
    using copy by (cases "copy_from_user K (user_mem s) buf 0") auto
  then have "bs = []" using kernel_okD(4) [OF K bs] by simp
  with bs a st show ?thesis
    using dev_invD(1) [OF inv] filp
    by (simp add: aesd_write_def aesd_dev_ptr_def mutex_lock_def alloc_Ptr memcpy_def write_commit_def Let_def)
qed

subsection \<open>A sample device for the witnesses\<close>

text \<open>One complete command \<open>abc\<close> and the unfinished \<open>de\<close>.\<close>

definition sample_state :: kstate where
  "sample_state =
     \<lparr>aesd_device = \<lparr>circular_buffer = \<lparr>entry = \<lparr>buffptr = Ptr 0, entry_size = 4\<rparr> # replicate 9 zero_entry,
          in_offs = 1, out_offs = 0, num_entries = 1, buffer_size = 4\<rparr>,
        staging_entry = \<lparr>buffptr = Ptr 1, entry_size = 2\<rparr>, lock = Unlocked, cdev = Cdev_Added\<rparr>,
      kheap = [0 \<mapsto> ''abc'' @ [newline], 1 \<mapsto> ''de''],
      user_mem = (\<lambda>a. newline), aesd_major = 240, aesd_minor = 0, chrdev_region = Some (MKDEV 240 0)\<rparr>"

definition sample_file :: kfile where
  "sample_file = \<lparr>f_pos = 0, private_data = Aesd_Device\<rparr>"

lemma sample_file_dev [simp]: "private_data sample_file = Aesd_Device"
  by (simp add: sample_file_def)

lemma sample_live:
  "live (circular_buffer (aesd_device sample_state)) = [\<lparr>buffptr = Ptr 0, entry_size = 4\<rparr>]"
  by (simp add: live_def sample_state_def)

lemma sample_log: "log_of sample_state = \<lparr>commands = [''abc'' @ [newline]], pending = ''de''\<rparr>"
  by (simp add: log_of_def sample_live) (simp add: sample_state_def entry_bytes_def)

lemma sample_inv: "dev_inv demo_kernel {} sample_state"
proof -
  let ?cb = "circular_buffer (aesd_device sample_state)"
  have "cb_inv 4194304 ?cb"
    by (simp add: cb_inv_def sizes_def sample_live) (simp add: sample_state_def)
  moreover have "dead_null ?cb"
    by (auto simp: dead_null_def sample_state_def nth_Cons split: nat.splits)
  moreover have "live_addrs ?cb = [0]"
    by (simp add: live_addrs_def sample_live)
  ultimately show ?thesis
    by (simp add: dev_inv_def store_inv_def sample_live)
      (auto simp: sample_state_def command_ok_def staging_ok_def entry_ok_def entry_bytes_def demo_kernel_def)
qed

subsection \<open>Properties\<close>

text \<open>C6: A write to the device (of at least one byte, or onto a non-empty unfinished command) always
  completes and refines the abstract log. If memory runs out it returns \<open>-ENOMEM\<close>, if the user
  buffer cannot be read \<open>-EFAULT\<close>, and in both cases the log is unchanged; otherwise it returns the
  byte count and the user's bytes are appended to the unfinished command, which becomes the
  newest of at most ten commands as soon as it ends in a newline. On every path the device
  invariant holds again: the lock is free, the indices and sizes are consistent, and the kernel
  blocks the driver holds are exactly those of its entries (no leak, no double free, no dangling
  pointer). The file position and user memory do not change.\<close>

theorem aesd_write_refines_log:
  assumes "kernel_ok K" and "dev_inv K F s" and "private_data filp = Aesd_Device"
    and "0 < unat count + length (pending (log_of s))" and "unat count + length (pending (log_of s)) < 2 ^ 64"
  shows "\<exists>r s'. aesd_write K filp buf count pos s = Some (r, pos, s') \<and> dev_inv K F s' \<and> user_mem s' = user_mem s \<and>
    (if kmalloc K (unat count + length (pending (log_of s))) (kheap s) = NULL
     then r = - ENOMEM \<and> log_of s' = log_of s
     else if fst (copy_from_user K (user_mem s) buf count) \<noteq> 0
     then r = - EFAULT \<and> log_of s' = log_of s
     else r = count \<and> log_of s' = spec_write (user_bytes (user_mem s) buf (unat count)) (log_of s))"
proof -
  obtain cb st h where w: "aesd_write K filp buf count pos s = Some (write_result K buf count s, pos,
        s\<lparr>kheap := h, aesd_device := (aesd_device s)\<lparr>circular_buffer := cb, staging_entry := st\<rparr>\<rparr>)"
      "store_inv (kmalloc_max K) F cb st h"
      "\<lparr>commands = map (entry_bytes h) (live cb), pending = entry_bytes h st\<rparr> =
        (if write_accepted K buf count s
         then spec_write (user_bytes (user_mem s) buf (unat count)) (log_of s) else log_of s)"
    using aesd_write_spec [OF assms, of buf pos] by metis
  let ?s' = "s\<lparr>kheap := h, aesd_device := (aesd_device s)\<lparr>circular_buffer := cb, staging_entry := st\<rparr>\<rparr>"
  have "log_of ?s' = \<lparr>commands = map (entry_bytes h) (live cb), pending = entry_bytes h st\<rparr>"
    by (simp add: log_of_def)
  moreover have "dev_inv K F ?s'"
    using w(2) dev_invD(1) [OF assms(2)] by (simp add: dev_inv_def)
  ultimately show ?thesis
    using w(1,3) by (auto simp: write_result_def write_accepted_def)
qed

theorem aesd_write_refines_log_witness:
  "\<exists>r s'. aesd_write demo_kernel sample_file 0 1 0 sample_state = Some (r, 0, s') \<and> dev_inv demo_kernel {} s' \<and>
    user_mem s' = user_mem sample_state \<and>
    (if kmalloc demo_kernel (unat (1 :: size_t) + length (pending (log_of sample_state))) (kheap sample_state) = NULL
     then r = - ENOMEM \<and> log_of s' = log_of sample_state
     else if fst (copy_from_user demo_kernel (user_mem sample_state) 0 1) \<noteq> 0
     then r = - EFAULT \<and> log_of s' = log_of sample_state
     else r = 1 \<and> log_of s' = spec_write (user_bytes (user_mem sample_state) 0 (unat (1 :: size_t))) (log_of sample_state))"
  by (rule aesd_write_refines_log [OF demo_kernel_ok sample_inv]) (simp_all add: sample_log)

text \<open>C8: A read returns the bytes at the file position. Past the end of the stored commands it returns 0
  and touches nothing. Inside, it copies to the user a prefix of the concatenated commands from
  the position on (non-empty when bytes were asked for, at most as many as asked for, and never
  past the end of the command the position lies in) and advances the position by exactly that
  many bytes; if the user buffer cannot be written it returns \<open>-EFAULT\<close> and the position stays. The
  device, the kernel heap and the lock are unchanged in every case.\<close>

theorem aesd_read_returns_content:
  assumes "kernel_ok K" and "dev_inv K F s" and "private_data filp = Aesd_Device"
  shows "\<exists>bs. bs = spec_read (log_of s) (unat pos) (unat count) \<and>
    bs = take (length bs) (drop (unat pos) (concat (commands (log_of s)))) \<and> length bs \<le> unat count \<and>
    (bs = [] \<longleftrightarrow> length (concat (commands (log_of s))) \<le> unat pos \<or> count = 0) \<and>
    (if length (concat (commands (log_of s))) \<le> unat pos
     then aesd_read K filp buf count pos s = Some (0, pos, s)
     else if fst (copy_to_user K (user_mem s) buf bs) \<noteq> 0
     then aesd_read K filp buf count pos s =
            Some (- EFAULT, pos, s\<lparr>user_mem := snd (copy_to_user K (user_mem s) buf bs)\<rparr>)
     else aesd_read K filp buf count pos s =
            Some (word_of_nat (length bs), pos + word_of_nat (length bs), s\<lparr>user_mem := user_store (user_mem s) buf bs\<rparr>))"
proof -
  let ?bs = "spec_read (log_of s) (unat pos) (unat count)"
  obtain left um where copy: "copy_to_user K (user_mem s) buf ?bs = (left, um)" by fastforce
  have nil: "?bs = [] \<longleftrightarrow> length (concat (commands (log_of s))) \<le> unat pos \<or> count = 0"
    using spec_read_Nil_iff [of "log_of s" "unat pos" "unat count"] by (simp add: content_def unat_eq_0)
  have "if length (concat (commands (log_of s))) \<le> unat pos
     then aesd_read K filp buf count pos s = Some (0, pos, s)
     else if left \<noteq> 0
     then aesd_read K filp buf count pos s = Some (- EFAULT, pos, s\<lparr>user_mem := um\<rparr>)
     else aesd_read K filp buf count pos s =
            Some (word_of_nat (length ?bs), pos + word_of_nat (length ?bs), s\<lparr>user_mem := user_store (user_mem s) buf ?bs\<rparr>)"
    using aesd_read_end [OF assms(2,3), of pos buf count] aesd_read_data [OF assms _ copy]
      kernel_okD(6) [OF assms(1)] copy by (auto simp: content_def)
  then show ?thesis
    using nil spec_read_prefix [of "log_of s" "unat pos" "unat count"] length_spec_read copy
    by (intro exI [of _ ?bs]) (simp add: content_def)
qed

theorem aesd_read_returns_content_witness:
  "\<exists>bs. bs = spec_read (log_of sample_state) (unat (1 :: loff_t)) (unat (2 :: size_t)) \<and>
    bs = take (length bs) (drop (unat (1 :: loff_t)) (concat (commands (log_of sample_state)))) \<and>
    length bs \<le> unat (2 :: size_t) \<and>
    (bs = [] \<longleftrightarrow> length (concat (commands (log_of sample_state))) \<le> unat (1 :: loff_t) \<or> (2 :: size_t) = 0) \<and>
    (if length (concat (commands (log_of sample_state))) \<le> unat (1 :: loff_t)
     then aesd_read demo_kernel sample_file 100 2 1 sample_state = Some (0, 1, sample_state)
     else if fst (copy_to_user demo_kernel (user_mem sample_state) 100 bs) \<noteq> 0
     then aesd_read demo_kernel sample_file 100 2 1 sample_state =
            Some (- EFAULT, 1, sample_state\<lparr>user_mem := snd (copy_to_user demo_kernel (user_mem sample_state) 100 bs)\<rparr>)
     else aesd_read demo_kernel sample_file 100 2 1 sample_state =
            Some (word_of_nat (length bs), 1 + word_of_nat (length bs),
                  sample_state\<lparr>user_mem := user_store (user_mem sample_state) 100 bs\<rparr>))"
  by (rule aesd_read_returns_content [OF demo_kernel_ok sample_inv sample_file_dev])

text \<open>C14: The seek ioctl moves the file position to byte \<open>write_cmd_offset\<close> of command \<open>write_cmd\<close>, both
  counted from zero and read as little-endian 32-bit words from the user's structure. If there is
  no such byte it returns \<open>-EINVAL\<close>, if the structure cannot be read \<open>-EFAULT\<close>, for any other command
  number \<open>-ENOTTY\<close>, and then the position stays. The device is unchanged and unlocked afterwards.\<close>

theorem aesd_ioctl_seeks:
  assumes "kernel_ok K" and "dev_inv K F s" and "private_data filp = Aesd_Device"
  shows "aesd_ioctl K filp cmd arg s = Some (
    if cmd \<noteq> 0xC0081601 then (- ENOTTY, filp, s)
    else if fst (copy_from_user K (user_mem s) arg 8) \<noteq> 0 then (- EFAULT, filp, s)
    else (let i = unat (write_cmd (seekto_of_bytes (user_bytes (user_mem s) arg 8)));
              off = unat (write_cmd_offset (seekto_of_bytes (user_bytes (user_mem s) arg 8)));
              cs = commands (log_of s) in
      if i < length cs \<and> off < length (cs ! i)
      then (0, filp\<lparr>f_pos := word_of_nat (length (concat (take i cs)) + off)\<rparr>, s)
      else (- EINVAL, filp, s)))"
proof -
  let ?st = "seekto_of_bytes (user_bytes (user_mem s) arg 8)"
  obtain left bs where c: "copy_from_user K (user_mem s) arg 8 = (left, bs)" by fastforce
  have "left = 0 \<Longrightarrow> bs = user_bytes (user_mem s) arg 8"
    using kernel_okD(5) [OF assms(1)] c by fastforce
  then show ?thesis
    using aesd_adjust_file_offset_spec [OF assms(1-3), of "write_cmd ?st" "write_cmd_offset ?st"] c
    by (auto simp: aesd_ioctl_def AESDCHAR_IOCSEEKTO_value sizeof_aesd_seekto_def seek_target_def Let_def)
qed

theorem aesd_ioctl_seeks_witness:
  "aesd_ioctl demo_kernel sample_file 0xC0081601 0 sample_state = Some (
    if (0xC0081601 :: uint32) \<noteq> 0xC0081601 then (- ENOTTY, sample_file, sample_state)
    else if fst (copy_from_user demo_kernel (user_mem sample_state) 0 8) \<noteq> 0 then (- EFAULT, sample_file, sample_state)
    else (let i = unat (write_cmd (seekto_of_bytes (user_bytes (user_mem sample_state) 0 8)));
              off = unat (write_cmd_offset (seekto_of_bytes (user_bytes (user_mem sample_state) 0 8)));
              cs = commands (log_of sample_state) in
      if i < length cs \<and> off < length (cs ! i)
      then (0, sample_file\<lparr>f_pos := word_of_nat (length (concat (take i cs)) + off)\<rparr>, sample_state)
      else (- EINVAL, sample_file, sample_state)))"
  by (rule aesd_ioctl_seeks [OF demo_kernel_ok sample_inv sample_file_dev])



text \<open>C28: Loading the module either succeeds, and then the device is registered, empty, unlocked and
  satisfies the invariant, or it fails with the error of the step that failed and leaves nothing
  registered.\<close>

theorem aesd_init_module_all_or_nothing:
  assumes "chrdev_region s = None" and "cdev (aesd_device s) = Cdev_None" and "aesd_init_module K s = (r, s')"
  shows "if 0 \<le> sint (fst (alloc_chrdev_region K (aesd_minor s))) \<and> r = 0
    then dev_inv K (dom (kheap s)) s' \<and> log_of s' = \<lparr>commands = [], pending = []\<rparr> \<and>
         cdev (aesd_device s') = Cdev_Added \<and> chrdev_region s' = Some (snd (alloc_chrdev_region K (aesd_minor s)))
    else chrdev_region s' = None \<and> cdev (aesd_device s') = Cdev_None \<and> kheap s' = kheap s \<and> r \<noteq> 0"
proof -
  obtain result dev where reg: "alloc_chrdev_region K (aesd_minor s) = (result, dev)" by fastforce
  note spec = aesd_init_module_spec [OF reg, unfolded Let_def]
  show ?thesis
  proof (cases "sint result < 0")
    case True
    then have "r \<noteq> 0" using spec assms(3) by auto
    with True show ?thesis using spec assms reg by auto
  next
    case False
    then have s': "r = cdev_add K (MKDEV (MAJOR dev) (aesd_minor s))"
      "s' = s\<lparr>aesd_major := MAJOR dev,
        aesd_device := zero_dev\<lparr>lock := Unlocked, cdev := (if r = 0 then Cdev_Added else Cdev_None)\<rparr>,
        chrdev_region := (if r = 0 then Some dev else None)\<rparr>"
      using spec assms(3) by auto
    have "dev_inv K (dom (kheap s)) s'"
      by (rule dev_inv_init) (simp_all add: s' zero_dev_def)
    moreover have "log_of s' = \<lparr>commands = [], pending = []\<rparr>"
      by (simp add: s'(2) zero_dev_def log_of_def)
    ultimately show ?thesis
      using False reg s' by auto
  qed
qed

text \<open>An unloaded module.\<close>

definition blank_state :: kstate where
  "blank_state = \<lparr>aesd_device = zero_dev, kheap = Map.empty, user_mem = (\<lambda>a. newline),
     aesd_major = 0, aesd_minor = 0, chrdev_region = None\<rparr>"

theorem aesd_init_module_all_or_nothing_witness:
  "if 0 \<le> sint (fst (alloc_chrdev_region demo_kernel (aesd_minor blank_state))) \<and> fst (aesd_init_module demo_kernel blank_state) = 0
    then dev_inv demo_kernel (dom (kheap blank_state)) (snd (aesd_init_module demo_kernel blank_state)) \<and>
         log_of (snd (aesd_init_module demo_kernel blank_state)) = \<lparr>commands = [], pending = []\<rparr> \<and>
         cdev (aesd_device (snd (aesd_init_module demo_kernel blank_state))) = Cdev_Added \<and>
         chrdev_region (snd (aesd_init_module demo_kernel blank_state)) =
           Some (snd (alloc_chrdev_region demo_kernel (aesd_minor blank_state)))
    else chrdev_region (snd (aesd_init_module demo_kernel blank_state)) = None \<and>
         cdev (aesd_device (snd (aesd_init_module demo_kernel blank_state))) = Cdev_None \<and>
         kheap (snd (aesd_init_module demo_kernel blank_state)) = kheap blank_state \<and>
         fst (aesd_init_module demo_kernel blank_state) \<noteq> 0"
  by (rule aesd_init_module_all_or_nothing) (simp_all add: blank_state_def zero_dev_def)

lemma disjoint_union_eq: "A \<inter> B = {} \<Longrightarrow> (A \<union> B = A) = (B = {})"
  by blast

text \<open>C29: Unloading the module releases every block of the circular buffer exactly once and unregisters the
  device, but not the block of an unfinished command: what is left of the driver's memory is
  exactly the staging block, so memory is leaked if and only if a command was unfinished.\<close>

theorem aesd_cleanup_module_leak:
  assumes "dev_inv K F s" and "chrdev_region s = Some (MKDEV (aesd_major s) (aesd_minor s))"
  shows "\<exists>s'. aesd_cleanup_module s = Some s' \<and> chrdev_region s' = None \<and> cdev (aesd_device s') = Cdev_None \<and>
    dom (kheap s') = F \<union> set (addrs (buffptr (staging_entry (aesd_device s)))) \<and>
    (dom (kheap s') = F \<longleftrightarrow> pending (log_of s) = [])"
proof -
  let ?st = "staging_entry (aesd_device s)"
  note si = dev_invD(2) [OF assms(1)]
  obtain s' where s': "aesd_cleanup_module s = Some s'" "kheap s' = kheap s |` (F \<union> set (addrs (buffptr ?st)))"
      "cdev (aesd_device s') = Cdev_None" "chrdev_region s' = None"
    using aesd_cleanup_module_spec [OF assms(1)] assms(2) by auto
  have dom: "dom (kheap s') = F \<union> set (addrs (buffptr ?st))"
    using s'(2) store_invD(8) [OF si] by auto
  have "set (addrs (buffptr ?st)) = {} \<longleftrightarrow> pending (log_of s) = []"
    using store_invD(4) [OF si] by (auto simp: log_of_def staging_ok_def elim!: entry_okE)
  moreover have "dom (kheap s') = F \<longleftrightarrow> set (addrs (buffptr ?st)) = {}"
    using dom disjoint_union_eq [OF store_invD(10) [OF si]] by simp
  ultimately show ?thesis
    using s'(1,3,4) dom by (intro exI [of _ s']) (simp only: simp_thms)
qed

theorem aesd_cleanup_module_leak_witness:
  "\<exists>s'. aesd_cleanup_module sample_state = Some s' \<and> chrdev_region s' = None \<and> cdev (aesd_device s') = Cdev_None \<and>
    dom (kheap s') = {} \<union> set (addrs (buffptr (staging_entry (aesd_device sample_state)))) \<and>
    (dom (kheap s') = {} \<longleftrightarrow> pending (log_of sample_state) = [])"
  by (rule aesd_cleanup_module_leak [OF sample_inv]) (simp add: sample_state_def)

text \<open>C30: A write of zero bytes while no command is unfinished has no defined outcome: the driver reads the
  byte before the start of a zero-sized allocation.\<close>

theorem aesd_write_of_nothing_faults:
  assumes "kernel_ok K" and "dev_inv K F s" and "private_data filp = Aesd_Device" and "pending (log_of s) = []"
    and "kmalloc K 0 (kheap s) \<noteq> NULL" and "fst (copy_from_user K (user_mem s) buf 0) = 0"
  shows "aesd_write K filp buf 0 pos s = None"
  by (rule aesd_write_empty [OF assms])

theorem aesd_write_of_nothing_faults_witness:
  "aesd_write demo_kernel sample_file 0 0 0 (snd (aesd_init_module demo_kernel blank_state)) = None"
proof -
  let ?s = "snd (aesd_init_module demo_kernel blank_state)"
  have s: "?s = blank_state\<lparr>aesd_major := MAJOR (push_bit 20 240), aesd_device := zero_dev\<lparr>lock := Unlocked, cdev := Cdev_Added\<rparr>,
      chrdev_region := Some (push_bit 20 240)\<rparr>"
    using aesd_init_module_spec [of demo_kernel blank_state 0 "push_bit 20 240"]
    by (simp add: demo_kernel_def Let_def)
  have f: "kheap ?s = Map.empty" "lock (aesd_device ?s) = Unlocked"
      "circular_buffer (aesd_device ?s) = aesd_circular_buffer_init" "staging_entry (aesd_device ?s) = zero_entry"
    unfolding s by (simp_all add: zero_dev_def blank_state_def)
  have inv: "dev_inv demo_kernel (dom (kheap ?s)) ?s"
    by (rule dev_inv_init) (simp_all only: f)
  have p: "pending (log_of ?s) = []"
    by (simp add: log_of_def f)
  have "kmalloc demo_kernel 0 (kheap ?s) \<noteq> NULL" "fst (copy_from_user demo_kernel (user_mem ?s) 0 0) = 0"
    unfolding f by (simp_all add: demo_kernel_def first_free_hit)
  then show ?thesis
    by (rule aesd_write_of_nothing_faults [OF demo_kernel_ok inv sample_file_dev p])
qed

end
