(* ===== verification/File_Stream.thy ===== *)
theory File_Stream
  imports Tcp_Connection Seek_Command Char_Driver_Ops
begin

text \<open>
  The open file between the server and whatever stores the lines. \<open>sys_file\<close> is the system
  call interface as a parameter, over a state \<open>'f\<close> that holds the stored data and the position
  of the open file; on top of it the parts of C's buffered streams that the server uses. How a
  stream cuts its output into \<open>write\<close> calls is up to the library: \<open>split_out\<close> says which pieces
  are written at once and what stays in the buffer for \<open>fflush\<close>.
\<close>

subsection \<open>System calls and streams\<close>

record 'f sys_file =
  sys_open :: "'f \<Rightarrow> bool \<times> 'f"
  sys_write :: "byte list \<Rightarrow> 'f \<Rightarrow> (ssize_t \<times> 'f) option"
  sys_read :: "'f reader"
  sys_ioctl :: "uint32 \<Rightarrow> aesd_seekto \<Rightarrow> 'f \<Rightarrow> (cint \<times> 'f) option"
  sys_close :: "'f \<Rightarrow> 'f"

record stdio =
  split_out :: "byte list \<Rightarrow> byte list list \<times> byte list"
  retained :: "byte list \<Rightarrow> byte list"

text \<open>The library writes out every byte once and in order.\<close>

definition stdio_ok :: "stdio \<Rightarrow> bool" where
  "stdio_ok io \<longleftrightarrow> (\<forall>bs. concat (fst (split_out io bs)) @ snd (split_out io bs) = bs)"

record 'f stream =
  sfile :: 'f
  obuf :: "byte list"

text \<open>\<open>fopen(filename, "r+")\<close>: \<open>None\<close> is \<open>NULL\<close>.\<close>

definition fopen_update :: "'f sys_file \<Rightarrow> 'f \<Rightarrow> 'f stream option \<times> 'f" where
  "fopen_update F f = (case sys_open F f of (ok, f) \<Rightarrow> (if ok then Some \<lparr>sfile = f, obuf = []\<rparr> else None, f))"

text \<open>Writing out a buffer repeats \<open>write\<close> until everything is taken or an error occurs.\<close>

partial_function (option) write_all :: "'f sys_file \<Rightarrow> byte list \<Rightarrow> 'f \<Rightarrow> (bool \<times> 'f) option" where
  "write_all F bs f =
     (if bs = [] then Some (True, f)
      else do {
        (r, f) \<leftarrow> sys_write F bs f;
        if sint r < 0 then Some (False, f) else write_all F (drop (unat r) bs) f
      })"

text \<open>The pieces in turn, up to the first failure; the second result is what was not written.\<close>

fun write_chunks :: "'f sys_file \<Rightarrow> byte list list \<Rightarrow> 'f \<Rightarrow> (bool \<times> byte list \<times> 'f) option" where
  "write_chunks F [] f = Some (True, [], f)"
| "write_chunks F (ch # chs) f = do {
     (ok, f) \<leftarrow> write_all F ch f;
     if ok then write_chunks F chs f else Some (False, concat (ch # chs), f)
   }"

text \<open>\<open>fprintf(fd, "%s\n", message)\<close>: the number of characters, or a negative value on an error.\<close>

definition fprintf_line :: "stdio \<Rightarrow> 'f sys_file \<Rightarrow> byte list \<Rightarrow> 'f stream \<Rightarrow> (cint \<times> 'f stream) option" where
  "fprintf_line io F message st = do {
     let bytes = message @ [newline];
     let (chs, keep) = split_out io (obuf st @ bytes);
     (ok, unwritten, f) \<leftarrow> write_chunks F chs (sfile st);
     Some (if ok then (word_of_nat (length bytes), \<lparr>sfile = f, obuf = keep\<rparr>)
           else (- 1, \<lparr>sfile = f, obuf = retained io (unwritten @ keep)\<rparr>))
   }"

definition fflush :: "stdio \<Rightarrow> 'f sys_file \<Rightarrow> 'f stream \<Rightarrow> (bool \<times> 'f stream) option" where
  "fflush io F st = do {
     (ok, f) \<leftarrow> write_all F (obuf st) (sfile st);
     Some (ok, \<lparr>sfile = f, obuf = (if ok then [] else retained io (obuf st))\<rparr>)
   }"

text \<open>\<open>fclose\<close> writes out what is still in the buffer and closes the file.\<close>

definition fclose :: "stdio \<Rightarrow> 'f sys_file \<Rightarrow> 'f stream \<Rightarrow> 'f option" where
  "fclose io F st = do {
     (_, st) \<leftarrow> fflush io F st;
     Some (sys_close F (sfile st))
   }"

text \<open>\<open>read(fd->_fileno, ...)\<close> goes past the stream straight to the file.\<close>

definition stream_read :: "'f sys_file \<Rightarrow> 'f stream reader" where
  "stream_read F n st = do {
     (bs, f) \<leftarrow> sys_read F n (sfile st);
     Some (bs, st\<lparr>sfile := f\<rparr>)
   }"

subsection \<open>Lines on the abstract log\<close>

text \<open>Writing a line in several pieces has the effect of writing it at once: only its last byte is
  a newline.\<close>

lemma spec_write_piece:
  "p \<noteq> [] \<Longrightarrow> newline \<notin> set p \<Longrightarrow> spec_write (p @ q) l = spec_write q (spec_write p l)"
  by (auto simp: spec_write_def Let_def dest: last_in_set)

lemma spec_write_Nil: "pending l = [] \<or> last (pending l) \<noteq> newline \<Longrightarrow> spec_write [] l = l"
  by (auto simp: spec_write_def)

lemma spec_write_pending: "newline \<notin> set p \<Longrightarrow> p \<noteq> [] \<Longrightarrow> spec_write p l = l\<lparr>pending := pending l @ p\<rparr>"
  by (auto simp: spec_write_def Let_def dest: last_in_set)

lemma fold_spec_write:
  "concat chs @ keep = m @ [newline] \<Longrightarrow> newline \<notin> set m \<Longrightarrow>
   fold spec_write (filter (\<lambda>c. c \<noteq> []) (chs @ [keep])) l = spec_write (m @ [newline]) l"
proof (induction chs arbitrary: m l)
  case Nil
  then show ?case by simp
next
  case (Cons ch chs)
  show ?case
  proof (cases "ch = []")
    case True
    with Cons show ?thesis by simp
  next
    case False
    show ?thesis
    proof (cases "concat chs @ keep = []")
      case True
      then have "filter (\<lambda>c. c \<noteq> []) (chs @ [keep]) = []" by (auto simp: filter_empty_conv)
      moreover have "ch = m @ [newline]"
        using True Cons.prems(1) by (metis append_Nil2 append_assoc concat.simps(2))
      ultimately show ?thesis using False by simp
    next
      case rest: False
      have len: "length ch \<le> length m"
        using rest arg_cong [OF Cons.prems(1), of length] by (cases "concat chs"; cases keep) auto
      have "ch = take (length ch) m" "concat chs @ keep = drop (length ch) m @ [newline]"
        using arg_cong [OF Cons.prems(1), of "take (length ch)"] arg_cong [OF Cons.prems(1), of "drop (length ch)"] len by simp_all
      then have m: "m = ch @ drop (length ch) m" "concat chs @ keep = drop (length ch) m @ [newline]"
        by (metis append_take_drop_id)+
      have "newline \<notin> set ch" "newline \<notin> set (drop (length ch) m)"
        using Cons.prems(2) m(1) by (metis Un_iff set_append)+
      then show ?thesis
        using Cons.IH [OF m(2)] False m(1) spec_write_piece [of ch "drop (length ch) m @ [newline]" l] by (simp, metis append.assoc)
    qed
  qed
qed


lemma length_pending_spec_write: "length (pending (spec_write bs l)) \<le> length (pending l) + length bs"
  by (simp add: spec_write_def Let_def)

subsection \<open>What the server relies on\<close>

text \<open>
  A file that stores lines: opening puts the position at the start, a write below the size
  limit is taken whole and appended to the log without moving the position, the seek command
  moves it to the byte it names, reading delivers the contents from the position on, and only
  writes change the log.
\<close>

locale line_device = chunk_reader valid "sys_read F" rest
  for valid :: "'f \<Rightarrow> bool" and F :: "'f sys_file" and rest :: "'f \<Rightarrow> byte list" +
  fixes ready :: "'f \<Rightarrow> bool" and limit :: nat and log :: "'f \<Rightarrow> log_state" and pos :: "'f \<Rightarrow> nat"
  assumes limit_small: "limit < 2 ^ 31"
    and rest_eq: "valid f \<Longrightarrow> rest f = drop (pos f) (content (log f))"
    and open_ok: "ready f \<Longrightarrow> \<exists>f'. sys_open F f = (True, f') \<and> valid f' \<and> log f' = log f \<and> pos f' = 0"
    and write_ok: "valid f \<Longrightarrow> bs \<noteq> [] \<Longrightarrow> length (pending (log f)) + length bs \<le> limit \<Longrightarrow>
      \<exists>f'. sys_write F bs f = Some (word_of_nat (length bs), f') \<and> valid f' \<and> log f' = spec_write bs (log f) \<and> pos f' = pos f"
    and read_log: "valid f \<Longrightarrow> 0 < n \<Longrightarrow> n \<le> 4096 \<Longrightarrow> sys_read F n f = Some (r, f') \<Longrightarrow> log f' = log f"
    and ioctl_ok: "valid f \<Longrightarrow> \<exists>f'. sys_ioctl F AESDCHAR_IOCSEEKTO st f =
        Some (if seek_target (log f) (unat (write_cmd st)) (unat (write_cmd_offset st)) = None then - 1 else 0, f') \<and>
      valid f' \<and> log f' = log f \<and>
      pos f' = (case seek_target (log f) (unat (write_cmd st)) (unat (write_cmd_offset st)) of None \<Rightarrow> pos f | Some p \<Rightarrow> p)"
    and close_ok: "valid f \<Longrightarrow> ready (sys_close F f) \<and> log (sys_close F f) = log f"
begin

lemma write_all_ok:
  assumes "valid f" and "length (pending (log f)) + length bs \<le> limit"
  shows "\<exists>f'. write_all F bs f = Some (True, f') \<and> valid f' \<and> pos f' = pos f \<and>
    log f' = (if bs = [] then log f else spec_write bs (log f))"
proof (cases "bs = []")
  case True
  then show ?thesis using assms by (subst write_all.simps) simp
next
  case False
  obtain f' where f': "sys_write F bs f = Some (word_of_nat (length bs), f')" "valid f'" "log f' = spec_write bs (log f)" "pos f' = pos f"
    using write_ok [OF assms(1) False assms(2)] by blast
  have len: "length bs < 2 ^ 31" using assms(2) limit_small by simp
  have "sint (word_of_nat (length bs) :: ssize_t) = int (length bs)"
    by (rule sint_word_of_nat) (use len in simp)
  moreover have "unat (word_of_nat (length bs) :: ssize_t) = length bs"
    by (rule unat_word_of_nat) (use len in simp)
  moreover have "write_all F [] f' = Some (True, f')"
    by (subst write_all.simps) simp
  ultimately have "write_all F bs f = Some (True, f')"
    using False f'(1) by (subst write_all.simps) simp
  with f' False show ?thesis by simp
qed

lemma write_chunks_ok:
  "valid f \<Longrightarrow> length (pending (log f)) + length (concat chs) \<le> limit \<Longrightarrow>
   \<exists>f'. write_chunks F chs f = Some (True, [], f') \<and> valid f' \<and> pos f' = pos f \<and>
     log f' = fold spec_write (filter (\<lambda>c. c \<noteq> []) chs) (log f) \<and>
     length (pending (log f')) \<le> length (pending (log f)) + length (concat chs)"
proof (induction chs arbitrary: f)
  case Nil
  then show ?case by simp
next
  case (Cons ch chs)
  obtain f1 where f1: "write_all F ch f = Some (True, f1)" "valid f1" "pos f1 = pos f"
      "log f1 = (if ch = [] then log f else spec_write ch (log f))"
    using write_all_ok [OF Cons.prems(1), of ch] Cons.prems(2) by auto
  have len: "length (pending (log f1)) \<le> length (pending (log f)) + length ch"
    using length_pending_spec_write f1(4) by simp
  then have "length (pending (log f1)) + length (concat chs) \<le> limit" using Cons.prems(2) by simp
  from Cons.IH [OF f1(2) this] show ?case
    using f1 len by auto
qed

lemma print_line:
  assumes "stdio_ok io" and "valid (sfile st)" and "obuf st = []" and "newline \<notin> set m"
    and "length (pending (log (sfile st))) + length m + 1 \<le> limit"
  shows "\<exists>st1 st2. fprintf_line io F m st = Some (word_of_nat (length m + 1), st1) \<and> fflush io F st1 = Some (True, st2) \<and>
    valid (sfile st2) \<and> obuf st2 = [] \<and> pos (sfile st2) = pos (sfile st) \<and>
    log (sfile st2) = spec_write (m @ [newline]) (log (sfile st))"
proof -
  obtain chs keep where io: "split_out io (m @ [newline]) = (chs, keep)" by fastforce
  then have cat: "concat chs @ keep = m @ [newline]"
    using assms(1) by (metis fst_conv snd_conv stdio_ok_def)
  have len: "length (concat chs) + length keep = length m + 1"
    using arg_cong [OF cat, of length] by simp
  obtain f1 where f1: "write_chunks F chs (sfile st) = Some (True, [], f1)" "valid f1" "pos f1 = pos (sfile st)"
      "log f1 = fold spec_write (filter (\<lambda>c. c \<noteq> []) chs) (log (sfile st))"
      "length (pending (log f1)) \<le> length (pending (log (sfile st))) + length (concat chs)"
    using write_chunks_ok [OF assms(2), of chs] assms(5) len by auto
  have "length (pending (log f1)) + length keep \<le> limit" using f1(5) assms(5) len by simp
  from write_all_ok [OF f1(2) this] obtain f2 where f2: "write_all F keep f1 = Some (True, f2)" "valid f2" "pos f2 = pos f1"
      "log f2 = (if keep = [] then log f1 else spec_write keep (log f1))" by blast
  have "log f2 = fold spec_write (filter (\<lambda>c. c \<noteq> []) (chs @ [keep])) (log (sfile st))"
    using f1(4) f2(4) by simp
  then have "log f2 = spec_write (m @ [newline]) (log (sfile st))"
    using fold_spec_write [OF cat assms(4)] by simp
  with f1 f2 io assms(3) show ?thesis by (simp add: fprintf_line_def fflush_def)
qed

end

text \<open>Reading through a flushed stream is reading the file, and leaves the log as it is.\<close>

sublocale line_device \<subseteq> stream: chunk_reader
    "\<lambda>st. valid (sfile st) \<and> obuf st = [] \<and> log (sfile st) = l" "stream_read F" "\<lambda>st. rest (sfile st)"
  for l :: log_state
proof unfold_locales
  fix st :: "'f stream" and n :: nat
  assume st: "valid (sfile st) \<and> obuf st = [] \<and> log (sfile st) = l" and n: "0 < n" "n \<le> 4096"
  then obtain bs f' where r: "sys_read F n (sfile st) = Some (Some bs, f')" "valid f'" "length bs \<le> n"
      "rest (sfile st) = bs @ rest f'" "bs = [] \<longrightarrow> rest (sfile st) = []"
    using read_ok by blast
  moreover have "log f' = l" using read_log [OF _ n r(1)] st by auto
  ultimately show "\<exists>bs f'. stream_read F n st = Some (Some bs, f') \<and>
      (valid (sfile f') \<and> obuf f' = [] \<and> log (sfile f') = l) \<and> length bs \<le> n \<and>
      rest (sfile st) = bs @ rest (sfile f') \<and> (bs = [] \<longrightarrow> rest (sfile st) = [])"
    using st by (intro exI [of _ bs] exI [of _ "st\<lparr>sfile := f'\<rparr>"]) (simp add: stream_read_def)
qed

end
