(* ===== verification/Slist.thy ===== *)
theory Slist
  imports C_Memory
begin

text \<open>
  The singly-linked lists of \<^verbatim>\<open>server/src/queue.h\<close> (the \<open>SLIST_*\<close> macros). An element is a
  record with its payload and the embedded link \<open>sle_next\<close>; elements live on a heap of their own,
  a list is its head. A macro that follows or writes a link of \<open>NULL\<close> or of a freed element has
  no defined outcome (\<open>None\<close>). The abstraction \<open>chain\<close> relates a pointer to the list of the
  addresses it leads through; every macro is shown to refine the list operation it stands for.
\<close>

subsection \<open>Declarations\<close>

record slist_head =
  slh_first :: ptr

record 'a slist_elem =
  payload :: 'a
  sle_next :: ptr

type_synonym 'a slist_heap = "nat \<rightharpoonup> 'a slist_elem"

subsection \<open>Macros\<close>

definition SLIST_HEAD_INITIALIZER :: slist_head where
  "SLIST_HEAD_INITIALIZER = \<lparr>slh_first = NULL\<rparr>"

definition SLIST_FIRST :: "slist_head \<Rightarrow> ptr" where
  "SLIST_FIRST head = slh_first head"

definition SLIST_EMPTY :: "slist_head \<Rightarrow> bool" where
  "SLIST_EMPTY head = (slh_first head = NULL)"

fun SLIST_NEXT :: "'a slist_heap \<Rightarrow> ptr \<Rightarrow> ptr option" where
  "SLIST_NEXT h NULL = None"
| "SLIST_NEXT h (Ptr a) = map_option sle_next (h a)"

text \<open>\<open>SLIST_NEXT(elm, field) = q\<close>\<close>

fun set_next :: "ptr \<Rightarrow> ptr \<Rightarrow> 'a slist_heap \<Rightarrow> 'a slist_heap option" where
  "set_next NULL q h = None"
| "set_next (Ptr a) q h = (case h a of None \<Rightarrow> None | Some e \<Rightarrow> Some (h(a \<mapsto> e\<lparr>sle_next := q\<rparr>)))"

definition SLIST_INIT :: "slist_head \<Rightarrow> slist_head" where
  "SLIST_INIT head = head\<lparr>slh_first := NULL\<rparr>"

definition SLIST_INSERT_HEAD :: "slist_head \<Rightarrow> ptr \<Rightarrow> 'a slist_heap \<Rightarrow> (slist_head \<times> 'a slist_heap) option" where
  "SLIST_INSERT_HEAD head elm h = do {
     h \<leftarrow> set_next elm (SLIST_FIRST head) h;
     Some (head\<lparr>slh_first := elm\<rparr>, h)
   }"

definition SLIST_INSERT_AFTER :: "ptr \<Rightarrow> ptr \<Rightarrow> 'a slist_heap \<Rightarrow> 'a slist_heap option" where
  "SLIST_INSERT_AFTER slistelm elm h = do {
     q \<leftarrow> SLIST_NEXT h slistelm;
     h \<leftarrow> set_next elm q h;
     set_next slistelm elm h
   }"

definition SLIST_REMOVE_HEAD :: "slist_head \<Rightarrow> 'a slist_heap \<Rightarrow> slist_head option" where
  "SLIST_REMOVE_HEAD head h = do {
     q \<leftarrow> SLIST_NEXT h (SLIST_FIRST head);
     Some (head\<lparr>slh_first := q\<rparr>)
   }"

definition SLIST_REMOVE_AFTER :: "ptr \<Rightarrow> 'a slist_heap \<Rightarrow> 'a slist_heap option" where
  "SLIST_REMOVE_AFTER elm h = do {
     q \<leftarrow> SLIST_NEXT h elm;
     r \<leftarrow> SLIST_NEXT h q;
     set_next elm r h
   }"

text \<open>\<open>while (SLIST_NEXT(curelm, field) != (elm)) curelm = SLIST_NEXT(curelm, field)\<close>; with \<open>NULL\<close>
  as \<open>elm\<close> it is also the loop of \<open>SLIST_CONCAT\<close> that walks to the last element.\<close>

partial_function (option) seek_before :: "'a slist_heap \<Rightarrow> ptr \<Rightarrow> ptr \<Rightarrow> ptr option" where
  "seek_before h elm curelm = do {
     q \<leftarrow> SLIST_NEXT h curelm;
     if q \<noteq> elm then seek_before h elm q else Some curelm
   }"

definition SLIST_REMOVE :: "slist_head \<Rightarrow> ptr \<Rightarrow> 'a slist_heap \<Rightarrow> (slist_head \<times> 'a slist_heap) option" where
  "SLIST_REMOVE head elm h =
     (if SLIST_FIRST head = elm
      then do { head \<leftarrow> SLIST_REMOVE_HEAD head h; Some (head, h) }
      else do {
        curelm \<leftarrow> seek_before h elm (SLIST_FIRST head);
        h \<leftarrow> SLIST_REMOVE_AFTER curelm h;
        Some (head, h)
      })"

definition SLIST_CONCAT ::
  "slist_head \<Rightarrow> slist_head \<Rightarrow> 'a slist_heap \<Rightarrow> (slist_head \<times> slist_head \<times> 'a slist_heap) option" where
  "SLIST_CONCAT head1 head2 h =
     (if SLIST_FIRST head1 = NULL
      then let head1 = head1\<lparr>slh_first := SLIST_FIRST head2\<rparr>
           in Some (head1, if SLIST_FIRST head1 \<noteq> NULL then SLIST_INIT head2 else head2, h)
      else if SLIST_FIRST head2 \<noteq> NULL
      then do {
        curelm \<leftarrow> seek_before h NULL (SLIST_FIRST head1);
        h \<leftarrow> set_next curelm (SLIST_FIRST head2) h;
        Some (head1, SLIST_INIT head2, h)
      }
      else Some (head1, head2, h))"

definition SLIST_SWAP :: "slist_head \<Rightarrow> slist_head \<Rightarrow> slist_head \<times> slist_head" where
  "SLIST_SWAP head1 head2 =
     (let swap_first = SLIST_FIRST head1
      in (head1\<lparr>slh_first := SLIST_FIRST head2\<rparr>, head2\<lparr>slh_first := swap_first\<rparr>))"

text \<open>The iteration macros around a loop body. \<open>heap_of\<close> is the element heap in the body's state:
  the plain loop reads the link after the body, the safe one before it. The \<open>_FROM\<close> variants
  start at \<open>var\<close> if it is set, and \<open>SLIST_FOREACH\<close> is the variant with \<open>var\<close> unset.\<close>

partial_function (option) foreach_loop ::
  "('s \<Rightarrow> 'a slist_heap) \<Rightarrow> (nat \<Rightarrow> 's \<Rightarrow> 's option) \<Rightarrow> ptr \<Rightarrow> 's \<Rightarrow> 's option" where
  "foreach_loop heap_of body var s = (case var of NULL \<Rightarrow> Some s
     | Ptr a \<Rightarrow> do {
         s \<leftarrow> body a s;
         q \<leftarrow> SLIST_NEXT (heap_of s) var;
         foreach_loop heap_of body q s
       })"

partial_function (option) foreach_safe_loop ::
  "('s \<Rightarrow> 'a slist_heap) \<Rightarrow> (nat \<Rightarrow> 's \<Rightarrow> 's option) \<Rightarrow> ptr \<Rightarrow> 's \<Rightarrow> 's option" where
  "foreach_safe_loop heap_of body var s = (case var of NULL \<Rightarrow> Some s
     | Ptr a \<Rightarrow> do {
         tvar \<leftarrow> SLIST_NEXT (heap_of s) var;
         s \<leftarrow> body a s;
         foreach_safe_loop heap_of body tvar s
       })"

definition SLIST_FOREACH :: "('s \<Rightarrow> 'a slist_heap) \<Rightarrow> (nat \<Rightarrow> 's \<Rightarrow> 's option) \<Rightarrow> slist_head \<Rightarrow> 's \<Rightarrow> 's option" where
  "SLIST_FOREACH heap_of body head s = foreach_loop heap_of body (SLIST_FIRST head) s"

definition SLIST_FOREACH_FROM ::
  "('s \<Rightarrow> 'a slist_heap) \<Rightarrow> (nat \<Rightarrow> 's \<Rightarrow> 's option) \<Rightarrow> ptr \<Rightarrow> slist_head \<Rightarrow> 's \<Rightarrow> 's option" where
  "SLIST_FOREACH_FROM heap_of body var head s =
     foreach_loop heap_of body (if var \<noteq> NULL then var else SLIST_FIRST head) s"

definition SLIST_FOREACH_SAFE :: "('s \<Rightarrow> 'a slist_heap) \<Rightarrow> (nat \<Rightarrow> 's \<Rightarrow> 's option) \<Rightarrow> slist_head \<Rightarrow> 's \<Rightarrow> 's option" where
  "SLIST_FOREACH_SAFE heap_of body head s = foreach_safe_loop heap_of body (SLIST_FIRST head) s"

definition SLIST_FOREACH_FROM_SAFE ::
  "('s \<Rightarrow> 'a slist_heap) \<Rightarrow> (nat \<Rightarrow> 's \<Rightarrow> 's option) \<Rightarrow> ptr \<Rightarrow> slist_head \<Rightarrow> 's \<Rightarrow> 's option" where
  "SLIST_FOREACH_FROM_SAFE heap_of body var head s =
     foreach_safe_loop heap_of body (if var \<noteq> NULL then var else SLIST_FIRST head) s"

text \<open>\<open>SLIST_FOREACH_PREVPTR\<close> also hands the body the address of the link that leads to the element:
  that of the head (\<open>None\<close>) or of the element before it. \<open>head_of\<close> is the head in the body's state.\<close>

fun slist_deref :: "slist_head \<Rightarrow> 'a slist_heap \<Rightarrow> nat option \<Rightarrow> ptr option" where
  "slist_deref head h None = Some (SLIST_FIRST head)"
| "slist_deref head h (Some a) = SLIST_NEXT h (Ptr a)"

partial_function (option) SLIST_FOREACH_PREVPTR ::
  "('s \<Rightarrow> slist_head) \<Rightarrow> ('s \<Rightarrow> 'a slist_heap) \<Rightarrow> (nat option \<Rightarrow> nat \<Rightarrow> 's \<Rightarrow> 's option) \<Rightarrow> nat option \<Rightarrow> 's \<Rightarrow> 's option" where
  "SLIST_FOREACH_PREVPTR head_of heap_of body varp s = do {
     var \<leftarrow> slist_deref (head_of s) (heap_of s) varp;
     case var of NULL \<Rightarrow> Some s
     | Ptr a \<Rightarrow> do {
         s \<leftarrow> body varp a s;
         SLIST_FOREACH_PREVPTR head_of heap_of body (Some a) s
       }
   }"

subsection \<open>Abstraction\<close>

fun chain :: "'a slist_heap \<Rightarrow> ptr \<Rightarrow> nat list \<Rightarrow> bool" where
  "chain h p [] \<longleftrightarrow> p = NULL"
| "chain h p (x # xs) \<longleftrightarrow> p = Ptr x \<and> (\<exists>e. h x = Some e \<and> chain h (sle_next e) xs)"

abbreviation slist :: "'a slist_heap \<Rightarrow> slist_head \<Rightarrow> nat list \<Rightarrow> bool" where
  "slist h head xs \<equiv> chain h (SLIST_FIRST head) xs"

lemma chain_NULL [simp]: "chain h NULL xs \<longleftrightarrow> xs = []"
  by (cases xs) auto

lemma chain_unique: "chain h p xs \<Longrightarrow> chain h p ys \<Longrightarrow> xs = ys"
proof (induction xs arbitrary: p ys)
  case (Cons x xs)
  then show ?case by (cases ys) auto
qed simp

lemma chain_suffix: "chain h p (xs @ x # ys) \<Longrightarrow> chain h (Ptr x) (x # ys)"
  by (induction xs arbitrary: p) auto

lemma chain_distinct: "chain h p xs \<Longrightarrow> distinct xs"
proof (induction xs arbitrary: p)
  case (Cons x xs)
  then obtain e where e: "h x = Some e" "chain h (sle_next e) xs" by auto
  have "x \<notin> set xs"
  proof
    assume "x \<in> set xs"
    then obtain us vs where "xs = us @ x # vs" by (meson split_list)
    then show False
      using chain_suffix [of h "sle_next e" us x vs] chain_unique [of h "Ptr x" "x # xs" "x # vs"] e Cons.prems by simp
  qed
  with Cons.IH e show ?case by simp
qed simp

lemma chain_in_dom: "chain h p xs \<Longrightarrow> set xs \<subseteq> dom h"
  by (induction xs arbitrary: p) auto

lemma chain_cong: "(\<And>x. x \<in> set xs \<Longrightarrow> h' x = h x) \<Longrightarrow> chain h' p xs = chain h p xs"
  by (induction xs arbitrary: p) auto

text \<open>A chain depends on the links only, not on the payloads.\<close>

lemma chain_links: "(\<And>x. map_option sle_next (h' x) = map_option sle_next (h x)) \<Longrightarrow> chain h' p xs = chain h p xs"
proof (induction xs arbitrary: p)
  case (Cons x xs)
  have "map_option sle_next (h' x) = map_option sle_next (h x)" by (rule Cons.prems)
  then show ?case using Cons.IH [OF Cons.prems] by (cases "h x"; cases "h' x") auto
qed simp

lemma chain_update [simp]: "x \<notin> set xs \<Longrightarrow> chain (h(x := v)) p xs = chain h p xs"
  by (rule chain_cong) auto

text \<open>A chain from \<open>p\<close> to \<open>q\<close>: the elements before a given point.\<close>

fun seg :: "'a slist_heap \<Rightarrow> ptr \<Rightarrow> nat list \<Rightarrow> ptr \<Rightarrow> bool" where
  "seg h p [] q \<longleftrightarrow> p = q"
| "seg h p (x # xs) q \<longleftrightarrow> p = Ptr x \<and> (\<exists>e. h x = Some e \<and> seg h (sle_next e) xs q)"

lemma chain_append: "chain h p (xs @ ys) \<longleftrightarrow> (\<exists>q. seg h p xs q \<and> chain h q ys)"
  by (induction xs arbitrary: p) auto

lemma seg_append: "seg h p (xs @ ys) q \<longleftrightarrow> (\<exists>r. seg h p xs r \<and> seg h r ys q)"
  by (induction xs arbitrary: p) auto

lemma seg_update [simp]: "x \<notin> set xs \<Longrightarrow> seg (h(x := v)) p xs q = seg h p xs q"
  by (induction xs arbitrary: p) auto


text \<open>The macros change links only: the same elements exist with the same payloads.\<close>

definition same_elems :: "'a slist_heap \<Rightarrow> 'a slist_heap \<Rightarrow> bool" where
  "same_elems h h' \<longleftrightarrow> (\<forall>x. map_option payload (h' x) = map_option payload (h x))"

lemma same_elems_refl [simp]: "same_elems h h"
  by (simp add: same_elems_def)

lemma same_elems_trans: "same_elems h h' \<Longrightarrow> same_elems h' h'' \<Longrightarrow> same_elems h h''"
  by (simp add: same_elems_def)

lemma set_next_Ptr: "h a = Some e \<Longrightarrow> set_next (Ptr a) q h = Some (h(a \<mapsto> e\<lparr>sle_next := q\<rparr>))"
  by simp

lemma same_elems_link: "h a = Some e \<Longrightarrow> same_elems h (h(a \<mapsto> e\<lparr>sle_next := q\<rparr>))"
  by (simp add: same_elems_def)

subsection \<open>The macros refine list operations\<close>

lemma SLIST_INIT_spec: "slist h (SLIST_INIT head) []"
  by (simp add: SLIST_INIT_def SLIST_FIRST_def)

lemma SLIST_EMPTY_spec: "slist h head xs \<Longrightarrow> SLIST_EMPTY head \<longleftrightarrow> xs = []"
  by (cases xs) (auto simp: SLIST_EMPTY_def SLIST_FIRST_def)

lemma SLIST_FIRST_spec: "slist h head (x # xs) \<Longrightarrow> SLIST_FIRST head = Ptr x"
  by simp

lemma SLIST_INSERT_HEAD_spec:
  assumes "slist h head xs" and "h a = Some e" and "a \<notin> set xs"
  shows "\<exists>head' h'. SLIST_INSERT_HEAD head (Ptr a) h = Some (head', h') \<and> slist h' head' (a # xs) \<and>
    h' = h(a \<mapsto> e\<lparr>sle_next := SLIST_FIRST head\<rparr>)"
  using assms by (auto simp: SLIST_INSERT_HEAD_def SLIST_FIRST_def)

lemma SLIST_REMOVE_HEAD_spec:
  assumes "slist h head (x # xs)"
  shows "\<exists>head'. SLIST_REMOVE_HEAD head h = Some head' \<and> slist h head' xs"
  using assms by (auto simp: SLIST_REMOVE_HEAD_def SLIST_FIRST_def)

lemma SLIST_INSERT_AFTER_spec:
  assumes "chain h p (us @ x # vs)" and "h a = Some e" and "a \<notin> set (us @ x # vs)"
  shows "\<exists>h'. SLIST_INSERT_AFTER (Ptr x) (Ptr a) h = Some h' \<and> chain h' p (us @ x # a # vs) \<and> same_elems h h'"
proof -
  obtain ex where x: "h x = Some ex" "seg h p us (Ptr x)" "chain h (sle_next ex) vs"
    using assms(1) by (auto simp: chain_append)
  have d: "x \<notin> set us" "x \<notin> set vs"
    using chain_distinct [OF assms(1)] by auto
  show ?thesis
    using assms(2,3) x d
    by (auto simp: SLIST_INSERT_AFTER_def chain_append same_elems_def)
qed

lemma SLIST_REMOVE_AFTER_spec:
  assumes "chain h p (us @ x # a # vs)"
  shows "\<exists>h'. SLIST_REMOVE_AFTER (Ptr x) h = Some h' \<and> chain h' p (us @ x # vs) \<and> same_elems h h'"
proof -
  obtain ex ea where x: "h x = Some ex" "seg h p us (Ptr x)" "sle_next ex = Ptr a" "h a = Some ea" "chain h (sle_next ea) vs"
    using assms by (auto simp: chain_append)
  have d: "x \<notin> set us" "x \<notin> set vs"
    using chain_distinct [OF assms] by auto
  show ?thesis
    using x d by (auto simp: SLIST_REMOVE_AFTER_def chain_append same_elems_def)
qed

text \<open>The search stops at the element whose link is the one sought.\<close>

lemma seek_before_found:
  "seg h p (us @ [c]) q \<Longrightarrow> q \<notin> Ptr ` set (us @ [c]) \<Longrightarrow> seek_before h q p = Some (Ptr c)"
proof (induction us arbitrary: p)
  case Nil
  then show ?case by (subst seek_before.simps) auto
next
  case (Cons u us)
  then obtain e where e: "p = Ptr u" "h u = Some e" "seg h (sle_next e) (us @ [c]) q" by auto
  then have "sle_next e \<in> Ptr ` set (us @ [c])" by (cases us) auto
  then have "sle_next e \<noteq> q" using Cons.prems(2) by auto
  with e Cons.IH [OF e(3)] Cons.prems(2) show ?case
    by (subst seek_before.simps) auto
qed

lemma seek_before_missing:
  "chain h p xs \<Longrightarrow> a \<notin> set xs \<Longrightarrow> seek_before h (Ptr a) p = None"
proof (induction xs arbitrary: p)
  case Nil
  then show ?case by (subst seek_before.simps) simp
next
  case (Cons x xs)
  then obtain e where e: "p = Ptr x" "h x = Some e" "chain h (sle_next e) xs" by auto
  then have "sle_next e \<noteq> Ptr a" using Cons.prems(2) by (cases xs) auto
  with e Cons.IH [OF e(3)] Cons.prems(2) show ?case
    by (subst seek_before.simps) simp
qed

lemma SLIST_REMOVE_first:
  assumes "slist h head (a # xs)"
  shows "\<exists>head'. SLIST_REMOVE head (Ptr a) h = Some (head', h) \<and> slist h head' xs"
  using SLIST_REMOVE_HEAD_spec [OF assms] assms by (auto simp: SLIST_REMOVE_def)

lemma SLIST_REMOVE_later:
  assumes "slist h head (us @ c # a # vs)"
  shows "\<exists>h'. SLIST_REMOVE head (Ptr a) h = Some (head, h') \<and> slist h' head (us @ c # vs) \<and> same_elems h h'"
proof -
  have d: "distinct (us @ c # a # vs)" using chain_distinct [OF assms] .
  have "seg h (SLIST_FIRST head) (us @ [c]) (Ptr a)"
    using assms by (auto simp: chain_append seg_append)
  then have "seek_before h (Ptr a) (SLIST_FIRST head) = Some (Ptr c)"
    by (rule seek_before_found) (use d in auto)
  moreover have "SLIST_FIRST head \<noteq> Ptr a"
    using assms d by (cases us) auto
  ultimately show ?thesis
    using SLIST_REMOVE_AFTER_spec [OF assms] by (auto simp: SLIST_REMOVE_def)
qed

lemma SLIST_REMOVE_missing:
  assumes "slist h head xs" and "a \<notin> set xs"
  shows "SLIST_REMOVE head (Ptr a) h = None"
proof -
  have "SLIST_FIRST head \<noteq> Ptr a" using assms by (cases xs) auto
  then show ?thesis using seek_before_missing [OF assms] by (simp add: SLIST_REMOVE_def)
qed


lemma SLIST_SWAP_spec:
  "slist h head1 xs \<Longrightarrow> slist h head2 ys \<Longrightarrow> SLIST_SWAP head1 head2 = (h1, h2) \<Longrightarrow> slist h h1 ys \<and> slist h h2 xs"
  by (auto simp: SLIST_SWAP_def SLIST_FIRST_def Let_def)

text \<open>Writing the link of the last element joins the two chains.\<close>

lemma chain_join:
  assumes "chain h p (us @ [c])" and "chain h q ys" and "set (us @ [c]) \<inter> set ys = {}"
  shows "\<exists>h'. set_next (Ptr c) q h = Some h' \<and> chain h' p (us @ c # ys) \<and> same_elems h h'"
proof -
  obtain e where e: "h c = Some e" "seg h p us (Ptr c)"
    using assms(1) by (auto simp: chain_append)
  have "c \<notin> set us" "c \<notin> set ys"
    using chain_distinct [OF assms(1)] assms(3) by auto
  with e assms(2) show ?thesis
    by (auto simp: chain_append same_elems_link)
qed

lemma SLIST_CONCAT_spec:
  assumes "slist h head1 xs" and "slist h head2 ys" and "set xs \<inter> set ys = {}"
  shows "\<exists>head1' head2' h'. SLIST_CONCAT head1 head2 h = Some (head1', head2', h') \<and>
    slist h' head1' (xs @ ys) \<and> slist h' head2' [] \<and> same_elems h h'"
proof (cases "xs = []")
  case True
  with assms show ?thesis
    by (auto simp: SLIST_CONCAT_def SLIST_INIT_def SLIST_FIRST_def Let_def)
next
  case False
  then obtain us c where xs: "xs = us @ [c]" by (meson rev_exhaust)
  have first: "SLIST_FIRST head1 \<noteq> NULL" using assms(1) xs by (cases us) auto
  show ?thesis
  proof (cases "SLIST_FIRST head2 = NULL")
    case True
    with assms first show ?thesis by (auto simp: SLIST_CONCAT_def)
  next
    case second: False
    have "seg h (SLIST_FIRST head1) (us @ [c]) NULL"
      using assms(1) xs by (auto simp: chain_append seg_append)
    then have "seek_before h NULL (SLIST_FIRST head1) = Some (Ptr c)"
      by (rule seek_before_found) auto
    moreover obtain h' where "set_next (Ptr c) (SLIST_FIRST head2) h = Some h'"
        "chain h' (SLIST_FIRST head1) (us @ c # ys)" "same_elems h h'"
      using chain_join [of h "SLIST_FIRST head1" us c "SLIST_FIRST head2" ys] assms xs by blast
    ultimately show ?thesis
      using first second xs by (auto simp: SLIST_CONCAT_def SLIST_INIT_def SLIST_FIRST_def)
  qed
qed

subsection \<open>Loops that work through a list\<close>

text \<open>
  The contract of a loop that takes the elements of a list one after the other: \<open>rep c xs\<close>
  says that configuration \<open>c\<close> has the elements \<open>xs\<close> ahead of it, and one round of the loop
  handles the first of them and leaves the rest ahead. Every such loop ends and handles each
  element exactly once, in order.
\<close>

locale worklist_loop =
  fixes rep :: "'c \<Rightarrow> 'x list \<Rightarrow> bool"
    and handled :: "'c \<Rightarrow> 'x list"
    and result :: "'c \<Rightarrow> 'r"
    and round :: "'c \<Rightarrow> 'c option"
    and loop :: "'c \<Rightarrow> 'r option"
  assumes loop_done: "rep c [] \<Longrightarrow> loop c = Some (result c)"
    and loop_round: "rep c (x # xs) \<Longrightarrow> loop c = Option.bind (round c) loop"
    and round_ok: "rep c (x # xs) \<Longrightarrow> \<exists>c'. round c = Some c' \<and> rep c' xs \<and> handled c' = handled c @ [x]"
begin

lemma loop_handles_all:
  "rep c xs \<Longrightarrow> \<exists>c'. loop c = Some (result c') \<and> rep c' [] \<and> handled c' = handled c @ xs"
proof (induction xs arbitrary: c)
  case Nil
  then show ?case using loop_done by auto
next
  case (Cons x xs)
  obtain c1 where c1: "round c = Some c1" "rep c1 xs" "handled c1 = handled c @ [x]"
    using round_ok [OF Cons.prems] by blast
  then show ?case
    using loop_round [OF Cons.prems] Cons.IH [OF c1(2)] by auto
qed

end

text \<open>Two bodies for the iteration macros, over an element heap and the list of elements seen:
  one only looks, one releases the element.\<close>

type_synonym 'a visit_state = "'a slist_heap \<times> nat list"

fun visit :: "nat \<Rightarrow> 'a visit_state \<Rightarrow> 'a visit_state option" where
  "visit a (h, seen) = Some (h, seen @ [a])"

fun visit_free :: "nat \<Rightarrow> 'a visit_state \<Rightarrow> 'a visit_state option" where
  "visit_free a (h, seen) = (case h a of None \<Rightarrow> None | Some _ \<Rightarrow> Some (h(a := None), seen @ [a]))"

fun visit_round :: "ptr \<times> 'a visit_state \<Rightarrow> (ptr \<times> 'a visit_state) option" where
  "visit_round (NULL, s) = None"
| "visit_round (Ptr a, s) = do { s \<leftarrow> visit a s; q \<leftarrow> SLIST_NEXT (fst s) (Ptr a); Some (q, s) }"

fun visit_free_round :: "ptr \<times> 'a visit_state \<Rightarrow> (ptr \<times> 'a visit_state) option" where
  "visit_free_round (NULL, s) = None"
| "visit_free_round (Ptr a, s) = do { q \<leftarrow> SLIST_NEXT (fst s) (Ptr a); s \<leftarrow> visit_free a s; Some (q, s) }"

definition visit_rep :: "'a slist_heap \<Rightarrow> ptr \<times> 'a visit_state \<Rightarrow> nat list \<Rightarrow> bool" where
  "visit_rep h c xs \<longleftrightarrow> fst (snd c) = h \<and> chain h (fst c) xs"

definition visit_free_rep :: "'a slist_heap \<Rightarrow> ptr \<times> 'a visit_state \<Rightarrow> nat list \<Rightarrow> bool" where
  "visit_free_rep h c xs \<longleftrightarrow> (\<exists>seen. fst (snd c) = h |` (- set seen) \<and> snd (snd c) = seen) \<and> chain (fst (snd c)) (fst c) xs"

interpretation visiting: worklist_loop "visit_rep h" "\<lambda>c. snd (snd c)" snd visit_round
    "\<lambda>c. foreach_loop fst visit (fst c) (snd c)"
proof unfold_locales
  fix c :: "ptr \<times> 'a visit_state"
  assume "visit_rep h c []"
  then show "foreach_loop fst visit (fst c) (snd c) = Some (snd c)"
    by (subst foreach_loop.simps) (simp add: visit_rep_def)
next
  fix c :: "ptr \<times> 'a visit_state" and x xs
  assume r: "visit_rep h c (x # xs)"
  obtain p g seen where c: "c = (p, g, seen)" by (cases c)
  show "foreach_loop fst visit (fst c) (snd c) =
      Option.bind (visit_round c) (\<lambda>c. foreach_loop fst visit (fst c) (snd c))"
    using r by (subst foreach_loop.simps) (auto simp: c visit_rep_def)
  show "\<exists>c'. visit_round c = Some c' \<and> visit_rep h c' xs \<and> snd (snd c') = snd (snd c) @ [x]"
    using r by (auto simp: c visit_rep_def)
qed

interpretation releasing: worklist_loop "visit_free_rep h" "\<lambda>c. snd (snd c)" snd visit_free_round
    "\<lambda>c. foreach_safe_loop fst visit_free (fst c) (snd c)"
proof unfold_locales
  fix c :: "ptr \<times> 'a visit_state"
  assume "visit_free_rep h c []"
  then show "foreach_safe_loop fst visit_free (fst c) (snd c) = Some (snd c)"
    by (subst foreach_safe_loop.simps) (simp add: visit_free_rep_def)
next
  fix c :: "ptr \<times> 'a visit_state" and x xs
  assume r: "visit_free_rep h c (x # xs)"
  obtain p g seen where c: "c = (p, g, seen)" by (cases c)
  obtain e where e: "p = Ptr x" "g x = Some e" "chain g (sle_next e) xs" "g = h |` (- set seen)"
    using r by (auto simp: c visit_free_rep_def)
  have "x \<notin> set xs"
    using chain_distinct [of g p "x # xs"] e by simp
  then have "chain (g(x := None)) (sle_next e) xs"
    using e(3) by simp
  moreover have "g(x := None) = h |` (- set (seen @ [x]))"
    by (auto simp: e(4) restrict_map_def fun_eq_iff)
  ultimately have "visit_free_round c = Some (sle_next e, g(x := None), seen @ [x])"
      "visit_free_rep h (sle_next e, g(x := None), seen @ [x]) xs"
    using e(1-3) by (simp_all add: c visit_free_rep_def)
  then show "\<exists>c'. visit_free_round c = Some c' \<and> visit_free_rep h c' xs \<and> snd (snd c') = snd (snd c) @ [x]"
    by (simp add: c)
  show "foreach_safe_loop fst visit_free (fst c) (snd c) =
      Option.bind (visit_free_round c) (\<lambda>c. foreach_safe_loop fst visit_free (fst c) (snd c))"
    using e(1-3) by (subst foreach_safe_loop.simps) (simp add: c)
qed


lemma SLIST_FOREACH_visits:
  assumes "slist h head xs"
  shows "SLIST_FOREACH fst visit head (h, seen) = Some (h, seen @ xs)"
proof -
  have "visit_rep h (SLIST_FIRST head, h, seen) xs" using assms by (simp add: visit_rep_def)
  from visiting.loop_handles_all [OF this] show ?thesis
    by (auto simp: SLIST_FOREACH_def visit_rep_def)
qed

lemma SLIST_FOREACH_FROM_visits:
  assumes "slist h head (us @ x # vs)"
  shows "SLIST_FOREACH_FROM fst visit (Ptr x) head (h, seen) = Some (h, seen @ x # vs)"
    and "SLIST_FOREACH_FROM fst visit NULL head (h, seen) = Some (h, seen @ us @ x # vs)"
proof -
  have "visit_rep h (Ptr x, h, seen) (x # vs)"
    using chain_suffix [OF assms] by (simp add: visit_rep_def)
  from visiting.loop_handles_all [OF this]
  show "SLIST_FOREACH_FROM fst visit (Ptr x) head (h, seen) = Some (h, seen @ x # vs)"
    by (auto simp: SLIST_FOREACH_FROM_def visit_rep_def)
  show "SLIST_FOREACH_FROM fst visit NULL head (h, seen) = Some (h, seen @ us @ x # vs)"
    using SLIST_FOREACH_visits [OF assms] by (simp add: SLIST_FOREACH_FROM_def SLIST_FOREACH_def)
qed

text \<open>The loop with the address of the link: each element comes with the one before it, and the
  link it is given leads to it.\<close>

fun note_link :: "nat option \<Rightarrow> nat \<Rightarrow> (slist_head \<times> 'a slist_heap) \<times> (nat option \<times> nat) list \<Rightarrow>
    ((slist_head \<times> 'a slist_heap) \<times> (nat option \<times> nat) list) option" where
  "note_link varp a (m, seen) = Some (m, seen @ [(varp, a)])"

lemma SLIST_FOREACH_PREVPTR_visits:
  "slist_deref head h varp = Some p \<Longrightarrow> chain h p xs \<Longrightarrow>
    SLIST_FOREACH_PREVPTR (fst \<circ> fst) (snd \<circ> fst) note_link varp ((head, h), seen) =
      Some ((head, h), seen @ zip (varp # map Some xs) xs)"
proof (induction xs arbitrary: varp p seen)
  case Nil
  then show ?case by (subst SLIST_FOREACH_PREVPTR.simps) simp
next
  case (Cons x xs)
  then obtain e where "p = Ptr x" "h x = Some e" "chain h (sle_next e) xs" by auto
  then show ?case
    using Cons.prems(1) Cons.IH [of "Some x" "sle_next e" "seen @ [(varp, x)]"]
    by (subst SLIST_FOREACH_PREVPTR.simps) (simp add: comp_def)
qed

lemma foreach_safe_releases:
  assumes "chain h p xs"
  shows "foreach_safe_loop fst visit_free p (h, []) = Some (h |` (- set xs), xs)"
proof -
  have "visit_free_rep h (p, h, []) xs"
    using assms by (simp add: visit_free_rep_def restrict_map_def)
  from releasing.loop_handles_all [OF this] show ?thesis
    by (auto simp: visit_free_rep_def)
qed

lemma SLIST_FOREACH_SAFE_releases:
  "slist h head xs \<Longrightarrow> SLIST_FOREACH_SAFE fst visit_free head (h, []) = Some (h |` (- set xs), xs)"
  by (simp add: SLIST_FOREACH_SAFE_def foreach_safe_releases)

lemma SLIST_FOREACH_FROM_SAFE_releases:
  "slist h head (us @ x # vs) \<Longrightarrow>
   SLIST_FOREACH_FROM_SAFE fst visit_free (Ptr x) head (h, []) = Some (h |` (- set (x # vs)), x # vs)"
  using foreach_safe_releases [OF chain_suffix] by (fastforce simp: SLIST_FOREACH_FROM_SAFE_def)

text \<open>The plain loop must not release its element: it reads the link of the released one.\<close>

lemma foreach_free_faults: "slist h head (x # xs) \<Longrightarrow> SLIST_FOREACH fst visit_free head (h, []) = None"
  by (subst SLIST_FOREACH_def, subst foreach_loop.simps) auto

subsection \<open>Properties\<close>

text \<open>\<open>SLIST_REMOVE\<close> takes exactly the given element out of the list: the search loop ends, the
  remaining elements keep their order, no element is created, lost or changed but for its link.
  For an element that is not on the list the macro runs off the end of it and has no defined
  outcome.\<close>

lemma slist_remove_correct:
  assumes "slist h head xs"
  shows "if a \<in> set xs
    then \<exists>head' h'. SLIST_REMOVE head (Ptr a) h = Some (head', h') \<and> slist h' head' (remove1 a xs) \<and> same_elems h h'
    else SLIST_REMOVE head (Ptr a) h = None"
proof (cases "a \<in> set xs")
  case True
  then obtain us vs where xs: "xs = us @ a # vs" "a \<notin> set us"
    by (meson split_list_first)
  show ?thesis
  proof (cases us rule: rev_cases)
    case Nil
    then show ?thesis
      using SLIST_REMOVE_first [of h head a vs] assms xs by fastforce
  next
    case (snoc ws c)
    then show ?thesis
      using SLIST_REMOVE_later [of h head ws c a vs] assms xs by (force simp: remove1_append)
  qed
next
  case False
  then show ?thesis using SLIST_REMOVE_missing [OF assms] by simp
qed

text \<open>Three linked elements, at addresses 7, 3 and 5.\<close>

definition sample_slist :: "unit slist_heap" where
  "sample_slist = [7 \<mapsto> \<lparr>payload = (), sle_next = Ptr 3\<rparr>, 3 \<mapsto> \<lparr>payload = (), sle_next = Ptr 5\<rparr>, 5 \<mapsto> \<lparr>payload = (), sle_next = NULL\<rparr>]"

lemma sample_slist_chain: "slist sample_slist \<lparr>slh_first = Ptr 7\<rparr> [7, 3, 5]"
  by (simp add: sample_slist_def SLIST_FIRST_def)

lemma slist_remove_correct_witness:
  "if (3 :: nat) \<in> set [7, 3, 5]
    then \<exists>head' h'. SLIST_REMOVE \<lparr>slh_first = Ptr 7\<rparr> (Ptr 3) sample_slist = Some (head', h') \<and>
      slist h' head' (remove1 3 [7, 3, 5]) \<and> same_elems sample_slist h'
    else SLIST_REMOVE \<lparr>slh_first = Ptr 7\<rparr> (Ptr 3) sample_slist = None"
  by (rule slist_remove_correct [OF sample_slist_chain])

text \<open>\<open>SLIST_CONCAT\<close> of two lists without common elements appends the second to the first and leaves
  the second empty; no element is created, lost or changed but for its link.\<close>

lemma slist_concat_correct:
  assumes "slist h head1 xs" and "slist h head2 ys" and "set xs \<inter> set ys = {}"
  shows "\<exists>head1' head2' h'. SLIST_CONCAT head1 head2 h = Some (head1', head2', h') \<and>
    slist h' head1' (xs @ ys) \<and> slist h' head2' [] \<and> same_elems h h'"
  by (rule SLIST_CONCAT_spec [OF assms])

lemma slist_concat_correct_witness:
  "\<exists>head1' head2' h'. SLIST_CONCAT \<lparr>slh_first = Ptr 7\<rparr> \<lparr>slh_first = Ptr 9\<rparr>
      (sample_slist(9 \<mapsto> \<lparr>payload = (), sle_next = NULL\<rparr>)) = Some (head1', head2', h') \<and>
    slist h' head1' ([7, 3, 5] @ [9]) \<and> slist h' head2' [] \<and>
    same_elems (sample_slist(9 \<mapsto> \<lparr>payload = (), sle_next = NULL\<rparr>)) h'"
  by (rule slist_concat_correct) (use sample_slist_chain in \<open>simp_all add: SLIST_FIRST_def\<close>)

text \<open>Iterating over a list and releasing every element works with \<open>SLIST_FOREACH_SAFE\<close>: it ends, handles each
  element exactly once in list order and leaves everything off the list alone. With the plain
  \<open>SLIST_FOREACH\<close> the same body has no defined outcome on any non-empty list.\<close>

lemma slist_foreach_safe_releases:
  assumes "slist h head xs"
  shows "SLIST_FOREACH_SAFE fst visit_free head (h, []) = Some (h |` (- set xs), xs) \<and>
    (SLIST_FOREACH fst visit_free head (h, []) = None \<longleftrightarrow> xs \<noteq> [])"
proof (cases xs)
  case Nil
  then have "SLIST_FOREACH fst visit_free head (h, []) = Some (h, [])"
    using assms by (simp add: SLIST_FOREACH_def foreach_loop.simps)
  with Nil assms show ?thesis by (simp add: SLIST_FOREACH_SAFE_releases)
next
  case (Cons x ys)
  then show ?thesis
    using assms foreach_free_faults SLIST_FOREACH_SAFE_releases by blast
qed

lemma slist_foreach_safe_releases_witness:
  "SLIST_FOREACH_SAFE fst visit_free \<lparr>slh_first = Ptr 7\<rparr> (sample_slist, []) = Some (sample_slist |` (- set [7, 3, 5]), [7, 3, 5]) \<and>
    (SLIST_FOREACH fst visit_free \<lparr>slh_first = Ptr 7\<rparr> (sample_slist, []) = None \<longleftrightarrow> [7, 3, 5 :: nat] \<noteq> [])"
  by (rule slist_foreach_safe_releases [OF sample_slist_chain])

end
