(* ===== verification/Connection_Manager.thy ===== *)
theory Connection_Manager
  imports File_Stream Slist
begin

text \<open>
  The connection manager, \<^verbatim>\<open>server/src/connection_manager.c\<close> as built with
  \<open>USE_AESD_CHAR_DEVICE\<close> (the Makefile's setting): the list of running connections, the handling
  of one message, and the routine that each connection's thread runs. Threads are what the
  program can see of them: \<open>pthread_create\<close> gives a thread or fails, \<open>pthread_join\<close> returns once
  the thread has ended and blocks for ever (\<open>None\<close>) if it never does.
\<close>

subsection \<open>State\<close>

record connection_ctx =
  manager :: ptr
  connection :: ptr
  thread :: nat

text \<open>The list link \<open>nodes\<close> of a \<open>connection_ctx_t\<close> is the \<open>sle_next\<close> of its list element.\<close>

type_synonym ctx_heap = "connection_ctx slist_heap"

record connection_manager =
  filename :: ptr
  file_mutex :: mutex_state
  close_connections :: bool
  connection_ctx_list :: slist_head

record pthreads =
  pthread_create :: "nat list \<Rightarrow> nat option"
  ends :: "nat \<Rightarrow> bool"

record mstate =
  mp :: pstate
  ctxs :: ctx_heap
  managers :: "nat \<rightharpoonup> connection_manager"
  started :: "nat list"
  joined :: "nat list"

definition pthread_join :: "pthreads \<Rightarrow> nat \<Rightarrow> mstate \<Rightarrow> mstate option" where
  "pthread_join T tid s = (if ends T tid then Some (s\<lparr>joined := joined s @ [tid]\<rparr>) else None)"

subsection \<open>Creating, registering, destroying\<close>

text \<open>Neither \<open>malloc\<close> is checked: without memory the first write through the pointer faults.\<close>

definition connection_manager_create :: "libc \<Rightarrow> byte list \<Rightarrow> mstate \<Rightarrow> (ptr \<times> mstate) option" where
  "connection_manager_create L fname s =
     (case malloc_struct L (dom (managers s)) of NULL \<Rightarrow> None
      | Ptr m \<Rightarrow> do {
          let (str, h) = malloc L (length fname + 1) (pheap (mp s));
          h \<leftarrow> store_bytes str 0 (fname @ [nul]) h;
          Some (Ptr m, s\<lparr>mp := (mp s)\<lparr>pheap := h\<rparr>,
            managers := (managers s)(m \<mapsto> \<lparr>filename = str, file_mutex = Unlocked, close_connections = False,
              connection_ctx_list = SLIST_INIT \<lparr>slh_first = NULL\<rparr>\<rparr>)\<rparr>)
        })"

partial_function (option) destroy_loop :: "pthreads \<Rightarrow> nat \<Rightarrow> mstate \<Rightarrow> mstate option" where
  "destroy_loop T m s = do {
     mgr \<leftarrow> managers s m;
     if SLIST_EMPTY (connection_ctx_list mgr) then Some s
     else (case SLIST_FIRST (connection_ctx_list mgr) of NULL \<Rightarrow> None
       | Ptr c \<Rightarrow> do {
           e \<leftarrow> ctxs s c;
           s \<leftarrow> pthread_join T (thread (payload e)) s;
           head \<leftarrow> SLIST_REMOVE_HEAD (connection_ctx_list mgr) (ctxs s);
           destroy_loop T m (s\<lparr>managers := (managers s)(m \<mapsto> mgr\<lparr>connection_ctx_list := head\<rparr>), ctxs := (ctxs s)(c := None)\<rparr>)
         })
   }"

fun connection_manager_destroy :: "pthreads \<Rightarrow> ptr \<Rightarrow> mstate \<Rightarrow> mstate option" where
  "connection_manager_destroy T NULL s = Some s"
| "connection_manager_destroy T (Ptr m) s = do {
     mgr \<leftarrow> managers s m;
     s \<leftarrow> destroy_loop T m (s\<lparr>managers := (managers s)(m \<mapsto> mgr\<lparr>close_connections := True\<rparr>)\<rparr>);
     mgr \<leftarrow> managers s m;
     h \<leftarrow> cfree (filename mgr) (pheap (mp s));
     Some (s\<lparr>mp := (mp s)\<lparr>pheap := h\<rparr>, managers := (managers s)(m := None)\<rparr>)
   }"

definition connection_manager_register_connection ::
  "libc \<Rightarrow> pthreads \<Rightarrow> ptr \<Rightarrow> ptr \<Rightarrow> mstate \<Rightarrow> (bool \<times> mstate) option" where
  "connection_manager_register_connection L T mgr_ptr conn s =
     (case malloc_struct L (dom (ctxs s)) of NULL \<Rightarrow> None
      | Ptr c \<Rightarrow> (case mgr_ptr of NULL \<Rightarrow> None
        | Ptr m \<Rightarrow>
            let ctx = \<lparr>manager = mgr_ptr, connection = conn, thread = 0\<rparr>;
                s = s\<lparr>ctxs := (ctxs s)(c \<mapsto> \<lparr>payload = ctx, sle_next = NULL\<rparr>)\<rparr>
            in (case pthread_create T (started s) of
                 None \<Rightarrow> Some (False, s)
               | Some tid \<Rightarrow> do {
                   mgr \<leftarrow> managers s m;
                   let cs = (ctxs s)(c \<mapsto> \<lparr>payload = ctx\<lparr>thread := tid\<rparr>, sle_next = NULL\<rparr>);
                   (head, cs) \<leftarrow> SLIST_INSERT_HEAD (connection_ctx_list mgr) (Ptr c) cs;
                   Some (True, s\<lparr>ctxs := cs, managers := (managers s)(m \<mapsto> mgr\<lparr>connection_ctx_list := head\<rparr>),
                     started := started s @ [tid]\<rparr>)
                 })))"

subsection \<open>One message\<close>

definition handle_message :: "stdio \<Rightarrow> 'f sys_file \<Rightarrow> byte list \<Rightarrow> 'f stream \<Rightarrow> (cint \<times> 'f stream) option" where
  "handle_message io F message fd = do {
     decoded \<leftarrow> decode_ioctl_command message;
     (case decoded of
        Some seekto \<Rightarrow> do {
          (retval, f) \<leftarrow> sys_ioctl F AESDCHAR_IOCSEEKTO seekto (sfile fd);
          Some (retval, fd\<lparr>sfile := f\<rparr>)
        }
      | None \<Rightarrow> do {
          (retval, fd) \<leftarrow> fprintf_line io F message fd;
          (_, fd) \<leftarrow> fflush io F fd;
          Some (retval, fd)
        })
   }"

text \<open>What a connection's thread works on: the process, the file, and the mutex of its manager.\<close>

record 'f tstate =
  tp :: pstate
  tf :: 'f
  tmutex :: mutex_state

definition pthread_mutex_lock :: "'f tstate \<Rightarrow> 'f tstate option" where
  "pthread_mutex_lock t = (if tmutex t = Unlocked then Some (t\<lparr>tmutex := Locked\<rparr>) else None)"

definition pthread_mutex_unlock :: "'f tstate \<Rightarrow> 'f tstate" where
  "pthread_mutex_unlock t = t\<lparr>tmutex := Unlocked\<rparr>"

text \<open>The part of \<open>thread_routine\<close> that follows a received message, from \<open>fopen\<close> to \<open>fclose\<close>. If the
  file cannot be opened, the loop continues with the message still allocated.\<close>

definition serve_message :: "stdio \<Rightarrow> 'f sys_file \<Rightarrow> ptr \<Rightarrow> ptr \<Rightarrow> 'f tstate \<Rightarrow> 'f tstate option" where
  "serve_message io F conn message t =
     (case fopen_update F (tf t) of
        (None, f) \<Rightarrow> Some (t\<lparr>tf := f\<rparr>)
      | (Some fd, f) \<Rightarrow>
          do {
            t \<leftarrow> pthread_mutex_lock t;
            (retval, fd) \<leftarrow> handle_message io F (cstring (pheap (tp t)) message) fd;
            (fd, s) \<leftarrow> (if 0 \<le> sint retval
               then do {
                 (_, fd, s) \<leftarrow> tcp_connection_send_file (stream_read F) conn fd (tp t);
                 Some (fd, s)
               }
               else Some (fd, tp t));
            let t = pthread_mutex_unlock t;
            h \<leftarrow> cfree message (pheap s);
            f \<leftarrow> fclose io F fd;
            Some (t\<lparr>tp := s\<lparr>pheap := h\<rparr>, tf := f\<rparr>)
          })"

text \<open>The loop of \<open>thread_routine\<close>; \<open>closing k\<close> is the value of \<open>close_connections\<close> that it finds at
  its k-th check. The result is false if an assertion ended the program.\<close>

partial_function (option) thread_loop ::
  "libc \<Rightarrow> stdio \<Rightarrow> 'f sys_file \<Rightarrow> (nat \<Rightarrow> bool) \<Rightarrow> ptr \<Rightarrow> nat \<Rightarrow> 'f tstate \<Rightarrow> (bool \<times> 'f tstate) option" where
  "thread_loop L io F closing conn k t = do {
     is_open \<leftarrow> tcp_connection_is_open conn (tp t);
     if is_open \<and> \<not> closing k
     then do {
       (r, s) \<leftarrow> tcp_connection_receive_message L conn newline (tp t);
       (case r of
          Received message \<Rightarrow> do {
            t \<leftarrow> serve_message io F conn message (t\<lparr>tp := s\<rparr>);
            thread_loop L io F closing conn (Suc k) t
          }
        | Not_Received \<Rightarrow> thread_loop L io F closing conn (Suc k) (t\<lparr>tp := s\<rparr>)
        | Assert_Failed \<Rightarrow> Some (False, t\<lparr>tp := s\<rparr>))
     }
     else Some (True, t)
   }"

definition thread_routine ::
  "libc \<Rightarrow> stdio \<Rightarrow> 'f sys_file \<Rightarrow> (nat \<Rightarrow> bool) \<Rightarrow> nat \<Rightarrow> ctx_heap \<Rightarrow> 'f tstate \<Rightarrow> (bool \<times> ctx_heap \<times> 'f tstate) option" where
  "thread_routine L io F closing ctx cs t = do {
     e \<leftarrow> cs ctx;
     (ok, t) \<leftarrow> thread_loop L io F closing (connection (payload e)) 0 t;
     if \<not> ok then Some (False, cs, t)
     else do {
       s \<leftarrow> tcp_connection_destroy (connection (payload e)) (tp t);
       Some (True, cs(ctx \<mapsto> e\<lparr>payload := (payload e)\<lparr>connection := NULL\<rparr>\<rparr>), t\<lparr>tp := s\<rparr>)
     }
   }"


subsection \<open>The list of connections\<close>

definition tid_at :: "ctx_heap \<Rightarrow> nat \<Rightarrow> nat" where
  "tid_at cs c = (case cs c of None \<Rightarrow> 0 | Some e \<Rightarrow> thread (payload e))"

text \<open>The manager at \<open>m\<close> has the running threads \<open>tids\<close> on its list; the contexts are exactly those
  on the list and the set \<open>G\<close> of others.\<close>

definition manager_rep :: "nat \<Rightarrow> nat set \<Rightarrow> mstate \<Rightarrow> nat list \<Rightarrow> bool" where
  "manager_rep m G s tids \<longleftrightarrow> (\<exists>mgr cs. managers s m = Some mgr \<and> slist (ctxs s) (connection_ctx_list mgr) cs \<and>
     tids = map (tid_at (ctxs s)) cs \<and> dom (ctxs s) = G \<union> set cs \<and> G \<inter> set cs = {})"

text \<open>One round of the loop in \<open>connection_manager_destroy\<close>.\<close>

definition destroy_round :: "pthreads \<Rightarrow> nat \<Rightarrow> mstate \<Rightarrow> mstate option" where
  "destroy_round T m s = do {
     mgr \<leftarrow> managers s m;
     (case SLIST_FIRST (connection_ctx_list mgr) of NULL \<Rightarrow> None
       | Ptr c \<Rightarrow> do {
           e \<leftarrow> ctxs s c;
           s \<leftarrow> pthread_join T (thread (payload e)) s;
           head \<leftarrow> SLIST_REMOVE_HEAD (connection_ctx_list mgr) (ctxs s);
           Some (s\<lparr>managers := (managers s)(m \<mapsto> mgr\<lparr>connection_ctx_list := head\<rparr>), ctxs := (ctxs s)(c := None)\<rparr>)
         })
   }"

text \<open>What a round leaves alone: the process memory and everything of the manager but its list.\<close>

definition same_manager :: "nat \<Rightarrow> mstate \<Rightarrow> mstate \<Rightarrow> bool" where
  "same_manager m s s' \<longleftrightarrow> mp s' = mp s \<and> started s' = started s \<and> (\<forall>x. x \<noteq> m \<longrightarrow> managers s' x = managers s x) \<and>
     map_option filename (managers s' m) = map_option filename (managers s m)"

lemma same_manager_refl [simp]: "same_manager m s s"
  by (simp add: same_manager_def)

lemma same_manager_trans: "same_manager m s s' \<Longrightarrow> same_manager m s' s'' \<Longrightarrow> same_manager m s s''"
  by (simp add: same_manager_def)

definition closing_rep :: "pthreads \<Rightarrow> nat \<Rightarrow> nat set \<Rightarrow> mstate \<Rightarrow> mstate \<Rightarrow> nat list \<Rightarrow> bool" where
  "closing_rep T m G s0 s tids \<longleftrightarrow> manager_rep m G s tids \<and> (\<forall>tid\<in>set tids. ends T tid) \<and> same_manager m s0 s"

lemma manager_rep_ConsE:
  assumes "manager_rep m G s (tid # tids)"
  obtains mgr c e cs where "managers s m = Some mgr" "SLIST_FIRST (connection_ctx_list mgr) = Ptr c" "ctxs s c = Some e"
    "thread (payload e) = tid" "slist (ctxs s) (connection_ctx_list mgr) (c # cs)" "tids = map (tid_at (ctxs s)) cs"
    "dom (ctxs s) = G \<union> insert c (set cs)" "G \<inter> insert c (set cs) = {}" "c \<notin> set cs"
proof -
  obtain mgr cs0 where r: "managers s m = Some mgr \<and> slist (ctxs s) (connection_ctx_list mgr) cs0 \<and>
      tid # tids = map (tid_at (ctxs s)) cs0 \<and> dom (ctxs s) = G \<union> set cs0 \<and> G \<inter> set cs0 = {}"
    using assms unfolding manager_rep_def by (elim exE)
  then obtain c cs where cs0: "cs0 = c # cs" by (cases cs0) auto
  have "c \<notin> set cs" using chain_distinct [of "ctxs s" _ cs0] r cs0 by auto
  then show thesis
    using r cs0 by (intro that [of mgr c "the (ctxs s c)" cs]) (auto simp: tid_at_def)
qed

lemma destroy_round_rep:
  assumes "manager_rep m G s (tid # tids)" and "ends T tid"
  shows "\<exists>s'. destroy_round T m s = Some s' \<and> manager_rep m G s' tids \<and> same_manager m s s' \<and> joined s' = joined s @ [tid]"
proof -
  obtain mgr c e cs where r: "managers s m = Some mgr" "SLIST_FIRST (connection_ctx_list mgr) = Ptr c" "ctxs s c = Some e"
      "thread (payload e) = tid" "slist (ctxs s) (connection_ctx_list mgr) (c # cs)" "tids = map (tid_at (ctxs s)) cs"
      "dom (ctxs s) = G \<union> insert c (set cs)" "G \<inter> insert c (set cs) = {}" "c \<notin> set cs"
    using assms(1) by (rule manager_rep_ConsE)
  obtain head where head: "SLIST_REMOVE_HEAD (connection_ctx_list mgr) (ctxs s) = Some head" "slist (ctxs s) head cs"
    using SLIST_REMOVE_HEAD_spec [OF r(5)] by blast
  let ?s' = "s\<lparr>joined := joined s @ [tid], managers := (managers s)(m \<mapsto> mgr\<lparr>connection_ctx_list := head\<rparr>), ctxs := (ctxs s)(c := None)\<rparr>"
  have "destroy_round T m s = Some ?s'"
    using assms(2) r head by (simp add: destroy_round_def pthread_join_def)
  moreover have "manager_rep m G ?s' tids"
    unfolding manager_rep_def
    by (intro exI [of _ "mgr\<lparr>connection_ctx_list := head\<rparr>"] exI [of _ cs]) (use r head in \<open>auto simp: tid_at_def\<close>)
  moreover have "same_manager m s ?s'" using r(1) by (simp add: same_manager_def)
  ultimately show ?thesis by (intro exI [of _ ?s']) simp
qed

lemma destroy_loop_round:
  assumes "manager_rep m G s (tid # tids)"
  shows "destroy_loop T m s = Option.bind (destroy_round T m s) (destroy_loop T m)"
proof -
  obtain mgr c where "managers s m = Some mgr" "SLIST_FIRST (connection_ctx_list mgr) = Ptr c"
    using assms by (rule manager_rep_ConsE)
  then show ?thesis
    by (subst destroy_loop.simps) (auto simp: destroy_round_def SLIST_EMPTY_def SLIST_FIRST_def split: option.splits bind_splits)
qed

interpretation closing: worklist_loop "closing_rep T m G s0" joined "\<lambda>s. s" "destroy_round T m" "destroy_loop T m"
proof unfold_locales
  fix s
  assume "closing_rep T m G s0 s []"
  then show "destroy_loop T m s = Some s"
    by (subst destroy_loop.simps) (auto simp: closing_rep_def manager_rep_def SLIST_EMPTY_def SLIST_FIRST_def)
next
  fix s tid tids
  assume r: "closing_rep T m G s0 s (tid # tids)"
  then show "destroy_loop T m s = Option.bind (destroy_round T m s) (destroy_loop T m)"
    using destroy_loop_round [of m G s tid tids] by (simp add: closing_rep_def)
  show "\<exists>s'. destroy_round T m s = Some s' \<and> closing_rep T m G s0 s' tids \<and> joined s' = joined s @ [tid]"
    using r destroy_round_rep [of m G s tid tids T] same_manager_trans by (fastforce simp: closing_rep_def)
qed

lemma destroy_loop_blocks:
  "manager_rep m G s tids \<Longrightarrow> \<exists>tid\<in>set tids. \<not> ends T tid \<Longrightarrow> destroy_loop T m s = None"
proof (induction tids arbitrary: s)
  case (Cons tid tids)
  show ?case
  proof (cases "ends T tid")
    case True
    then obtain s1 where "destroy_round T m s = Some s1" "manager_rep m G s1 tids"
      using destroy_round_rep [OF Cons.prems(1)] by blast
    then show ?thesis
      using destroy_loop_round [OF Cons.prems(1)] Cons.IH [of s1] Cons.prems(2) True by auto
  next
    case False
    obtain mgr c e where "managers s m = Some mgr" "SLIST_FIRST (connection_ctx_list mgr) = Ptr c" "ctxs s c = Some e"
        "thread (payload e) = tid"
      using Cons.prems(1) by (rule manager_rep_ConsE)
    with False have "destroy_round T m s = None"
      by (simp add: destroy_round_def pthread_join_def)
    then show ?thesis using destroy_loop_round [OF Cons.prems(1)] by simp
  qed
qed simp

text \<open>Nor does a change of what a context holds besides its thread.\<close>

lemma manager_rep_ctx:
  assumes "manager_rep m G x tids" and "ctxs x a = Some e" and "thread (payload e') = thread (payload e)" and "sle_next e' = sle_next e"
    and "ctxs y = (ctxs x)(a \<mapsto> e')" and "managers y = managers x"
  shows "manager_rep m G y tids"
proof -
  have c: "chain (ctxs y) p cs = chain (ctxs x) p cs" for p cs
    by (rule chain_links) (simp add: assms(2,4,5))
  have t: "tid_at (ctxs y) c = tid_at (ctxs x) c" for c
    by (simp add: tid_at_def assms(2,3,5))
  then have "tid_at (ctxs y) = tid_at (ctxs x)" by (intro ext)
  moreover have "dom (ctxs y) = dom (ctxs x)" using assms(2,5) by auto
  ultimately show ?thesis using assms(1,6) by (simp add: manager_rep_def c)
qed

text \<open>Setting \<open>close_connections\<close> does not touch the list.\<close>

lemma manager_rep_flag:
  assumes "manager_rep m G s tids" and "managers s m = Some mgr"
  shows "manager_rep m G (s\<lparr>managers := (managers s)(m \<mapsto> mgr\<lparr>close_connections := b\<rparr>)\<rparr>) tids"
  using assms unfolding manager_rep_def by fastforce

lemma destroy_loop_joins:
  assumes "manager_rep m G s tids" and "managers s m = Some mgr" and "\<forall>tid\<in>set tids. ends T tid"
  shows "\<exists>s1 mgr1. destroy_loop T m (s\<lparr>managers := (managers s)(m \<mapsto> mgr\<lparr>close_connections := True\<rparr>)\<rparr>) = Some s1 \<and>
    dom (ctxs s1) = G \<and> managers s1 m = Some mgr1 \<and> filename mgr1 = filename mgr \<and> mp s1 = mp s \<and> started s1 = started s \<and>
    joined s1 = joined s @ tids \<and> (\<forall>x. x \<noteq> m \<longrightarrow> managers s1 x = managers s x)"
proof -
  let ?s = "s\<lparr>managers := (managers s)(m \<mapsto> mgr\<lparr>close_connections := True\<rparr>)\<rparr>"
  have "closing_rep T m G ?s ?s tids"
    using manager_rep_flag [OF assms(1,2)] assms(3) by (simp add: closing_rep_def)
  from closing.loop_handles_all [OF this] obtain s1 where s1: "destroy_loop T m ?s = Some s1" "manager_rep m G s1 []"
      "same_manager m ?s s1" "joined s1 = joined s @ tids"
    by (auto simp: closing_rep_def)
  moreover have "dom (ctxs s1) = G" using s1(2) by (auto simp: manager_rep_def)
  ultimately show ?thesis by (auto simp: same_manager_def)
qed

lemma destroy_joins_all:
  assumes "manager_rep m G s tids" and "managers s m = Some mgr" and "\<forall>tid\<in>set tids. ends T tid"
    and "set (addrs (filename mgr)) \<subseteq> dom (pheap (mp s))"
  shows "\<exists>s'. connection_manager_destroy T (Ptr m) s = Some s' \<and> joined s' = joined s @ tids \<and> dom (ctxs s') = G \<and>
    managers s' = (managers s)(m := None) \<and> mp s' = (mp s)\<lparr>pheap := pheap (mp s) |` (- set (addrs (filename mgr)))\<rparr> \<and>
    started s' = started s"
proof -
  obtain s1 mgr1 where s1: "destroy_loop T m (s\<lparr>managers := (managers s)(m \<mapsto> mgr\<lparr>close_connections := True\<rparr>)\<rparr>) = Some s1"
      "dom (ctxs s1) = G" "managers s1 m = Some mgr1" "filename mgr1 = filename mgr" "mp s1 = mp s" "started s1 = started s"
      "joined s1 = joined s @ tids" "\<And>x. x \<noteq> m \<Longrightarrow> managers s1 x = managers s x"
    using destroy_loop_joins [OF assms(1-3)] by blast
  have "(managers s1)(m := None) = (managers s)(m := None)"
    using s1(8) by (auto simp: fun_eq_iff)
  then show ?thesis
    using assms(2,4) s1(1-7) cfree_restrict [of "filename mgr" "pheap (mp s)"] by simp
qed


lemma register_starts:
  assumes "manager_rep m G s tids" and "malloc_struct L (dom (ctxs s)) = Ptr c" and "c \<notin> dom (ctxs s)"
    and "pthread_create T (started s) = Some tid"
  shows "\<exists>s'. connection_manager_register_connection L T (Ptr m) conn s = Some (True, s') \<and>
    manager_rep m G s' (tid # tids) \<and> started s' = started s @ [tid] \<and> same_manager m (s\<lparr>started := started s'\<rparr>) s' \<and>
    map_option payload (ctxs s' c) = Some \<lparr>manager = Ptr m, connection = conn, thread = tid\<rparr>"
proof -
  obtain mgr cs where r: "managers s m = Some mgr" "slist (ctxs s) (connection_ctx_list mgr) cs"
      "tids = map (tid_at (ctxs s)) cs" "dom (ctxs s) = G \<union> set cs" "G \<inter> set cs = {}"
    using assms(1) unfolding manager_rep_def by (elim exE conjE)
  let ?e = "\<lparr>payload = \<lparr>manager = Ptr m, connection = conn, thread = tid\<rparr>, sle_next = NULL\<rparr>"
  have c: "c \<notin> set cs" "c \<notin> G" using assms(3) r(4) by auto
  have "slist ((ctxs s)(c \<mapsto> ?e)) (connection_ctx_list mgr) cs" using r(2) c(1) by simp
  from SLIST_INSERT_HEAD_spec [OF this, of c ?e] c(1) obtain head h' where ins:
    "SLIST_INSERT_HEAD (connection_ctx_list mgr) (Ptr c) ((ctxs s)(c \<mapsto> ?e)) = Some (head, h')" "slist h' head (c # cs)"
    "h' = (ctxs s)(c \<mapsto> ?e\<lparr>sle_next := SLIST_FIRST (connection_ctx_list mgr)\<rparr>)"
    by auto
  let ?s' = "s\<lparr>ctxs := h', managers := (managers s)(m \<mapsto> mgr\<lparr>connection_ctx_list := head\<rparr>), started := started s @ [tid]\<rparr>"
  have "connection_manager_register_connection L T (Ptr m) conn s = Some (True, ?s')"
    using assms(2,4) r(1) ins(1) by (simp add: connection_manager_register_connection_def Let_def)
  moreover have "manager_rep m G ?s' (tid # tids)"
    unfolding manager_rep_def
    by (intro exI [of _ "mgr\<lparr>connection_ctx_list := head\<rparr>"] exI [of _ "c # cs"]) (use r c ins(2,3) in \<open>auto simp: tid_at_def\<close>)
  moreover have "same_manager m (s\<lparr>started := started ?s'\<rparr>) ?s'" using r(1) by (simp add: same_manager_def)
  ultimately show ?thesis using ins(3) by (intro exI [of _ ?s']) simp
qed

lemma register_fails:
  assumes "manager_rep m G s tids" and "malloc_struct L (dom (ctxs s)) = Ptr c" and "c \<notin> dom (ctxs s)"
    and "pthread_create T (started s) = None"
  shows "\<exists>s'. connection_manager_register_connection L T (Ptr m) conn s = Some (False, s') \<and>
    manager_rep m (insert c G) s' tids \<and> mp s' = mp s \<and> started s' = started s"
proof -
  let ?e = "\<lparr>payload = \<lparr>manager = Ptr m, connection = conn, thread = 0\<rparr>, sle_next = NULL\<rparr>"
  let ?s' = "s\<lparr>ctxs := (ctxs s)(c \<mapsto> ?e)\<rparr>"
  obtain mgr cs where r: "managers s m = Some mgr" "slist (ctxs s) (connection_ctx_list mgr) cs"
      "tids = map (tid_at (ctxs s)) cs" "dom (ctxs s) = G \<union> set cs" "G \<inter> set cs = {}"
    using assms(1) unfolding manager_rep_def by (elim exE conjE)
  have "manager_rep m (insert c G) ?s' tids"
    unfolding manager_rep_def
    by (intro exI [of _ mgr] exI [of _ cs]) (use r assms(3) in \<open>auto simp: tid_at_def\<close>)
  then show ?thesis
    using assms(2,4) by (simp add: connection_manager_register_connection_def Let_def)
qed

subsection \<open>Properties of the manager\<close>

text \<open>Registering a connection, when a context can be allocated, either starts one thread for it and puts its
  context at the front of the manager's list, or, if no thread can be started, returns false and
  leaves the list as it was; in that case the new context is on no list and nothing releases it,
  nor the connection: both are leaked.\<close>

lemma register_connection_correct:
  assumes "libc_ok L" and "manager_rep m G s tids" and "malloc_struct L (dom (ctxs s)) = Ptr c"
  shows "case pthread_create T (started s) of
      Some tid \<Rightarrow> \<exists>s'. connection_manager_register_connection L T (Ptr m) conn s = Some (True, s') \<and>
        manager_rep m G s' (tid # tids) \<and> started s' = started s @ [tid] \<and> mp s' = mp s \<and>
        map_option payload (ctxs s' c) = Some \<lparr>manager = Ptr m, connection = conn, thread = tid\<rparr>
    | None \<Rightarrow> \<exists>s'. connection_manager_register_connection L T (Ptr m) conn s = Some (False, s') \<and>
        manager_rep m (insert c G) s' tids \<and> c \<notin> dom (ctxs s) \<and> started s' = started s \<and> mp s' = mp s"
proof -
  have c: "c \<notin> dom (ctxs s)" using libc_okD(3) [OF assms(1,3)] .
  show ?thesis
  proof (cases "pthread_create T (started s)")
    case None
    then show ?thesis using register_fails [OF assms(2,3) c None, of conn] c by auto
  next
    case (Some tid)
    then show ?thesis using register_starts [OF assms(2,3) c Some, of conn] by (auto simp: same_manager_def)
  qed
qed

text \<open>A manager without connections, for the file \<open>/dev/aesdchar\<close>; threads 1, 2, ... end, and every
  thread but number 3 can be started.\<close>

definition sample_threads :: pthreads where
  "sample_threads = \<lparr>pthread_create = (\<lambda>ts. if length ts = 2 then None else Some (Suc (length ts))), ends = (\<lambda>t. True)\<rparr>"

definition sample_mstate :: mstate where
  "sample_mstate = \<lparr>mp = (sample_pstate [])\<lparr>pheap := [0 \<mapsto> ''/dev/aesdchar'' @ [nul]]\<rparr>,
     ctxs = [4 \<mapsto> \<lparr>payload = \<lparr>manager = Ptr 0, connection = Ptr 1, thread = 1\<rparr>, sle_next = NULL\<rparr>],
     managers = [0 \<mapsto> \<lparr>filename = Ptr 0, file_mutex = Unlocked, close_connections = False, connection_ctx_list = \<lparr>slh_first = Ptr 4\<rparr>\<rparr>],
     started = [1], joined = []\<rparr>"

lemma sample_manager_rep: "manager_rep 0 {} sample_mstate [1]"
  unfolding manager_rep_def
  by (intro exI [of _ "\<lparr>filename = Ptr 0, file_mutex = Unlocked, close_connections = False, connection_ctx_list = \<lparr>slh_first = Ptr 4\<rparr>\<rparr>"] exI [of _ "[4]"])
    (simp add: sample_mstate_def SLIST_FIRST_def tid_at_def)

lemma register_connection_correct_witness:
  "case pthread_create sample_threads (started sample_mstate) of
      Some tid \<Rightarrow> \<exists>s'. connection_manager_register_connection demo_libc sample_threads (Ptr 0) (Ptr 1) sample_mstate = Some (True, s') \<and>
        manager_rep 0 {} s' (tid # [1]) \<and> started s' = started sample_mstate @ [tid] \<and> mp s' = mp sample_mstate \<and>
        map_option payload (ctxs s' 5) = Some \<lparr>manager = Ptr 0, connection = Ptr 1, thread = tid\<rparr>
    | None \<Rightarrow> \<exists>s'. connection_manager_register_connection demo_libc sample_threads (Ptr 0) (Ptr 1) sample_mstate = Some (False, s') \<and>
        manager_rep 0 (insert 5 {}) s' [1] \<and> 5 \<notin> dom (ctxs sample_mstate) \<and> started s' = started sample_mstate \<and> mp s' = mp sample_mstate"
  by (rule register_connection_correct [OF demo_libc_ok sample_manager_rep])
    (simp add: demo_libc_def next_addr_def sample_mstate_def)

text \<open>C16: Destroying the manager ends if and only if every connection thread ends: it then has joined each of them
  exactly once, newest first, and has released every context on its list, the file name and the
  manager itself, and nothing else. If a thread never ends (it may wait in \<open>recv\<close> for a client that
  stays silent), the call never returns.\<close>

theorem connection_manager_destroy_correct:
  assumes "manager_rep m G s tids" and "managers s m = Some mgr" and "set (addrs (filename mgr)) \<subseteq> dom (pheap (mp s))"
  shows "if \<forall>tid\<in>set tids. ends T tid
    then \<exists>s'. connection_manager_destroy T (Ptr m) s = Some s' \<and> joined s' = joined s @ tids \<and> dom (ctxs s') = G \<and>
      managers s' = (managers s)(m := None) \<and> mp s' = (mp s)\<lparr>pheap := pheap (mp s) |` (- set (addrs (filename mgr)))\<rparr>
    else connection_manager_destroy T (Ptr m) s = None"
proof (cases "\<forall>tid\<in>set tids. ends T tid")
  case True
  then show ?thesis using destroy_joins_all [OF assms(1,2) True assms(3)] by auto
next
  case False
  then have "destroy_loop T m (s\<lparr>managers := (managers s)(m \<mapsto> mgr\<lparr>close_connections := True\<rparr>)\<rparr>) = None"
    using destroy_loop_blocks [OF manager_rep_flag [OF assms(1,2)]] by blast
  with False assms(2) show ?thesis by auto
qed

theorem connection_manager_destroy_correct_witness:
  "if \<forall>tid\<in>set [1]. ends sample_threads tid
    then \<exists>s'. connection_manager_destroy sample_threads (Ptr 0) sample_mstate = Some s' \<and> joined s' = joined sample_mstate @ [1] \<and> dom (ctxs s') = {} \<and>
      managers s' = (managers sample_mstate)(0 := None) \<and>
      mp s' = (mp sample_mstate)\<lparr>pheap := pheap (mp sample_mstate) |` (- set (addrs (filename (the (managers sample_mstate 0)))))\<rparr>
    else connection_manager_destroy sample_threads (Ptr 0) sample_mstate = None"
  by (rule connection_manager_destroy_correct [OF sample_manager_rep]) (simp_all add: sample_mstate_def)

end
