(* ===== verification/Session.thy ===== *)
theory Session
  imports Connection_Manager
begin

text \<open>
  What a client sees: the answer to each of its lines, and the run of its thread from the first
  line to the end of the connection. Everything is proved against the contract \<open>line_device\<close> of
  the file; which file fulfils it is the subject of the theory \<open>Device_File\<close>.
\<close>

subsection \<open>Specification\<close>

text \<open>A seek command is answered with the contents from the named byte on, or with nothing if there
  is no such byte, and changes nothing. Any other line is stored and answered with the whole
  contents. A line ends early at a zero byte.\<close>

definition line_text :: "byte list \<Rightarrow> byte list" where
  "line_text m = takeWhile (\<lambda>c. c \<noteq> nul) m"

definition respond :: "byte list \<Rightarrow> log_state \<Rightarrow> byte list \<times> log_state" where
  "respond m l = (case decode_ioctl_command m of
       Some (Some st) \<Rightarrow> (case seek_target l (unat (write_cmd st)) (unat (write_cmd_offset st)) of
           None \<Rightarrow> ([], l) | Some p \<Rightarrow> (drop p (content l), l))
     | _ \<Rightarrow> (let l' = spec_write (m @ [newline]) l in (content l', l')))"

fun session :: "byte list list \<Rightarrow> log_state \<Rightarrow> byte list \<times> log_state" where
  "session [] l = ([], l)"
| "session (m # ms) l =
     (let (out, l1) = respond (line_text m) l; (outs, l2) = session ms l1 in (out @ outs, l2))"

text \<open>The bytes of a client that sends the lines \<open>ms\<close> and then closes its side.\<close>

definition line_events :: "byte list \<Rightarrow> recv_event list" where
  "line_events m = map Recv_Byte m @ [Recv_Byte newline]"

definition client_events :: "byte list list \<Rightarrow> recv_event list" where
  "client_events ms = concat (map line_events ms) @ [Recv_Eof]"

lemma pending_respond: "length (pending (snd (respond m l))) \<le> length (pending l)"
  by (auto simp: respond_def spec_write_def Let_def split: option.splits)

lemma line_text_subset: "set (line_text m) \<subseteq> set m" "length (line_text m) \<le> length m"
  by (auto simp: line_text_def dest: set_takeWhileD intro: length_takeWhile_le)

lemma sent_net_Nil [simp]: "sent_net fd [] 0 w = w"
  by (simp add: sent_net_def)

lemma sent_net_sent_net: "sent_net fd bs n (sent_net fd cs k w) = sent_net fd (cs @ bs) (k + n) w"
  by (simp add: sent_net_def add.assoc)

lemma sent_net_took: "sent_net fd bs n (took fd evs w) = took fd evs (sent_net fd bs n w)"
  by (simp add: sent_net_def took_def)

text \<open>Without seek commands, the log keeps the newest ten lines, and the last answer is all of them.\<close>

lemma respond_plain:
  assumes "decode_ioctl_command m = Some None" and "pending l = []"
  shows "respond m l = (concat (newest 10 (commands l @ [m @ [newline]])), \<lparr>commands = newest 10 (commands l @ [m @ [newline]]), pending = []\<rparr>)"
  using assms by (simp add: respond_def spec_write_def Let_def content_def)

lemma session_plain:
  "\<forall>m\<in>set ms. decode_ioctl_command (line_text m) = Some None \<Longrightarrow> pending l = [] \<Longrightarrow> ms \<noteq> [] \<Longrightarrow>
   snd (session ms l) = \<lparr>commands = newest 10 (commands l @ map (\<lambda>m. line_text m @ [newline]) ms), pending = []\<rparr> \<and>
   (\<exists>earlier. fst (session ms l) = earlier @ concat (newest 10 (commands l @ map (\<lambda>m. line_text m @ [newline]) ms)))"
proof (induction ms arbitrary: l)
  case (Cons m ms)
  let ?l1 = "\<lparr>commands = newest 10 (commands l @ [line_text m @ [newline]]), pending = []\<rparr>"
  have r: "respond (line_text m) l = (concat (commands ?l1), ?l1)"
    using Cons.prems respond_plain by simp
  show ?case
  proof (cases "ms = []")
    case True
    then show ?thesis by (simp add: r)
  next
    case False
    have "newest 10 (commands ?l1 @ map (\<lambda>m. line_text m @ [newline]) ms) =
        newest 10 (commands l @ map (\<lambda>m. line_text m @ [newline]) (m # ms))"
      using newest_append_newest [of 10 "commands l @ [line_text m @ [newline]]"] by simp
    then show ?thesis
      using Cons.IH [of ?l1] Cons.prems False by (auto simp: r case_prod_beta Let_def)
  qed
qed simp

subsection \<open>One line\<close>

text \<open>Every send takes its whole chunk.\<close>

definition whole_sends :: "net \<Rightarrow> bool" where
  "whole_sends w \<longleftrightarrow> (\<forall>i. \<exists>k\<ge>4096. send_plan w i = Send_Accept k)"

lemma whole_sends_frame [simp]:
  "whole_sends (sent_net fd bs n w) = whole_sends w" "whole_sends (took fd evs w) = whole_sends w"
  by (simp_all add: whole_sends_def sent_net_def took_def)

context line_device
begin

lemma handle_seek:
  assumes "valid (sfile fd)" and "obuf fd = []" and "decode_ioctl_command m = Some (Some st)"
  shows "\<exists>fd'. handle_message io F m fd =
      Some (if seek_target (log (sfile fd)) (unat (write_cmd st)) (unat (write_cmd_offset st)) = None then - 1 else 0, fd') \<and>
    valid (sfile fd') \<and> obuf fd' = [] \<and> log (sfile fd') = log (sfile fd) \<and>
    pos (sfile fd') = (case seek_target (log (sfile fd)) (unat (write_cmd st)) (unat (write_cmd_offset st)) of
      None \<Rightarrow> pos (sfile fd) | Some p \<Rightarrow> p)"
proof -
  obtain f' where "sys_ioctl F AESDCHAR_IOCSEEKTO st (sfile fd) =
        Some (if seek_target (log (sfile fd)) (unat (write_cmd st)) (unat (write_cmd_offset st)) = None then - 1 else 0, f')"
      "valid f'" "log f' = log (sfile fd)"
      "pos f' = (case seek_target (log (sfile fd)) (unat (write_cmd st)) (unat (write_cmd_offset st)) of
        None \<Rightarrow> pos (sfile fd) | Some p \<Rightarrow> p)"
    using ioctl_ok [OF assms(1)] by blast
  with assms(2,3) show ?thesis
    by (intro exI [of _ "fd\<lparr>sfile := f'\<rparr>"]) (simp add: handle_message_def)
qed

lemma handle_line:
  assumes "stdio_ok io" and "valid (sfile fd)" and "obuf fd = []" and "decode_ioctl_command m = Some None"
    and "newline \<notin> set m" and "length (pending (log (sfile fd))) + length m + 1 \<le> limit"
  shows "\<exists>fd'. handle_message io F m fd = Some (word_of_nat (length m + 1), fd') \<and> valid (sfile fd') \<and> obuf fd' = [] \<and>
    log (sfile fd') = spec_write (m @ [newline]) (log (sfile fd)) \<and> pos (sfile fd') = pos (sfile fd)"
  using print_line [OF assms(1-3,5,6)] assms(4) by (auto simp: handle_message_def)

text \<open>Both kinds of message: what was handled, whether anything is sent, and what.\<close>

lemma handle_message_responds:
  assumes "stdio_ok io" and "valid (sfile fd)" and "obuf fd = []" and "pos (sfile fd) = 0" and "decode_ioctl_command m \<noteq> None"
    and "newline \<notin> set m" and "length (pending (log (sfile fd))) + length m + 1 \<le> limit"
  shows "\<exists>r fd'. handle_message io F m fd = Some (r, fd') \<and> valid (sfile fd') \<and> obuf fd' = [] \<and>
    log (sfile fd') = snd (respond m (log (sfile fd))) \<and>
    (if 0 \<le> sint r then rest (sfile fd') = fst (respond m (log (sfile fd))) else fst (respond m (log (sfile fd))) = [])"
proof (cases "decode_ioctl_command m")
  case None
  with assms(5) show ?thesis by simp
next
  case (Some d)
  show ?thesis
  proof (cases d)
    case None
    then have d: "decode_ioctl_command m = Some None" using Some by simp
    have "length m + 1 < 2 ^ 31" using assms(7) limit_small by simp
    then have "sint (word_of_nat (length m + 1) :: cint) = int (length m + 1)"
      by (intro sint_word_of_nat) simp
    then show ?thesis
      using handle_line [OF assms(1-3) d assms(6,7)] d assms(4) rest_eq
      by (fastforce simp: respond_def Let_def)
  next
    case (Some st)
    then have d: "decode_ioctl_command m = Some (Some st)" using \<open>decode_ioctl_command m = Some d\<close> by simp
    show ?thesis
      using handle_seek [OF assms(2,3) d, of io] d rest_eq
      by (fastforce simp: respond_def split: option.splits)
  qed
qed

lemma send_rest:
  assumes "valid (sfile fd)" and "obuf fd = []" and "conns s c = Some conn" and "whole_sends (pnet s)"
  shows "\<exists>fd' n. tcp_connection_send_file (stream_read F) (Ptr c) fd s =
      Some (True, fd', s\<lparr>pnet := sent_net (socket conn) (rest (sfile fd)) n (pnet s)\<rparr>) \<and>
    valid (sfile fd') \<and> obuf fd' = [] \<and> log (sfile fd') = log (sfile fd)"
proof -
  have "valid (sfile fd) \<and> obuf fd = [] \<and> log (sfile fd) = log (sfile fd)" using assms(1,2) by simp
  from stream.send_file_complete [OF this assms(3)] assms(4) show ?thesis
    by (auto simp: whole_sends_def)
qed

lemma close_flushed:
  assumes "valid (sfile fd)" and "obuf fd = []"
  shows "\<exists>f. fclose io F fd = Some f \<and> ready f \<and> log f = log (sfile fd)"
proof -
  have "write_all F [] (sfile fd) = Some (True, sfile fd)" by (subst write_all.simps) simp
  then show ?thesis using close_ok [OF assms(1)] assms(2) by (simp add: fclose_def fflush_def)
qed

lemma serve_message_responds:
  assumes io: "stdio_ok io" and t: "ready (tf t)" "tmutex t = Unlocked" and c: "conns (tp t) c = Some conn" "whole_sends (pnet (tp t))"
    and msg: "pheap (tp t) a = Some bs" "cstring (pheap (tp t)) (Ptr a) = m"
    and m: "decode_ioctl_command m \<noteq> None" "newline \<notin> set m" "length (pending (log (tf t))) + length m + 1 \<le> limit"
  shows "\<exists>f' n. serve_message io F (Ptr c) (Ptr a) t =
      Some (t\<lparr>tp := (tp t)\<lparr>pnet := sent_net (socket conn) (fst (respond m (log (tf t)))) n (pnet (tp t)),
                          pheap := (pheap (tp t))(a := None)\<rparr>, tf := f'\<rparr>) \<and>
    ready f' \<and> log f' = snd (respond m (log (tf t)))"
proof -
  obtain f0 where f0: "sys_open F (tf t) = (True, f0)" "valid f0" "log f0 = log (tf t)" "pos f0 = 0"
    using open_ok [OF t(1)] by blast
  let ?fd = "\<lparr>sfile = f0, obuf = []\<rparr>"
  have fd: "valid (sfile ?fd)" "obuf ?fd = []" "pos (sfile ?fd) = 0" using f0 by simp_all
  have len: "length (pending (log (sfile ?fd))) + length m + 1 \<le> limit" using m(3) f0(3) by simp
  obtain r fd1 where h: "handle_message io F m ?fd = Some (r, fd1)" "valid (sfile fd1)" "obuf fd1 = []"
      "log (sfile fd1) = snd (respond m (log (tf t)))"
      "if 0 \<le> sint r then rest (sfile fd1) = fst (respond m (log (tf t))) else fst (respond m (log (tf t))) = []"
    using handle_message_responds [OF io fd m(1,2) len, unfolded stream.select_convs f0(3)] by blast
  note opened = serve_message_def fopen_update_def f0(1) pthread_mutex_lock_def pthread_mutex_unlock_def t(2) msg(1,2) h(1)
  have mutex: "t\<lparr>tmutex := Unlocked\<rparr> = t" using t(2) by simp
  show ?thesis
  proof (cases "0 \<le> sint r")
    case True
    obtain fd2 n where s: "tcp_connection_send_file (stream_read F) (Ptr c) fd1 (tp t) =
          Some (True, fd2, (tp t)\<lparr>pnet := sent_net (socket conn) (rest (sfile fd1)) n (pnet (tp t))\<rparr>)"
        "valid (sfile fd2)" "obuf fd2 = []" "log (sfile fd2) = log (sfile fd1)"
      using send_rest [OF h(2,3) c] by blast
    obtain f' where f': "fclose io F fd2 = Some f'" "ready f'" "log f' = log (sfile fd2)"
      using close_flushed [OF s(2,3)] by blast
    show ?thesis
      using True s f' h(4,5) mutex
      by (intro exI [of _ f'] exI [of _ n]) (simp add: opened)
  next
    case False
    obtain f' where f': "fclose io F fd1 = Some f'" "ready f'" "log f' = log (sfile fd1)"
      using close_flushed [OF h(2,3)] by blast
    show ?thesis
      using False f' h(4,5) mutex
      by (intro exI [of _ f'] exI [of _ 0]) (simp add: opened)
  qed
qed

text \<open>The run of a whole connection.\<close>

lemma thread_loop_session:
  assumes L: "libc_ok L" "memory_up_to L (2 ^ 30)" and io: "stdio_ok io" and cl: "\<And>k. \<not> closing k"
  shows "ready (tf t) \<Longrightarrow> tmutex t = Unlocked \<Longrightarrow> conns (tp t) c = Some conn \<Longrightarrow> is_open conn \<Longrightarrow> whole_sends (pnet (tp t)) \<Longrightarrow>
    finite (dom (pheap (tp t))) \<Longrightarrow> inbox (pnet (tp t)) (socket conn) = client_events ms \<Longrightarrow>
    (\<And>m. m \<in> set ms \<Longrightarrow> newline \<notin> set m \<and> decode_ioctl_command (line_text m) \<noteq> None \<and> length m < 2 ^ 30 \<and>
       length (pending (log (tf t))) + length m + 1 \<le> limit) \<Longrightarrow>
    \<exists>f' n. thread_loop L io F closing (Ptr c) k t = Some (True, t\<lparr>tp := (tp t)
        \<lparr>pnet := took (socket conn) [] (sent_net (socket conn) (fst (session ms (log (tf t)))) n (pnet (tp t))),
         conns := (conns (tp t))(c \<mapsto> conn\<lparr>is_open := False\<rparr>)\<rparr>, tf := f'\<rparr>) \<and>
      ready f' \<and> log f' = snd (session ms (log (tf t)))"
proof (induction ms arbitrary: t k)
  case Nil
  then have "inbox (pnet (tp t)) (socket conn) = map Recv_Byte [] @ Recv_Eof # []" by (simp add: client_events_def)
  from receive_cut(1) [OF L Nil.prems(3) this _ _ Nil.prems(6), of newline]
  have r: "tcp_connection_receive_message L (Ptr c) newline (tp t) = Some (Not_Received,
      (tp t)\<lparr>pnet := took (socket conn) [] (pnet (tp t)), conns := (conns (tp t))(c \<mapsto> conn\<lparr>is_open := False\<rparr>)\<rparr>)"
    by simp
  let ?t = "t\<lparr>tp := (tp t)\<lparr>pnet := took (socket conn) [] (pnet (tp t)), conns := (conns (tp t))(c \<mapsto> conn\<lparr>is_open := False\<rparr>)\<rparr>\<rparr>"
  have "thread_loop L io F closing (Ptr c) (Suc k) ?t = Some (True, ?t)"
    by (subst thread_loop.simps) simp
  then have "thread_loop L io F closing (Ptr c) k t = Some (True, ?t)"
    using r Nil.prems(3,4) cl by (subst thread_loop.simps) simp
  then show ?case
    using Nil.prems(1) by (intro exI [of _ "tf t"] exI [of _ 0]) (simp add: fun_upd_def)
next
  case (Cons m ms)
  let ?l = "log (tf t)" and ?x = "line_text m"
  have m: "newline \<notin> set m" "decode_ioctl_command ?x \<noteq> None" "length m < 2 ^ 30"
      "length (pending ?l) + length m + 1 \<le> limit"
    using Cons.prems(8) [of m] by auto
  have "inbox (pnet (tp t)) (socket conn) = map Recv_Byte m @ Recv_Byte newline # client_events ms"
    using Cons.prems(7) by (simp add: client_events_def line_events_def)
  from receive_line [OF L Cons.prems(3) this m(1,3) Cons.prems(6)] obtain a bs where
    r: "tcp_connection_receive_message L (Ptr c) newline (tp t) = Some (Received (Ptr a),
          (tp t)\<lparr>pnet := took (socket conn) (client_events ms) (pnet (tp t)), pheap := (pheap (tp t))(a \<mapsto> bs)\<rparr>)"
       "pheap (tp t) a = None" "take (Suc (length m)) bs = m @ [nul]"
    by blast
  let ?t1 = "t\<lparr>tp := (tp t)\<lparr>pnet := took (socket conn) (client_events ms) (pnet (tp t)), pheap := (pheap (tp t))(a \<mapsto> bs)\<rparr>\<rparr>"
  have x: "cstring (pheap (tp ?t1)) (Ptr a) = ?x"
    using cstring_terminated [OF _ r(3), of _ a] by (simp add: line_text_def)
  have t1: "ready (tf ?t1)" "tmutex ?t1 = Unlocked" "conns (tp ?t1) c = Some conn" "whole_sends (pnet (tp ?t1))"
      "pheap (tp ?t1) a = Some bs" "decode_ioctl_command ?x \<noteq> None" "newline \<notin> set ?x" "length (pending (log (tf ?t1))) + length ?x + 1 \<le> limit"
    using Cons.prems(1-5) m line_text_subset [of m] by (auto simp del: not_None_eq)
  obtain f1 n1 where s: "serve_message io F (Ptr c) (Ptr a) ?t1 =
      Some (?t1\<lparr>tp := (tp ?t1)\<lparr>pnet := sent_net (socket conn) (fst (respond ?x (log (tf ?t1)))) n1 (pnet (tp ?t1)),
                          pheap := (pheap (tp ?t1))(a := None)\<rparr>, tf := f1\<rparr>)"
      "ready f1" "log f1 = snd (respond ?x (log (tf ?t1)))"
    using serve_message_responds [OF io t1(1-5) x t1(6-8)] by blast
  let ?out = "fst (respond ?x ?l)"
  let ?t2 = "t\<lparr>tp := (tp t)\<lparr>pnet := took (socket conn) (client_events ms) (sent_net (socket conn) ?out n1 (pnet (tp t)))\<rparr>, tf := f1\<rparr>"
  have "(pheap (tp t))(a := None) = pheap (tp t)" using r(2) by (simp add: fun_upd_idem)
  then have "serve_message io F (Ptr c) (Ptr a) ?t1 = Some ?t2"
    using s(1) by (simp add: sent_net_took)
  then have step: "thread_loop L io F closing (Ptr c) k t = thread_loop L io F closing (Ptr c) (Suc k) ?t2"
    using r(1) Cons.prems(3,4) cl by (subst thread_loop.simps) simp
  have l1: "log (tf ?t2) = snd (respond ?x ?l)" using s(3) by simp
  have t2: "ready (tf ?t2)" "tmutex ?t2 = Unlocked" "conns (tp ?t2) c = Some conn" "whole_sends (pnet (tp ?t2))"
      "finite (dom (pheap (tp ?t2)))" "inbox (pnet (tp ?t2)) (socket conn) = client_events ms"
    using Cons.prems(2,3,5,6) s(2) by simp_all
  have lines: "newline \<notin> set m' \<and> decode_ioctl_command (line_text m') \<noteq> None \<and> length m' < 2 ^ 30 \<and>
       length (pending (log (tf ?t2))) + length m' + 1 \<le> limit" if "m' \<in> set ms" for m'
    using Cons.prems(8) [of m'] that pending_respond [of ?x ?l] unfolding l1 by auto
  obtain f' n2 where ih: "thread_loop L io F closing (Ptr c) (Suc k) ?t2 = Some (True, ?t2\<lparr>tp := (tp ?t2)
        \<lparr>pnet := took (socket conn) [] (sent_net (socket conn) (fst (session ms (log (tf ?t2)))) n2 (pnet (tp ?t2))),
         conns := (conns (tp ?t2))(c \<mapsto> conn\<lparr>is_open := False\<rparr>)\<rparr>, tf := f'\<rparr>)"
      "ready f'" "log f' = snd (session ms (log (tf ?t2)))"
    using Cons.IH [OF t2(1-3) Cons.prems(4) t2(4-6) lines, of "Suc k"] by blast
  show ?case
    using ih step by (intro exI [of _ f'] exI [of _ "n1 + n2"])
      (simp add: l1 [simplified] sent_net_took sent_net_sent_net case_prod_beta Let_def fun_upd_def)
qed

lemma thread_routine_session:
  assumes L: "libc_ok L" "memory_up_to L (2 ^ 30)" and io: "stdio_ok io" and cl: "\<And>k. \<not> closing k"
    and ctx: "cs ctx = Some e" "connection (payload e) = Ptr c"
    and t: "ready (tf t)" "tmutex t = Unlocked" "conns (tp t) c = Some conn" "is_open conn" "whole_sends (pnet (tp t))"
      "finite (dom (pheap (tp t)))" "set (addrs (client_address conn)) \<subseteq> dom (pheap (tp t))"
    and inb: "inbox (pnet (tp t)) (socket conn) = client_events ms"
    and ms: "\<And>m. m \<in> set ms \<Longrightarrow> newline \<notin> set m \<and> decode_ioctl_command (line_text m) \<noteq> None \<and> length m < 2 ^ 30 \<and>
       length (pending (log (tf t))) + length m + 1 \<le> limit"
  shows "\<exists>f' n. thread_routine L io F closing ctx cs t = Some (True, cs(ctx \<mapsto> e\<lparr>payload := (payload e)\<lparr>connection := NULL\<rparr>\<rparr>),
      t\<lparr>tf := f', tp := (tp t)\<lparr>pnet := close_sock (socket conn)
           (took (socket conn) [] (sent_net (socket conn) (fst (session ms (log (tf t)))) n (pnet (tp t)))),
         pheap := pheap (tp t) |` (- set (addrs (client_address conn))), conns := (conns (tp t))(c := None)\<rparr>\<rparr>) \<and>
    ready f' \<and> log f' = snd (session ms (log (tf t)))"
proof -
  let ?t1 = "\<lambda>n f'. t\<lparr>tp := (tp t)
        \<lparr>pnet := took (socket conn) [] (sent_net (socket conn) (fst (session ms (log (tf t)))) n (pnet (tp t))),
         conns := (conns (tp t))(c \<mapsto> conn\<lparr>is_open := False\<rparr>)\<rparr>, tf := f'\<rparr>"
  obtain f' n where r: "thread_loop L io F closing (Ptr c) 0 t = Some (True, ?t1 n f')"
      "ready f'" "log f' = snd (session ms (log (tf t)))"
    using thread_loop_session [where k = 0 and closing = closing, OF L io _ t(1-6) inb] cl ms by blast
  have "cfree (client_address conn) (pheap (tp t)) = Some (pheap (tp t) |` (- set (addrs (client_address conn))))"
    by (rule cfree_restrict [OF t(7)])
  with r ctx show ?thesis
    by (intro exI [of _ f'] exI [of _ n]) (simp add: thread_routine_def Let_def)
qed

end

end
