(* ===== verification/Device_File.thy ===== *)
theory Device_File
  imports Session
begin

text \<open>
  The file \<open>/dev/aesdchar\<close>: the system calls of the server end up in the operations of the
  character driver. The server's buffers lie in user memory at the addresses of \<open>user_bufs\<close>; a
  negative result of the driver reaches the server as -1. Interpreting the contract \<open>line_device\<close>
  on these definitions connects the server's theorems with the driver's.
\<close>

subsection \<open>System calls on the device\<close>

record user_bufs =
  wbuf :: uptr
  rbuf :: uptr
  abuf :: uptr

record devfile =
  dfile :: kfile
  dk :: kstate

text \<open>A 32-bit word in memory, least significant byte first, and the structure passed to \<open>ioctl\<close>.\<close>

definition le_bytes :: "uint32 \<Rightarrow> byte list" where
  "le_bytes w = [char_of (unat w), char_of (unat w div 256), char_of (unat w div 65536), char_of (unat w div 16777216)]"

definition bytes_of_seekto :: "aesd_seekto \<Rightarrow> byte list" where
  "bytes_of_seekto st = le_bytes (write_cmd st) @ le_bytes (write_cmd_offset st)"

definition device_open :: "devfile \<Rightarrow> bool \<times> devfile" where
  "device_open d = (case aesd_open \<lparr>f_pos = 0, private_data = No_Device\<rparr> of (r, filp) \<Rightarrow> (r = 0, d\<lparr>dfile := filp\<rparr>))"

definition device_write :: "kernel_api \<Rightarrow> user_bufs \<Rightarrow> byte list \<Rightarrow> devfile \<Rightarrow> (ssize_t \<times> devfile) option" where
  "device_write K U bs d = do {
     let s = (dk d)\<lparr>user_mem := user_store (user_mem (dk d)) (wbuf U) bs\<rparr>;
     (r, p, s) \<leftarrow> aesd_write K (dfile d) (wbuf U) (word_of_nat (length bs)) (f_pos (dfile d)) s;
     Some (if sint r < 0 then - 1 else r, \<lparr>dfile = (dfile d)\<lparr>f_pos := p\<rparr>, dk = s\<rparr>)
   }"

definition device_read :: "kernel_api \<Rightarrow> user_bufs \<Rightarrow> devfile reader" where
  "device_read K U n d = do {
     (r, p, s) \<leftarrow> aesd_read K (dfile d) (rbuf U) (word_of_nat n) (f_pos (dfile d)) (dk d);
     Some (if sint r < 0 then None else Some (user_bytes (user_mem s) (rbuf U) (unat r)),
           \<lparr>dfile = (dfile d)\<lparr>f_pos := p\<rparr>, dk = s\<rparr>)
   }"

definition device_ioctl :: "kernel_api \<Rightarrow> user_bufs \<Rightarrow> uint32 \<Rightarrow> aesd_seekto \<Rightarrow> devfile \<Rightarrow> (cint \<times> devfile) option" where
  "device_ioctl K U cmd st d = do {
     let s = (dk d)\<lparr>user_mem := user_store (user_mem (dk d)) (abuf U) (bytes_of_seekto st)\<rparr>;
     (r, filp, s) \<leftarrow> aesd_ioctl K (dfile d) cmd (abuf U) s;
     Some (if sint r < 0 then - 1 else ucast r, \<lparr>dfile = filp, dk = s\<rparr>)
   }"

definition device_close :: "devfile \<Rightarrow> devfile" where
  "device_close d = (let ignored = aesd_release (dfile d) in d)"

definition device_file :: "kernel_api \<Rightarrow> user_bufs \<Rightarrow> devfile sys_file" where
  "device_file K U = \<lparr>sys_open = device_open, sys_write = device_write K U, sys_read = device_read K U,
     sys_ioctl = device_ioctl K U, sys_close = device_close\<rparr>"

subsection \<open>Valid states\<close>

text \<open>The kernel behaves as documented, the server's buffers are accessible, and a block up to the
  largest size is granted.\<close>

definition device_env :: "kernel_api \<Rightarrow> user_bufs \<Rightarrow> nat set \<Rightarrow> bool" where
  "device_env K U F \<longleftrightarrow> kernel_ok K \<and> finite F \<and>
     (\<forall>um bs. fst (copy_to_user K um (rbuf U) bs) = 0) \<and>
     (\<forall>um n. fst (copy_from_user K um (wbuf U) n) = 0) \<and> (\<forall>um n. fst (copy_from_user K um (abuf U) n) = 0) \<and>
     (\<forall>n h. finite (dom h) \<longrightarrow> n \<le> kmalloc_max K \<longrightarrow> kmalloc K n h \<noteq> NULL)"

definition device_ready :: "kernel_api \<Rightarrow> user_bufs \<Rightarrow> nat set \<Rightarrow> devfile \<Rightarrow> bool" where
  "device_ready K U F d \<longleftrightarrow> device_env K U F \<and> dev_inv K F (dk d)"

definition device_valid :: "kernel_api \<Rightarrow> user_bufs \<Rightarrow> nat set \<Rightarrow> devfile \<Rightarrow> bool" where
  "device_valid K U F d \<longleftrightarrow> device_ready K U F d \<and> private_data (dfile d) = Aesd_Device"

definition device_log :: "devfile \<Rightarrow> log_state" where
  "device_log d = log_of (dk d)"

definition device_pos :: "devfile \<Rightarrow> nat" where
  "device_pos d = unat (f_pos (dfile d))"

definition device_rest :: "devfile \<Rightarrow> byte list" where
  "device_rest d = drop (device_pos d) (content (device_log d))"

definition device_limit :: "kernel_api \<Rightarrow> nat" where
  "device_limit K = min (kmalloc_max K) (2 ^ 30)"

lemma device_envD:
  assumes "device_env K U F"
  shows "kernel_ok K" "finite F" "fst (copy_to_user K um (rbuf U) bs) = 0"
    "fst (copy_from_user K um (wbuf U) n) = 0" "fst (copy_from_user K um (abuf U) n) = 0"
    "finite (dom h) \<Longrightarrow> k \<le> kmalloc_max K \<Longrightarrow> kmalloc K k h \<noteq> NULL"
  using assms by (auto simp: device_env_def)

lemma device_validD:
  assumes "device_valid K U F d"
  shows "device_env K U F" "dev_inv K F (dk d)" "private_data (dfile d) = Aesd_Device"
  using assms by (auto simp: device_valid_def device_ready_def)

lemma dev_inv_finite: "dev_inv K F s \<Longrightarrow> finite F \<Longrightarrow> finite (dom (kheap s))"
  using store_invD(8) [OF dev_invD(2)] by fastforce

subsection \<open>The structure passed to the seek command\<close>

lemma le32_bytes [simp]: "le32 (le_bytes w) = w"
proof -
  let ?n = "unat w"
  define b where "b = ?n div 256"
  define c where "c = b div 256"
  define d where "d = c div 256"
  have bcd: "?n div 65536 = c" "?n div 16777216 = d"
    using div_mult2_eq [of ?n 256 256] div_mult2_eq [of ?n 256 65536] div_mult2_eq [of b 256 256]
    by (simp_all add: b_def c_def d_def)
  have "?n mod 256 + 256 * (b mod 256 + 256 * (c mod 256 + 256 * d)) = ?n"
    using mult_div_mod_eq [of 256 ?n] mult_div_mod_eq [of 256 b] mult_div_mod_eq [of 256 c]
    by (simp add: b_def [symmetric] c_def [symmetric] d_def [symmetric])
  then have "?n mod 256 + 256 * (?n div 256 mod 256 + 256 * (?n div 65536 mod 256 + 256 * (?n div 16777216))) = ?n"
    by (simp only: bcd b_def [symmetric])
  moreover have "?n div 16777216 mod 256 = ?n div 16777216"
    using unat_less_pow [of w] by (simp add: less_mult_imp_div_less)
  ultimately have "foldr (\<lambda>c n. of_char c + 256 * n) (le_bytes w) 0 = ?n"
    by (simp add: le_bytes_def)
  then show ?thesis
    by (simp add: le32_def)
qed

lemma length_le_bytes [simp]: "length (le_bytes w) = 4"
  by (simp add: le_bytes_def)

lemma seekto_of_bytes_of_seekto [simp]: "seekto_of_bytes (bytes_of_seekto st) = st"
  by (simp add: seekto_of_bytes_def bytes_of_seekto_def)

lemma length_bytes_of_seekto [simp]: "length (bytes_of_seekto st) = 8"
  by (simp add: bytes_of_seekto_def)


subsection \<open>The device fulfils the contract\<close>

lemma device_read_ok:
  assumes v: "device_valid K U F d" and n: "0 < n" "n \<le> 4096"
  shows "\<exists>bs d'. device_read K U n d = Some (Some bs, d') \<and> device_valid K U F d' \<and> length bs \<le> n \<and>
    device_rest d = bs @ device_rest d' \<and> (bs = [] \<longrightarrow> device_rest d = []) \<and> device_log d' = device_log d"
proof -
  note env = device_validD(1) [OF v] and inv = device_validD(2) [OF v] and filp = device_validD(3) [OF v]
  note K = device_envD(1) [OF env]
  let ?s = "dk d" and ?pos = "f_pos (dfile d)"
  have cnt: "unat (word_of_nat n :: size_t) = n" by (rule unat_word_of_nat) (use n in simp)
  show ?thesis
  proof (cases "length (content (log_of ?s)) \<le> unat ?pos")
    case True
    have "device_read K U n d = Some (Some [], d)"
      using aesd_read_end [OF inv filp True] by (simp add: device_read_def)
    then show ?thesis using v True by (auto simp: device_rest_def device_pos_def device_log_def)
  next
    case False
    let ?bs = "spec_read (log_of ?s) (unat ?pos) n"
    obtain um where copy: "copy_to_user K (user_mem ?s) (rbuf U) ?bs = (0, um)"
      using device_envD(3) [OF env] by (metis prod.collapse)
    have um: "um = user_store (user_mem ?s) (rbuf U) ?bs"
      using kernel_okD(6) [OF K copy] .
    have len: "length ?bs \<le> n" "unat ?pos + length ?bs \<le> length (content (log_of ?s))" "length (content (log_of ?s)) < 2 ^ 31"
      using length_spec_read length_spec_read_content [of "unat ?pos" "log_of ?s" n] False content_small [OF K inv] by auto
    have ul: "unat (word_of_nat (length ?bs) :: ssize_t) = length ?bs"
      by (rule unat_word_of_nat) (use len in simp)
    have sl: "sint (word_of_nat (length ?bs) :: ssize_t) = int (length ?bs)"
      by (rule sint_word_of_nat) (use len in simp)
    have up: "unat (?pos + word_of_nat (length ?bs)) = unat ?pos + length ?bs"
      using unat_plus_small [of ?pos "word_of_nat (length ?bs)"] ul len by simp
    let ?d' = "\<lparr>dfile = (dfile d)\<lparr>f_pos := ?pos + word_of_nat (length ?bs)\<rparr>, dk = ?s\<lparr>user_mem := um\<rparr>\<rparr>"
    have ub: "user_bytes um (rbuf U) (length ?bs) = ?bs"
      unfolding um by (rule user_bytes_store) (use len in simp)
    have r: "device_read K U n d = Some (Some ?bs, ?d')"
      using aesd_read_data [OF K inv filp, of ?pos "rbuf U" "word_of_nat n" 0 um] False copy sl ul ub
      by (simp add: device_read_def cnt)
    have "drop (unat ?pos) (content (log_of ?s)) = ?bs @ drop (length ?bs) (drop (unat ?pos) (content (log_of ?s)))"
      using spec_read_prefix [of "log_of ?s" "unat ?pos" n] append_take_drop_id by metis
    then have rest: "device_rest d = ?bs @ device_rest ?d'"
      by (simp add: device_rest_def device_pos_def device_log_def up add.commute)
    have ne: "?bs \<noteq> []" using spec_read_Nil_iff [of "log_of ?s" "unat ?pos" n] False n(1) by simp
    have "device_valid K U F ?d'"
      using env inv filp by (simp add: device_valid_def device_ready_def)
    with r rest ne len(1) show ?thesis by (intro exI [of _ ?bs] exI [of _ ?d']) (simp add: device_log_def)
  qed
qed

lemma device_write_ok:
  assumes v: "device_valid K U F d" and bs: "bs \<noteq> []" "length (pending (device_log d)) + length bs \<le> device_limit K"
  shows "\<exists>d'. device_write K U bs d = Some (word_of_nat (length bs), d') \<and> device_valid K U F d' \<and>
    device_log d' = spec_write bs (device_log d) \<and> device_pos d' = device_pos d"
proof -
  note env = device_validD(1) [OF v] and inv = device_validD(2) [OF v] and filp = device_validD(3) [OF v]
  note K = device_envD(1) [OF env]
  let ?c = "word_of_nat (length bs) :: size_t" and ?s = "(dk d)\<lparr>user_mem := user_store (user_mem (dk d)) (wbuf U) bs\<rparr>"
  have lim: "length (pending (log_of (dk d))) + length bs \<le> kmalloc_max K" "length (pending (log_of (dk d))) + length bs \<le> 2 ^ 30"
    using bs(2) by (auto simp: device_limit_def device_log_def)
  have c: "unat ?c = length bs" by (rule unat_word_of_nat) (use lim in simp)
  have sc: "sint ?c = int (length bs)" by (rule sint_word_of_nat) (use lim in simp)
  have inv': "dev_inv K F ?s" using inv by simp
  have "finite (dom (kheap ?s))" using dev_inv_finite [OF inv' device_envD(2) [OF env]] .
  then have mem: "kmalloc K (unat ?c + length (pending (log_of ?s))) (kheap ?s) \<noteq> NULL"
    using device_envD(6) [OF env] lim(1) c by (simp add: add.commute)
  have acc: "write_accepted K (wbuf U) ?c ?s" "write_result K (wbuf U) ?c ?s = ?c"
    using mem device_envD(4) [OF env] by (simp_all add: write_accepted_def write_result_def)
  have ub: "user_bytes (user_mem ?s) (wbuf U) (unat ?c) = bs"
    unfolding c using lim(2) by (simp add: user_bytes_store)
  have pos: "0 < unat ?c + length (pending (log_of ?s))" "unat ?c + length (pending (log_of ?s)) < 2 ^ 64"
    using c bs(1) lim(2) by simp_all
  obtain cb st h where w: "aesd_write K (dfile d) (wbuf U) ?c (f_pos (dfile d)) ?s = Some (?c, f_pos (dfile d),
        ?s\<lparr>kheap := h, aesd_device := (aesd_device ?s)\<lparr>circular_buffer := cb, staging_entry := st\<rparr>\<rparr>)"
      "store_inv (kmalloc_max K) F cb st h"
      "\<lparr>commands = map (entry_bytes h) (live cb), pending = entry_bytes h st\<rparr> = spec_write bs (log_of ?s)"
    using aesd_write_spec [OF K inv' filp pos, of "wbuf U" "f_pos (dfile d)"] acc ub by metis
  let ?s' = "?s\<lparr>kheap := h, aesd_device := (aesd_device ?s)\<lparr>circular_buffer := cb, staging_entry := st\<rparr>\<rparr>"
  have l: "log_of ?s' = spec_write bs (log_of (dk d))"
    using w(3) by (simp add: log_of_def)
  have "device_write K U bs d = Some (?c, \<lparr>dfile = dfile d, dk = ?s'\<rparr>)"
    using w(1) sc by (simp add: device_write_def)
  moreover have "dev_inv K F ?s'"
    using w(2) dev_invD(1) [OF inv] by (simp add: dev_inv_def)
  ultimately show ?thesis
    using l env filp by (simp add: device_valid_def device_ready_def device_log_def device_pos_def)
qed

lemma device_ioctl_ok:
  assumes v: "device_valid K U F d"
  defines "target \<equiv> \<lambda>st. seek_target (device_log d) (unat (write_cmd st)) (unat (write_cmd_offset st))"
  shows "\<exists>d'. device_ioctl K U AESDCHAR_IOCSEEKTO st d = Some (if target st = None then - 1 else 0, d') \<and>
    device_valid K U F d' \<and> device_log d' = device_log d \<and>
    device_pos d' = (case target st of None \<Rightarrow> device_pos d | Some p \<Rightarrow> p)"
proof -
  note env = device_validD(1) [OF v] and inv = device_validD(2) [OF v] and filp = device_validD(3) [OF v]
  note K = device_envD(1) [OF env]
  let ?s = "(dk d)\<lparr>user_mem := user_store (user_mem (dk d)) (abuf U) (bytes_of_seekto st)\<rparr>"
  have inv': "dev_inv K F ?s" using inv by simp
  obtain bs where cp: "copy_from_user K (user_mem ?s) (abuf U) 8 = (0, bs)"
    using device_envD(5) [OF env] by (metis prod.collapse)
  have "user_bytes (user_mem ?s) (abuf U) 8 = bytes_of_seekto st"
    using user_bytes_store [of "bytes_of_seekto st"] by simp
  then have bs: "bs = bytes_of_seekto st"
    using kernel_okD(5) [OF K cp] by simp
  have t: "seek_target (log_of (dk d)) (unat (write_cmd st)) (unat (write_cmd_offset st)) = target st"
    by (simp add: target_def device_log_def)
  note adj = aesd_adjust_file_offset_spec [OF K inv' filp, of "write_cmd st" "write_cmd_offset st"]
  show ?thesis
  proof (cases "target st")
    case None
    then show ?thesis
      using adj env inv filp cp
      by (simp add: device_ioctl_def aesd_ioctl_def sizeof_aesd_seekto_def bs t device_valid_def device_ready_def device_log_def device_pos_def)
  next
    case (Some p)
    then have "p < 2 ^ 31"
      using seek_target_less [of "log_of (dk d)"] content_small [OF K inv] t by fastforce
    then have "unat (word_of_nat p :: loff_t) = p" by (intro unat_word_of_nat) simp
    then show ?thesis
      using Some adj env inv filp cp
      by (simp add: device_ioctl_def aesd_ioctl_def sizeof_aesd_seekto_def bs t device_valid_def device_ready_def device_log_def device_pos_def)
  qed
qed

interpretation aesdchar: line_device "device_valid K U F" "device_file K U" device_rest "device_ready K U F"
    "device_limit K" device_log device_pos
proof unfold_locales
  fix d :: devfile and n :: nat
  assume v: "device_valid K U F d" and n: "0 < n" "n \<le> 4096"
  obtain bs d' where r: "device_read K U n d = Some (Some bs, d')" "device_valid K U F d'" "length bs \<le> n"
      "device_rest d = bs @ device_rest d'" "bs = [] \<longrightarrow> device_rest d = []" "device_log d' = device_log d"
    using device_read_ok [OF v n] by blast
  then show "\<exists>bs d'. sys_read (device_file K U) n d = Some (Some bs, d') \<and> device_valid K U F d' \<and> length bs \<le> n \<and>
      device_rest d = bs @ device_rest d' \<and> (bs = [] \<longrightarrow> device_rest d = [])"
    by (simp add: device_file_def)
  show "device_log d1 = device_log d" if "sys_read (device_file K U) n d = Some (b, d1)" for b d1
    using r(1,6) that by (simp add: device_file_def)
next
  fix d :: devfile and bs :: "byte list"
  assume "device_valid K U F d" "bs \<noteq> []" "length (pending (device_log d)) + length bs \<le> device_limit K"
  then show "\<exists>d'. sys_write (device_file K U) bs d = Some (word_of_nat (length bs), d') \<and> device_valid K U F d' \<and>
      device_log d' = spec_write bs (device_log d) \<and> device_pos d' = device_pos d"
    using device_write_ok by (simp add: device_file_def)
next
  fix d st
  assume "device_valid K U F d"
  then show "\<exists>d'. sys_ioctl (device_file K U) AESDCHAR_IOCSEEKTO st d =
        Some (if seek_target (device_log d) (unat (write_cmd st)) (unat (write_cmd_offset st)) = None then - 1 else 0, d') \<and>
      device_valid K U F d' \<and> device_log d' = device_log d \<and>
      device_pos d' = (case seek_target (device_log d) (unat (write_cmd st)) (unat (write_cmd_offset st)) of
        None \<Rightarrow> device_pos d | Some p \<Rightarrow> p)"
    using device_ioctl_ok by (simp add: device_file_def)
qed (auto simp: device_file_def device_rest_def device_limit_def device_open_def aesd_open_def device_valid_def
  device_ready_def device_log_def device_pos_def device_close_def)


subsection \<open>A client session on the device\<close>

lemma device_session:
  assumes "libc_ok L" and "memory_up_to L (2 ^ 30)" and "stdio_ok io" and "device_env K U F" and "dev_inv K F (dk (tf t))"
    and "cs ctx = Some e" and "connection (payload e) = Ptr c" and "conns (tp t) c = Some conn" and "is_open conn"
    and "tmutex t = Unlocked" and "whole_sends (pnet (tp t))" and "finite (dom (pheap (tp t)))"
    and "set (addrs (client_address conn)) \<subseteq> dom (pheap (tp t))" and "inbox (pnet (tp t)) (socket conn) = client_events ms"
    and "\<forall>m\<in>set ms. newline \<notin> set m \<and> decode_ioctl_command (line_text m) \<noteq> None \<and>
       length (pending (log_of (dk (tf t)))) + length m + 1 \<le> device_limit K"
  shows "\<exists>cs' t'. thread_routine L io (device_file K U) (\<lambda>k. False) ctx cs t = Some (True, cs', t') \<and>
    outbox (pnet (tp t')) = (outbox (pnet (tp t)))(socket conn :=
      outbox (pnet (tp t)) (socket conn) @ fst (session ms (log_of (dk (tf t))))) \<and>
    log_of (dk (tf t')) = snd (session ms (log_of (dk (tf t)))) \<and> dev_inv K F (dk (tf t')) \<and>
    tmutex t' = Unlocked \<and> conns (tp t') = (conns (tp t))(c := None) \<and>
    open_socks (pnet (tp t')) = remove1 (socket conn) (open_socks (pnet (tp t))) \<and>
    pheap (tp t') = pheap (tp t) |` (- set (addrs (client_address conn))) \<and>
    cs' = cs(ctx \<mapsto> e\<lparr>payload := (payload e)\<lparr>connection := NULL\<rparr>\<rparr>)"
proof -
  have rd: "device_ready K U F (tf t)" using assms(4,5) by (simp add: device_ready_def)
  have ms: "newline \<notin> set m \<and> decode_ioctl_command (line_text m) \<noteq> None \<and> length m < 2 ^ 30 \<and>
       length (pending (device_log (tf t))) + length m + 1 \<le> device_limit K" if "m \<in> set ms" for m
    using assms(15) that by (auto simp: device_limit_def device_log_def)
  obtain f' n where r: "thread_routine L io (device_file K U) (\<lambda>k. False) ctx cs t =
      Some (True, cs(ctx \<mapsto> e\<lparr>payload := (payload e)\<lparr>connection := NULL\<rparr>\<rparr>),
      t\<lparr>tf := f', tp := (tp t)\<lparr>pnet := close_sock (socket conn)
           (took (socket conn) [] (sent_net (socket conn) (fst (session ms (device_log (tf t)))) n (pnet (tp t)))),
         pheap := pheap (tp t) |` (- set (addrs (client_address conn))), conns := (conns (tp t))(c := None)\<rparr>\<rparr>)"
      "device_ready K U F f'" "device_log f' = snd (session ms (device_log (tf t)))"
    using aesdchar.thread_routine_session [where closing = "\<lambda>k. False" and cs = cs and ctx = ctx and e = e, OF assms(1-3) _ assms(6,7) rd assms(10,8,9,11-14)] ms
    by blast
  then show ?thesis
    using assms(10) by (auto simp: device_ready_def device_log_def close_sock_def took_def sent_net_def)
qed

subsection \<open>A write without memory\<close>

lemma device_write_no_memory:
  assumes K: "kernel_ok K" and inv: "dev_inv K F (dk d)" and filp: "private_data (dfile d) = Aesd_Device"
    and bs: "bs \<noteq> []" "length bs + length (pending (device_log d)) < 2 ^ 64"
    and mem: "kmalloc K (length bs + length (pending (device_log d))) (kheap (dk d)) = NULL"
  shows "\<exists>d'. device_write K U bs d = Some (- 1, d') \<and> dev_inv K F (dk d') \<and> dfile d' = dfile d \<and> device_log d' = device_log d"
proof -
  let ?c = "word_of_nat (length bs) :: size_t" and ?s = "(dk d)\<lparr>user_mem := user_store (user_mem (dk d)) (wbuf U) bs\<rparr>"
  have c: "unat ?c = length bs" by (rule unat_word_of_nat) (use bs in simp)
  have inv': "dev_inv K F ?s" using inv by simp
  have pos: "0 < unat ?c + length (pending (log_of ?s))" "unat ?c + length (pending (log_of ?s)) < 2 ^ 64"
    using c bs by (simp_all add: device_log_def)
  have nacc: "\<not> write_accepted K (wbuf U) ?c ?s" "write_result K (wbuf U) ?c ?s = - ENOMEM"
    using mem c by (simp_all add: write_accepted_def write_result_def device_log_def)
  obtain cb st h where w: "aesd_write K (dfile d) (wbuf U) ?c (f_pos (dfile d)) ?s = Some (- ENOMEM, f_pos (dfile d),
        ?s\<lparr>kheap := h, aesd_device := (aesd_device ?s)\<lparr>circular_buffer := cb, staging_entry := st\<rparr>\<rparr>)"
      "store_inv (kmalloc_max K) F cb st h"
      "\<lparr>commands = map (entry_bytes h) (live cb), pending = entry_bytes h st\<rparr> = log_of ?s"
    using aesd_write_spec [OF K inv' filp pos, of "wbuf U" "f_pos (dfile d)"] nacc by metis
  let ?s' = "?s\<lparr>kheap := h, aesd_device := (aesd_device ?s)\<lparr>circular_buffer := cb, staging_entry := st\<rparr>\<rparr>"
  have "device_write K U bs d = Some (- 1, \<lparr>dfile = dfile d, dk = ?s'\<rparr>)"
    using w(1) by (simp add: device_write_def)
  moreover have "dev_inv K F ?s'"
    using w(2) dev_invD(1) [OF inv] by (simp add: dev_inv_def)
  moreover have "log_of ?s' = log_of (dk d)"
    using w(3) by (simp add: log_of_def)
  ultimately show ?thesis by (simp add: device_log_def)
qed

subsection \<open>A device for the examples\<close>

text \<open>A kernel that grants every block up to 4 MiB, and a freshly loaded, empty device.\<close>

definition big_kernel :: kernel_api where
  "big_kernel = demo_kernel\<lparr>kmalloc := (\<lambda>n h. if n \<le> 4194304 then next_addr (dom h) else NULL)\<rparr>"

definition sample_bufs :: user_bufs where
  "sample_bufs = \<lparr>wbuf = 4096, rbuf = 8192, abuf = 16384\<rparr>"

definition empty_device :: kstate where
  "empty_device = blank_state\<lparr>aesd_device := zero_dev\<lparr>lock := Unlocked, cdev := Cdev_Added\<rparr>\<rparr>"

definition closed_file :: kfile where
  "closed_file = \<lparr>f_pos = 0, private_data = No_Device\<rparr>"

lemma big_kernel_ok: "kernel_ok big_kernel"
  using demo_kernel_ok next_addr_fresh
  by (fastforce simp: kernel_ok_def kmalloc_ok_def uaccess_ok_def llseek_ok_def fresh_allocator_def big_kernel_def demo_kernel_def split: if_splits)

lemma big_kernel_env: "device_env big_kernel sample_bufs {}"
  using big_kernel_ok by (simp add: device_env_def big_kernel_def demo_kernel_def next_addr_def)

lemma empty_device_inv: "dev_inv K {} empty_device"
  by (rule dev_inv_init) (simp_all add: empty_device_def blank_state_def zero_dev_def)

lemma empty_device_log: "log_of empty_device = \<lparr>commands = [], pending = []\<rparr>"
  by (simp add: log_of_def empty_device_def blank_state_def zero_dev_def)

end
