(* ===== verification/Driver_Run.thy ===== *)
theory Driver_Run
  imports Device_File
begin

text \<open>
  The driver in use: any number of processes hold the device open at the same time and their system
  calls reach the driver in any order. The kernel's file layer is modelled as far as the driver can
  see it: it allocates a \<open>struct file\<close> per \<open>open\<close>, limits the size of a transfer, passes the position
  of the file to \<open>read\<close> and \<open>write\<close> and stores it back. Each operation of the driver runs under the
  device lock, so the calls take effect one after the other; between calls the processes may change
  user memory in any way. The lemmas lift the driver's invariant and its refinement of the command log
  from single operations to whole runs.
\<close>

subsection \<open>System calls of several processes\<close>

datatype syscall = Read uptr size_t | Write uptr size_t | Llseek loff_t cint | Ioctl uint32 uptr

record dsys =
  kst :: kstate
  filps :: "nat \<rightharpoonup> kfile"

definition MAX_RW_COUNT :: size_t where
  "MAX_RW_COUNT = 0x7FFFF000"

fun file_op :: "kernel_api \<Rightarrow> syscall \<Rightarrow> kfile \<Rightarrow> kstate \<Rightarrow> (64 word \<times> kfile \<times> kstate) option" where
  "file_op K (Read buf n) filp s = do {
     (r, pos, s) \<leftarrow> aesd_read K filp buf (min n MAX_RW_COUNT) (f_pos filp) s;
     Some (r, filp\<lparr>f_pos := (if 0 \<le> sint r then pos else f_pos filp)\<rparr>, s)
   }"
| "file_op K (Write buf n) filp s = do {
     (r, pos, s) \<leftarrow> aesd_write K filp buf (min n MAX_RW_COUNT) (f_pos filp) s;
     Some (r, filp\<lparr>f_pos := (if 0 \<le> sint r then pos else f_pos filp)\<rparr>, s)
   }"
| "file_op K (Llseek off whence) filp s = aesd_llseek K filp off whence s"
| "file_op K (Ioctl cmd arg) filp s = aesd_ioctl K filp cmd arg s"

text \<open>The bytes a call hands over to the driver for good, if it did not fail.\<close>

fun handed_over :: "syscall \<Rightarrow> 64 word \<Rightarrow> kstate \<Rightarrow> byte list list" where
  "handed_over (Write buf n) r s = (if 0 \<le> sint r then [user_bytes (user_mem s) buf (unat (min n MAX_RW_COUNT))] else [])"
| "handed_over c r s = []"

text \<open>The only call the driver does not survive: storing nothing when there is nothing.\<close>

fun harmless :: "syscall \<Rightarrow> log_state \<Rightarrow> bool" where
  "harmless (Write buf n) l = (n \<noteq> 0 \<or> pending l \<noteq> [])"
| "harmless c l = True"

inductive driver_run :: "kernel_api \<Rightarrow> dsys \<Rightarrow> byte list list \<Rightarrow> dsys \<Rightarrow> bool" for K s0 where
  start: "driver_run K s0 [] s0"
| user: "driver_run K s0 ws s \<Longrightarrow> driver_run K s0 ws (s\<lparr>kst := (kst s)\<lparr>user_mem := um\<rparr>\<rparr>)"
| opened: "driver_run K s0 ws s \<Longrightarrow> filps s fid = None \<Longrightarrow> aesd_open \<lparr>f_pos = 0, private_data = No_Device\<rparr> = (0, filp) \<Longrightarrow>
    driver_run K s0 ws (s\<lparr>filps := (filps s)(fid \<mapsto> filp)\<rparr>)"
| released: "driver_run K s0 ws s \<Longrightarrow> filps s fid = Some filp \<Longrightarrow> aesd_release filp = r \<Longrightarrow>
    driver_run K s0 ws (s\<lparr>filps := (filps s)(fid := None)\<rparr>)"
| call: "driver_run K s0 ws s \<Longrightarrow> filps s fid = Some filp \<Longrightarrow> harmless c (log_of (kst s)) \<Longrightarrow>
    file_op K c filp (kst s) = Some (r, filp', k') \<Longrightarrow>
    driver_run K s0 (ws @ handed_over c r (kst s)) \<lparr>kst = k', filps = (filps s)(fid \<mapsto> filp')\<rparr>"

subsection \<open>One call\<close>

lemma max_rw: "unat (min n MAX_RW_COUNT) \<le> 0x7FFFF000" "min n MAX_RW_COUNT = 0 \<longleftrightarrow> n = 0"
  by (auto simp: MAX_RW_COUNT_def min_def word_le_nat_alt)

text \<open>Every harmless call returns, keeps the invariant and the file's link to the device, and has the effect
  of the log operation on what it handed over.\<close>

lemma file_op_spec:
  assumes K: "kernel_ok K" and inv: "dev_inv K F s" and filp: "private_data filp = Aesd_Device" and c: "harmless c (log_of s)"
  shows "\<exists>r filp' s'. file_op K c filp s = Some (r, filp', s') \<and> dev_inv K F s' \<and> private_data filp' = Aesd_Device \<and>
    log_of s' = fold spec_write (handed_over c r s) (log_of s)"
proof (cases c)
  case (Read buf n)
  let ?n = "min n MAX_RW_COUNT"
  obtain left um where copy: "copy_to_user K (user_mem s) buf (spec_read (log_of s) (unat (f_pos filp)) (unat ?n)) = (left, um)"
    by fastforce
  show ?thesis
  proof (cases "length (content (log_of s)) \<le> unat (f_pos filp)")
    case True
    then show ?thesis using Read filp inv by (simp add: aesd_read_end [OF inv filp True])
  next
    case False
    then have "unat (f_pos filp) < length (content (log_of s))" by simp
    from aesd_read_data [OF K inv filp this copy] show ?thesis using Read filp inv by simp
  qed
next
  case (Write buf n)
  let ?n = "min n MAX_RW_COUNT"
  have "length (pending (log_of s)) < 2 ^ 31"
    using K pending_log_of [OF inv] staging_bound [OF store_invD(4) [OF dev_invD(2) [OF inv]]] by (simp add: kernel_ok_def kmalloc_ok_def)
  then have n: "0 < unat ?n + length (pending (log_of s))" "unat ?n + length (pending (log_of s)) < 2 ^ 64"
    using c Write max_rw [of n] by (auto simp: unat_gt_0)
  obtain cb st h where w: "aesd_write K filp buf ?n (f_pos filp) s = Some (write_result K buf ?n s, f_pos filp,
        s\<lparr>kheap := h, aesd_device := (aesd_device s)\<lparr>circular_buffer := cb, staging_entry := st\<rparr>\<rparr>)"
      "store_inv (kmalloc_max K) F cb st h"
      "\<lparr>commands = map (entry_bytes h) (live cb), pending = entry_bytes h st\<rparr> =
        (if write_accepted K buf ?n s then spec_write (user_bytes (user_mem s) buf (unat ?n)) (log_of s) else log_of s)"
    using aesd_write_spec [OF K inv filp n, of buf "f_pos filp"] by metis
  have "sint ?n = int (unat ?n)"
    by (rule sint_unat) (use max_rw(1) [of n] in simp)
  then have "0 \<le> sint (write_result K buf ?n s) \<longleftrightarrow> write_accepted K buf ?n s"
    by (simp add: write_result_def write_accepted_def)
  then show ?thesis
    using Write w filp dev_invD(1) [OF inv] by (simp add: dev_inv_def log_of_def)
next
  case (Llseek off whence)
  obtain r pos where "aesd_llseek K filp off whence s = Some (r, filp\<lparr>f_pos := pos\<rparr>, s)"
    using aesd_llseek_spec [OF K inv filp] by blast
  then show ?thesis using Llseek filp inv by simp
next
  case (Ioctl cmd arg)
  have same: "\<exists>pos. filp = filp\<lparr>f_pos := pos\<rparr>" by (rule exI [of _ "f_pos filp"]) simp
  have "\<exists>r pos. aesd_adjust_file_offset filp a b s = Some (r, filp\<lparr>f_pos := pos\<rparr>, s)" for a b
    using aesd_adjust_file_offset_spec [OF K inv filp, of a b] same
    by (cases "seek_target (log_of s) (unat a) (unat b)") auto
  then have "\<exists>r pos. aesd_ioctl K filp cmd arg s = Some (r, filp\<lparr>f_pos := pos\<rparr>, s)"
    using same by (cases "copy_from_user K (user_mem s) arg sizeof_aesd_seekto") (simp add: aesd_ioctl_def Let_def)
  then show ?thesis using Ioctl filp inv by auto
qed

subsection \<open>Runs\<close>

definition run_inv :: "kernel_api \<Rightarrow> nat set \<Rightarrow> dsys \<Rightarrow> bool" where
  "run_inv K F s \<longleftrightarrow> dev_inv K F (kst s) \<and> (\<forall>fid filp. filps s fid = Some filp \<longrightarrow> private_data filp = Aesd_Device)"

lemma run_refines_log:
  assumes "kernel_ok K" and "driver_run K s0 ws s" and "run_inv K F s0"
  shows "run_inv K F s \<and> log_of (kst s) = fold spec_write ws (log_of (kst s0))"
  using assms(2,3)
proof induction
  case (opened ws s fid filp)
  then show ?case by (auto simp: run_inv_def aesd_open_def)
next
  case (call ws s fid filp c r filp' k')
  then have "dev_inv K F (kst s)" "private_data filp = Aesd_Device" by (auto simp: run_inv_def)
  with call show ?case
    using file_op_spec [OF assms(1) _ _ call.hyps(3), of F filp] by (auto simp: run_inv_def)
qed (auto simp: run_inv_def)

text \<open>The reference: cut everything that was ever written into lines.\<close>

fun cut_lines :: "byte list \<Rightarrow> byte list \<Rightarrow> byte list list \<times> byte list" where
  "cut_lines acc [] = ([], acc)"
| "cut_lines acc (b # bs) =
     (if b = newline then (let (ls, rest) = cut_lines [] bs in ((acc @ [b]) # ls, rest)) else cut_lines (acc @ [b]) bs)"

lemma cut_lines_append:
  "cut_lines acc (xs @ ys) = (let (ls, p) = cut_lines acc xs; (ms, q) = cut_lines p ys in (ls @ ms, q))"
  by (induction acc xs rule: cut_lines.induct) (simp_all add: case_prod_beta Let_def)

lemma cut_lines_no_newline: "newline \<notin> set xs \<Longrightarrow> cut_lines acc xs = ([], acc @ xs)"
  by (induction acc xs rule: cut_lines.induct) auto

text \<open>A write that has a newline at most as its last byte.\<close>

definition one_line :: "byte list \<Rightarrow> bool" where
  "one_line w \<longleftrightarrow> newline \<notin> set (butlast w)"

text \<open>The logs a run from an empty device goes through.\<close>

definition good_log :: "log_state \<Rightarrow> bool" where
  "good_log l \<longleftrightarrow> length (commands l) \<le> 10 \<and> newline \<notin> set (pending l)"

lemma spec_write_cut:
  assumes "one_line w" and "good_log l"
  shows "spec_write w l = \<lparr>commands = newest 10 (commands l @ fst (cut_lines (pending l) w)), pending = snd (cut_lines (pending l) w)\<rparr>"
    and "good_log (spec_write w l)"
proof -
  show eq: "spec_write w l = \<lparr>commands = newest 10 (commands l @ fst (cut_lines (pending l) w)), pending = snd (cut_lines (pending l) w)\<rparr>"
  proof (cases w rule: rev_cases)
    case Nil
    then show ?thesis using assms(2) by (cases l) (auto simp: good_log_def spec_write_def Let_def dest: last_in_set)
  next
    case (snoc u x)
    then have "newline \<notin> set u" using assms(1) by (simp add: one_line_def)
    with snoc show ?thesis
      using assms(2) by (simp add: good_log_def spec_write_def cut_lines_append cut_lines_no_newline)
  qed
  have "newline \<notin> set (snd (cut_lines acc xs))" if "newline \<notin> set acc" for acc xs
    using that by (induction acc xs rule: cut_lines.induct) (auto simp: case_prod_beta Let_def)
  then show "good_log (spec_write w l)"
    using assms(2) by (simp add: eq good_log_def)
qed

lemma fold_spec_write_cut:
  "\<forall>w\<in>set ws. one_line w \<Longrightarrow> good_log l \<Longrightarrow>
   fold spec_write ws l = \<lparr>commands = newest 10 (commands l @ fst (cut_lines (pending l) (concat ws))),
     pending = snd (cut_lines (pending l) (concat ws))\<rparr>"
proof (induction ws arbitrary: l)
  case Nil
  then show ?case by (simp add: good_log_def)
next
  case (Cons w ws)
  have w: "one_line w" "\<forall>w\<in>set ws. one_line w" using Cons.prems(1) by auto
  show ?case
    using Cons.IH [OF w(2) spec_write_cut(2) [OF w(1) Cons.prems(2)]] spec_write_cut(1) [OF w(1) Cons.prems(2)]
    by (simp add: cut_lines_append case_prod_beta Let_def newest_append_newest)
qed

subsection \<open>Properties\<close>



text \<open>A run with two processes: both open the device, the first one writes \<open>ab\<close>, the second one finishes the line.\<close>

lemma run_write:
  assumes "device_env K U F" and "driver_run K s0 ws s" and "run_inv K F s" and "filps s fid = Some filp"
    and "w \<noteq> []" and "length w \<le> 0x7FFFF000" and "length w + length (pending (log_of (kst s))) \<le> kmalloc_max K"
  shows "\<exists>s'. driver_run K s0 (ws @ [w]) s' \<and> dom (filps s') = dom (filps s)"
proof -
  note env = device_envD [OF assms(1)]
  let ?k = "(kst s)\<lparr>user_mem := user_store (user_mem (kst s)) (wbuf U) w\<rparr>"
  let ?n = "word_of_nat (length w) :: size_t"
  have n: "unat ?n = length w" using assms(6) by (simp add: unat_word_of_nat)
  then have m: "min ?n MAX_RW_COUNT = ?n" using assms(6) by (simp add: MAX_RW_COUNT_def min_def word_le_nat_alt)
  have k: "dev_inv K F ?k" "private_data filp = Aesd_Device" using assms(3,4) by (auto simp: run_inv_def)
  have w: "harmless (Write (wbuf U) ?n) (log_of ?k)" using assms(5) n by auto
  have u: "driver_run K s0 ws (s\<lparr>kst := ?k\<rparr>)" by (rule user [OF assms(2)])
  obtain r filp' k' where c: "file_op K (Write (wbuf U) ?n) filp ?k = Some (r, filp', k')"
    using file_op_spec [OF env(1) k w] by blast
  have "kmalloc K (unat ?n + length (pending (log_of ?k))) (kheap ?k) \<noteq> NULL"
    using env(6) [OF dev_inv_finite [OF k(1) env(2)]] assms(7) n by simp
  then have "write_result K (wbuf U) ?n ?k = ?n" using env(4) by (simp add: write_result_def)
  moreover have "aesd_write K filp (wbuf U) ?n (f_pos filp) ?k \<noteq> None \<Longrightarrow> r = write_result K (wbuf U) ?n ?k"
  proof -
    have "0 < unat ?n + length (pending (log_of ?k))" "unat ?n + length (pending (log_of ?k)) < 2 ^ 64"
      using assms(5,7) n kernel_okD(3) [OF env(1)] by auto
    from aesd_write_spec [OF env(1) k this, of "wbuf U" "f_pos filp"] c m show ?thesis
      by (auto split: bind_splits)
  qed
  ultimately have "r = ?n" using c m by (auto split: bind_splits)
  moreover have "0 \<le> sint ?n" using sint_word_of_nat [of "length w", where 'a = 64] assms(6) by simp
  ultimately have "handed_over (Write (wbuf U) ?n) r ?k = [w]"
    using n m assms(6) user_bytes_store [of w] by simp
  then show ?thesis
    using call [OF u, of fid filp "Write (wbuf U) ?n" r filp' k'] assms(4) w c
    by (intro exI [of _ "\<lparr>kst = k', filps = (filps s)(fid \<mapsto> filp')\<rparr>"]) auto
qed

definition fresh_system :: dsys where
  "fresh_system = \<lparr>kst = empty_device, filps = Map.empty\<rparr>"

lemma fresh_system_inv: "run_inv big_kernel {} fresh_system"
  using empty_device_inv by (simp add: run_inv_def fresh_system_def)

lemma shared_run: "\<exists>s. driver_run big_kernel fresh_system [''ab'', ''c'' @ [newline]] s \<and> dom (filps s) = {3, 4}"
proof -
  let ?f = "\<lparr>f_pos = 0, private_data = Aesd_Device\<rparr>"
  let ?s = "fresh_system\<lparr>filps := [3 \<mapsto> ?f, 4 \<mapsto> ?f]\<rparr>"
  have op: "aesd_open \<lparr>f_pos = 0, private_data = No_Device\<rparr> = (0, ?f)" by (simp add: aesd_open_def)
  have r0: "driver_run big_kernel fresh_system [] (fresh_system\<lparr>filps := [3 \<mapsto> ?f]\<rparr>)"
    using opened [OF start _ op, of fresh_system 3] by (simp add: fresh_system_def)
  have r1: "driver_run big_kernel fresh_system [] ?s"
    using opened [OF r0 _ op, of 4] by (simp add: fresh_system_def)
  note big = big_kernel_env
  note log = run_refines_log [OF big_kernel_ok _ fresh_system_inv]
  obtain s1 where s1: "driver_run big_kernel fresh_system ([] @ [''ab'']) s1" "dom (filps s1) = {3, 4}"
    using run_write [OF big r1 conjunct1 [OF log [OF r1]], of 3 ?f "''ab''"]
    by (auto simp: fresh_system_def empty_device_log big_kernel_def demo_kernel_def)
  then obtain f4 where f4: "filps s1 4 = Some f4" by blast
  have "log_of (kst s1) = \<lparr>commands = [], pending = ''ab''\<rparr>"
    using log [OF s1(1)] by (simp add: fresh_system_def empty_device_log spec_write_def)
  then obtain s2 where "driver_run big_kernel fresh_system (([] @ [''ab'']) @ [''c'' @ [newline]]) s2" "dom (filps s2) = {3, 4}"
    using run_write [OF big s1(1) conjunct1 [OF log [OF s1(1)]] f4, of "''c'' @ [newline]"] s1(2)
    by (auto simp: big_kernel_def demo_kernel_def)
  then show ?thesis by auto
qed



end
