(* ===== verification/Server_Threads.thy ===== *)
theory Server_Threads
  imports Device_File
begin

text \<open>
  The server's threads at work together: every connection's thread runs the loop of
  \<open>thread_routine\<close> (\<^verbatim>\<open>server/src/connection_manager.c\<close>), all on the same process memory, the same
  device and the same \<open>file_mutex\<close>, each with its own open file. A step is one call of the loop,
  and steps of different threads interleave freely; only \<open>pthread_mutex_lock\<close> waits. A thread is
  identified by the address of its connection.

  The ghost history of a run lists the lines in the order in which they were handled. The invariant
  ties it to the device and to every client: the run is equivalent to serving the lines one after
  the other in that order.
\<close>

subsection \<open>Threads and their steps\<close>

text \<open>Where a thread is in its loop, with the message, the open file and the bytes its stream has not written
  yet.\<close>

datatype phase =
    Receiving
  | Before_Open ptr
  | Before_Lock ptr kfile
  | Before_Handle ptr kfile
  | Before_Send ptr kfile "byte list"
  | Before_Unlock ptr kfile "byte list"
  | Before_Close ptr kfile "byte list"
  | Finished

record server =
  proc :: pstate
  dev :: kstate
  holder :: "nat option"
  close_flag :: bool
  phases :: "nat \<rightharpoonup> phase"

definition on :: "kstate \<Rightarrow> kfile \<Rightarrow> byte list \<Rightarrow> devfile stream" where
  "on k filp ob = \<lparr>sfile = \<lparr>dfile = filp, dk = k\<rparr>, obuf = ob\<rparr>"

definition at :: "nat \<Rightarrow> phase \<Rightarrow> server \<Rightarrow> server" where
  "at c ph s = s\<lparr>phases := (phases s)(c \<mapsto> ph)\<rparr>"

text \<open>The label of a step is the line that was handled, if any.\<close>

type_synonym history = "(nat \<times> byte list) list"

inductive thread_step :: "libc \<Rightarrow> stdio \<Rightarrow> kernel_api \<Rightarrow> (nat \<Rightarrow> user_bufs) \<Rightarrow> nat \<Rightarrow> server \<Rightarrow> history \<Rightarrow> server \<Rightarrow> bool"
  for L io K U c s where
  leave: "phases s c = Some Receiving \<Longrightarrow> tcp_connection_is_open (Ptr c) (proc s) = Some b \<Longrightarrow> \<not> b \<or> close_flag s \<Longrightarrow>
    thread_step L io K U c s [] (at c Finished s)"
| receive: "phases s c = Some Receiving \<Longrightarrow> tcp_connection_is_open (Ptr c) (proc s) = Some True \<Longrightarrow> \<not> close_flag s \<Longrightarrow>
    tcp_connection_receive_message L (Ptr c) newline (proc s) = Some (Received msg, p) \<Longrightarrow>
    thread_step L io K U c s [] (at c (Before_Open msg) (s\<lparr>proc := p\<rparr>))"
| receive_nothing: "phases s c = Some Receiving \<Longrightarrow> tcp_connection_is_open (Ptr c) (proc s) = Some True \<Longrightarrow> \<not> close_flag s \<Longrightarrow>
    tcp_connection_receive_message L (Ptr c) newline (proc s) = Some (Not_Received, p) \<Longrightarrow>
    thread_step L io K U c s [] (at c Receiving (s\<lparr>proc := p\<rparr>))"
| fopen: "phases s c = Some (Before_Open msg) \<Longrightarrow>
    fopen_update (device_file K (U c)) \<lparr>dfile = \<lparr>f_pos = 0, private_data = No_Device\<rparr>, dk = dev s\<rparr> = (Some fd, d) \<Longrightarrow>
    thread_step L io K U c s [] (at c (Before_Lock msg (dfile (sfile fd))) (s\<lparr>dev := dk (sfile fd)\<rparr>))"
| fopen_fails: "phases s c = Some (Before_Open msg) \<Longrightarrow>
    fopen_update (device_file K (U c)) \<lparr>dfile = \<lparr>f_pos = 0, private_data = No_Device\<rparr>, dk = dev s\<rparr> = (None, d) \<Longrightarrow>
    thread_step L io K U c s [] (at c Receiving (s\<lparr>dev := dk d\<rparr>))"
| lock: "phases s c = Some (Before_Lock msg filp) \<Longrightarrow> holder s = None \<Longrightarrow>
    thread_step L io K U c s [] (at c (Before_Handle msg filp) (s\<lparr>holder := Some c\<rparr>))"
| handle: "phases s c = Some (Before_Handle msg filp) \<Longrightarrow>
    handle_message io (device_file K (U c)) (cstring (pheap (proc s)) msg) (on (dev s) filp []) = Some (r, fd) \<Longrightarrow>
    thread_step L io K U c s [(c, cstring (pheap (proc s)) msg)]
      (at c ((if 0 \<le> sint r then Before_Send else Before_Unlock) msg (dfile (sfile fd)) (obuf fd)) (s\<lparr>dev := dk (sfile fd)\<rparr>))"
| send: "phases s c = Some (Before_Send msg filp ob) \<Longrightarrow>
    tcp_connection_send_file (stream_read (device_file K (U c))) (Ptr c) (on (dev s) filp ob) (proc s) = Some (b, fd, p) \<Longrightarrow>
    thread_step L io K U c s [] (at c (Before_Unlock msg (dfile (sfile fd)) (obuf fd)) (s\<lparr>proc := p, dev := dk (sfile fd)\<rparr>))"
| unlock: "phases s c = Some (Before_Unlock msg filp ob) \<Longrightarrow>
    thread_step L io K U c s [] (at c (Before_Close msg filp ob) (s\<lparr>holder := None\<rparr>))"
| close: "phases s c = Some (Before_Close msg filp ob) \<Longrightarrow> cfree msg (pheap (proc s)) = Some h \<Longrightarrow>
    fclose io (device_file K (U c)) (on (dev s) filp ob) = Some d \<Longrightarrow>
    thread_step L io K U c s [] (at c Receiving (s\<lparr>proc := (proc s)\<lparr>pheap := h\<rparr>, dev := dk d\<rparr>))"

text \<open>A run counts its steps and collects the handled lines. The main thread sets \<open>close_connections\<close> at some
  point, or never.\<close>

inductive server_run :: "libc \<Rightarrow> stdio \<Rightarrow> kernel_api \<Rightarrow> (nat \<Rightarrow> user_bufs) \<Rightarrow> server \<Rightarrow> nat \<Rightarrow> history \<Rightarrow> server \<Rightarrow> bool"
  for L io K U s0 where
  begin_run: "server_run L io K U s0 0 [] s0"
| shutdown: "server_run L io K U s0 n H s \<Longrightarrow> server_run L io K U s0 n H (s\<lparr>close_flag := True\<rparr>)"
| step: "server_run L io K U s0 n H s \<Longrightarrow> thread_step L io K U c s ev s' \<Longrightarrow> server_run L io K U s0 (Suc n) (H @ ev) s'"

subsection \<open>Serving one line after the other\<close>

fun replay :: "history \<Rightarrow> log_state \<Rightarrow> (nat \<Rightarrow> byte list) \<times> log_state" where
  "replay [] l = (\<lambda>c. [], l)"
| "replay ((c, m) # H) l = (let (out, l1) = respond m l; (outs, l2) = replay H l1 in (outs(c := out @ outs c), l2))"

lemma replay_snoc:
  "replay (H @ [(c, m)]) l = (let (outs, l1) = replay H l; (out, l2) = respond m l1 in (outs(c := outs c @ out), l2))"
  by (induction H arbitrary: l) (auto simp: case_prod_beta Let_def fun_eq_iff)

lemma pending_replay: "length (pending (snd (replay H l))) \<le> length (pending l)"
proof (induction H arbitrary: l)
  case (Cons e H)
  show ?case
    using Cons.IH [of "snd (respond (snd e) l)"] pending_respond [of "snd e" l]
    by (cases e) (simp add: case_prod_beta Let_def)
qed simp

abbreviation handled :: "nat \<Rightarrow> history \<Rightarrow> byte list list" where
  "handled c H \<equiv> map snd (filter (\<lambda>e. fst e = c) H)"

subsection \<open>The invariant\<close>

text \<open>What a thread's part of the invariant depends on, besides memory and the device.\<close>

record view =
  vconn :: "tcp_connection option"
  vin :: "recv_event list"
  vout :: "byte list"
  vdone :: "byte list list"
  vanswers :: "byte list"
  vlock :: bool
  vclose :: bool

text \<open>The clients: for each connection its socket, the lines it sends, and what had been sent to it before.\<close>

record clients =
  sock :: "nat \<Rightarrow> cint"
  lines :: "nat \<Rightarrow> byte list list"
  earlier :: "nat \<Rightarrow> byte list"

definition view_of :: "clients \<Rightarrow> log_state \<Rightarrow> history \<Rightarrow> server \<Rightarrow> nat \<Rightarrow> view" where
  "view_of C l0 H s c = \<lparr>vconn = conns (proc s) c, vin = inbox (pnet (proc s)) (sock C c), vout = outbox (pnet (proc s)) (sock C c),
     vdone = handled c H, vanswers = fst (replay H l0) c, vlock = (holder s = Some c), vclose = close_flag s\<rparr>"

fun message_of :: "phase \<Rightarrow> ptr" where
  "message_of Receiving = NULL"
| "message_of (Before_Open msg) = msg"
| "message_of (Before_Lock msg filp) = msg"
| "message_of (Before_Handle msg filp) = msg"
| "message_of (Before_Send msg filp ob) = msg"
| "message_of (Before_Unlock msg filp ob) = msg"
| "message_of (Before_Close msg filp ob) = msg"
| "message_of Finished = NULL"

definition new_file :: kfile where
  "new_file = \<lparr>f_pos = 0, private_data = Aesd_Device\<rparr>"

text \<open>The phase of a thread, given what is left of its answers to send (\<open>rest\<close>) and the line it has in its
  hands (\<open>now\<close>).\<close>

fun phase_ok :: "heap \<Rightarrow> kstate \<Rightarrow> bool \<Rightarrow> byte list list \<Rightarrow> byte list \<Rightarrow> phase \<Rightarrow> bool" where
  "phase_ok h k locked now rest Receiving = (now = [] \<and> rest = [] \<and> \<not> locked)"
| "phase_ok h k locked now rest Finished = (now = [] \<and> rest = [] \<and> \<not> locked)"
| "phase_ok h k locked now rest (Before_Open msg) = (now = [cstring h msg] \<and> rest = [] \<and> \<not> locked)"
| "phase_ok h k locked now rest (Before_Lock msg filp) = (now = [cstring h msg] \<and> rest = [] \<and> \<not> locked \<and> filp = new_file)"
| "phase_ok h k locked now rest (Before_Handle msg filp) = (now = [cstring h msg] \<and> rest = [] \<and> locked \<and> filp = new_file)"
| "phase_ok h k locked now rest (Before_Send msg filp ob) = (now = [] \<and> locked \<and> ob = [] \<and> private_data filp = Aesd_Device \<and>
     rest = device_rest \<lparr>dfile = filp, dk = k\<rparr>)"
| "phase_ok h k locked now rest (Before_Unlock msg filp ob) = (now = [] \<and> rest = [] \<and> locked \<and> ob = [] \<and> private_data filp = Aesd_Device)"
| "phase_ok h k locked now rest (Before_Close msg filp ob) = (now = [] \<and> rest = [] \<and> \<not> locked \<and> ob = [] \<and> private_data filp = Aesd_Device)"

text \<open>The client's progress: its connection, the lines it still has to send (\<open>todo\<close>), and its answers.\<close>

definition progress :: "clients \<Rightarrow> nat \<Rightarrow> view \<Rightarrow> byte list list \<Rightarrow> byte list \<Rightarrow> bool" where
  "progress C c v now rest \<longleftrightarrow> (\<exists>conn todo. vconn v = Some conn \<and> socket conn = sock C c \<and>
     (if is_open conn then vin v = client_events todo else todo = []) \<and>
     map line_text (lines C c) = vdone v @ now @ map line_text todo \<and> set todo \<subseteq> set (lines C c) \<and>
     earlier C c @ vanswers v = vout v @ rest)"

definition thread_ok :: "clients \<Rightarrow> nat \<Rightarrow> view \<Rightarrow> heap \<Rightarrow> kstate \<Rightarrow> phase \<Rightarrow> bool" where
  "thread_ok C c v h k ph \<longleftrightarrow> (message_of ph = NULL \<longrightarrow> ph = Receiving \<or> ph = Finished) \<and> set (addrs (message_of ph)) \<subseteq> dom h \<and>
     (ph = Finished \<and> \<not> vclose v \<longrightarrow> (\<exists>conn. vconn v = Some conn \<and> \<not> is_open conn)) \<and>
     (\<exists>now rest. progress C c v now rest \<and> phase_ok h k (vlock v) now rest ph)"

lemma progress_flags [simp]: "progress C c (v\<lparr>vlock := b\<rparr>) now rest = progress C c v now rest"
    "progress C c (v\<lparr>vclose := b\<rparr>) now rest = progress C c v now rest"
  by (simp_all add: progress_def)

definition server_inv :: "kernel_api \<Rightarrow> nat set \<Rightarrow> clients \<Rightarrow> log_state \<Rightarrow> history \<Rightarrow> server \<Rightarrow> bool" where
  "server_inv K F C l0 H s \<longleftrightarrow> dev_inv K F (dev s) \<and> log_of (dev s) = snd (replay H l0) \<and>
     whole_sends (pnet (proc s)) \<and> finite (dom (pheap (proc s))) \<and> (\<forall>c. holder s = Some c \<longrightarrow> phases s c \<noteq> None) \<and>
     (\<forall>c ph. phases s c = Some ph \<longrightarrow> thread_ok C c (view_of C l0 H s c) (pheap (proc s)) (dev s) ph) \<and>
     (\<forall>c d p q a. phases s c = Some p \<longrightarrow> phases s d = Some q \<longrightarrow> message_of p = Ptr a \<longrightarrow> message_of q = Ptr a \<longrightarrow> c = d)"

text \<open>What the clients send is within the limits, they have different sockets, and the device is clean at
  the start.\<close>

definition clients_ok :: "kernel_api \<Rightarrow> clients \<Rightarrow> nat set \<Rightarrow> bool" where
  "clients_ok K C cs \<longleftrightarrow> inj_on (sock C) cs \<and> (\<forall>c\<in>cs. \<forall>m\<in>set (lines C c).
     newline \<notin> set m \<and> decode_ioctl_command (line_text m) \<noteq> None \<and> length m + 1 \<le> device_limit K)"

definition server_env :: "libc \<Rightarrow> stdio \<Rightarrow> kernel_api \<Rightarrow> (nat \<Rightarrow> user_bufs) \<Rightarrow> nat set \<Rightarrow> bool" where
  "server_env L io K U F \<longleftrightarrow> libc_ok L \<and> memory_up_to L (2 ^ 30) \<and> stdio_ok io \<and> (\<forall>c. device_env K (U c) F)"

lemma server_envD:
  assumes "server_env L io K U F"
  shows "libc_ok L" "memory_up_to L (2 ^ 30)" "stdio_ok io" "device_env K (U c) F"
  using assms by (auto simp: server_env_def)

text \<open>The accepted clients at the start: every thread is about to receive, every connection is open and nothing of
  what the client will send has been received; no command is unfinished on the device.\<close>

definition clients_accepted :: "kernel_api \<Rightarrow> nat set \<Rightarrow> clients \<Rightarrow> server \<Rightarrow> bool" where
  "clients_accepted K F C s \<longleftrightarrow> clients_ok K C (dom (phases s)) \<and> dev_inv K F (dev s) \<and> pending (log_of (dev s)) = [] \<and>
     whole_sends (pnet (proc s)) \<and> finite (dom (pheap (proc s))) \<and> holder s = None \<and>
     (\<forall>c ph. phases s c = Some ph \<longrightarrow> ph = Receiving \<and> inbox (pnet (proc s)) (sock C c) = client_events (lines C c) \<and>
        outbox (pnet (proc s)) (sock C c) = earlier C c \<and>
        (\<exists>conn. conns (proc s) c = Some conn \<and> socket conn = sock C c \<and> is_open conn))"

lemma device_rest_cong: "log_of k' = log_of k \<Longrightarrow> device_rest \<lparr>dfile = f, dk = k'\<rparr> = device_rest \<lparr>dfile = f, dk = k\<rparr>"
  by (simp add: device_rest_def device_log_def device_pos_def)

lemma device_rest_fields [simp]: "device_rest \<lparr>dfile = dfile d, dk = dk d\<rparr> = device_rest d"
  by (simp add: device_rest_def device_log_def device_pos_def)

lemma cstring_cong: "(\<And>a. msg = Ptr a \<Longrightarrow> h' a = h a) \<Longrightarrow> cstring h' msg = cstring h msg"
  using block_bytes_cong [of msg h' h] by (cases msg) (simp_all add: cstring_def)

lemma thread_ok_frame:
  assumes "thread_ok C c v h k ph" and h: "\<And>a. message_of ph = Ptr a \<Longrightarrow> h' a = h a" and k: "log_of k' = log_of k \<or> \<not> vlock v"
  shows "thread_ok C c v h' k' ph"
proof -
  have "set (addrs (message_of ph)) \<subseteq> dom h \<Longrightarrow> set (addrs (message_of ph)) \<subseteq> dom h'"
    using h by (cases "message_of ph") (auto simp: dom_def)
  moreover have "phase_ok h' k' (vlock v) now rest ph" if "phase_ok h k (vlock v) now rest ph" for now rest
    using that h k cstring_cong [of "message_of ph" h' h] device_rest_cong [of k' k] by (cases ph) auto
  ultimately show ?thesis using assms(1) unfolding thread_ok_def by metis
qed

text \<open>A step of thread \<open>c\<close> keeps the invariant if its own part holds afterwards and the other threads see the
  same, have their messages, and hold the lock only if the log did not change.\<close>

lemma server_inv_move:
  assumes inv: "server_inv K F C l0 H s" and c: "phases s c = Some ph"
    and glob: "dev_inv K F (dev s')" "log_of (dev s') = snd (replay H' l0)" "whole_sends (pnet (proc s'))" "finite (dom (pheap (proc s')))"
    and ph': "phases s' = (phases s)(c \<mapsto> ph')" "thread_ok C c (view_of C l0 H' s' c) (pheap (proc s')) (dev s') ph'"
    and msg: "\<And>a. message_of ph' = Ptr a \<Longrightarrow> message_of ph = Ptr a \<or> pheap (proc s) a = None"
    and view: "\<And>b q. b \<noteq> c \<Longrightarrow> phases s b = Some q \<Longrightarrow> view_of C l0 H' s' b = view_of C l0 H s b"
    and mem: "\<And>b q a. b \<noteq> c \<Longrightarrow> phases s b = Some q \<Longrightarrow> message_of q = Ptr a \<Longrightarrow> pheap (proc s') a = pheap (proc s) a"
    and log: "log_of (dev s') = log_of (dev s) \<or> holder s = Some c"
    and hold: "holder s' = holder s \<or> holder s' = None \<or> holder s' = Some c"
  shows "server_inv K F C l0 H' s'"
proof -
  have ok: "thread_ok C b (view_of C l0 H s b) (pheap (proc s)) (dev s) q" if "phases s b = Some q" for b q
    using inv that by (simp add: server_inv_def)
  have others: "thread_ok C b (view_of C l0 H' s' b) (pheap (proc s')) (dev s') q" if "b \<noteq> c" "phases s b = Some q" for b q
    unfolding view [OF that]
    by (rule thread_ok_frame [OF ok [OF that(2)]]) (use mem [OF that] log that(1) in \<open>auto simp: view_of_def\<close>)
  have alloc: "pheap (proc s) a \<noteq> None" if "phases s b = Some q" "message_of q = Ptr a" for b q a
    using ok [OF that(1)] that(2) by (auto simp: thread_ok_def)
  have "b = d" if "phases s' b = Some p" "phases s' d = Some q" "message_of p = Ptr a" "message_of q = Ptr a" for b d p q a
  proof (rule ccontr)
    assume "b \<noteq> d"
    then consider "b = c" "d \<noteq> c" | "d = c" "b \<noteq> c" | "b \<noteq> c" "d \<noteq> c" by blast
    then show False
    proof cases
      case 1
      then have "p = ph'" "phases s d = Some q" using that ph'(1) by simp_all
      then show False using msg [of a] alloc [of d q a] inv c 1 that(3,4) unfolding server_inv_def by blast
    next
      case 2
      then have "q = ph'" "phases s b = Some p" using that ph'(1) by simp_all
      then show False using msg [of a] alloc [of b p a] inv c 2 that(3,4) unfolding server_inv_def by blast
    next
      case 3
      then show False using that ph'(1) inv \<open>b \<noteq> d\<close> unfolding server_inv_def by fastforce
    qed
  qed
  moreover have "thread_ok C b (view_of C l0 H' s' b) (pheap (proc s')) (dev s') q" if "phases s' b = Some q" for b q
    using that others ph' by (cases "b = c") auto
  moreover have "phases s' b \<noteq> None" if "holder s' = Some b" for b
    using hold that ph'(1) inv by (auto simp: server_inv_def)
  ultimately show ?thesis using glob unfolding server_inv_def by blast
qed

lemma vlock_view_of [simp]: "vlock (view_of C l0 H s c) \<longleftrightarrow> holder s = Some c"
  by (simp add: view_of_def)

lemma vconn_view_of [simp]: "vconn (view_of C l0 H s c) = conns (proc s) c" "vclose (view_of C l0 H s c) = close_flag s"
  by (simp_all add: view_of_def)

lemma server_invD:
  assumes "server_inv K F C l0 H s" and "phases s c = Some ph"
  shows "dev_inv K F (dev s)" "log_of (dev s) = snd (replay H l0)" "whole_sends (pnet (proc s))" "finite (dom (pheap (proc s)))"
    "thread_ok C c (view_of C l0 H s c) (pheap (proc s)) (dev s) ph"
  using assms by (auto simp: server_inv_def)

text \<open>Steps that leave the process and the device as they are.\<close>

lemma quiet_step:
  assumes inv: "server_inv K F C l0 H s" and c: "phases s c = Some ph" and same: "message_of ph' = message_of ph \<or> message_of ph' = NULL"
    and s': "s' = at c ph' (s\<lparr>holder := hold\<rparr>)" and hold: "hold = holder s \<or> hold = Some c \<and> holder s = None \<or> hold = None \<and> holder s = Some c"
    and ok: "thread_ok C c ((view_of C l0 H s c)\<lparr>vlock := (hold = Some c)\<rparr>) (pheap (proc s)) (dev s) ph'"
  shows "server_inv K F C l0 H s'"
  by (rule server_inv_move [OF inv c, where ph' = ph'])
    (use server_invD [OF inv c] same s' hold ok in \<open>auto simp: at_def view_of_def\<close>)

lemma step_leave:
  assumes "server_inv K F C l0 H s" and "phases s c = Some Receiving" and "tcp_connection_is_open (Ptr c) (proc s) = Some b" and "\<not> b \<or> close_flag s"
  shows "server_inv K F C l0 H (at c Finished s)"
  by (rule quiet_step [OF assms(1,2), where hold = "holder s" and ph' = Finished])
    (use server_invD(5) [OF assms(1,2)] assms(3,4) vconn_view_of [of C l0 H s c] in \<open>auto simp: at_def thread_ok_def\<close>)

lemma step_fopen:
  assumes "server_inv K F C l0 H s" and "phases s c = Some (Before_Open msg)"
    and "fopen_update (device_file K (U c)) \<lparr>dfile = \<lparr>f_pos = 0, private_data = No_Device\<rparr>, dk = dev s\<rparr> = (fdo, d)"
  shows "\<exists>fd. fdo = Some fd \<and> server_inv K F C l0 H (at c (Before_Lock msg (dfile (sfile fd))) (s\<lparr>dev := dk (sfile fd)\<rparr>))"
proof -
  have fd: "fdo = Some (on (dev s) new_file [])"
    using assms(3) by (auto simp: fopen_update_def device_file_def device_open_def aesd_open_def on_def new_file_def)
  have "server_inv K F C l0 H (at c (Before_Lock msg new_file) s)"
    by (rule quiet_step [OF assms(1,2), where hold = "holder s" and ph' = "Before_Lock msg new_file"])
      (use server_invD(5) [OF assms(1,2)] in \<open>auto simp: at_def thread_ok_def\<close>)
  with fd show ?thesis by (simp add: on_def)
qed

lemma step_lock:
  assumes "server_inv K F C l0 H s" and "phases s c = Some (Before_Lock msg filp)" and "holder s = None"
  shows "server_inv K F C l0 H (at c (Before_Handle msg filp) (s\<lparr>holder := Some c\<rparr>))"
  by (rule quiet_step [OF assms(1,2), where hold = "Some c" and ph' = "Before_Handle msg filp"])
    (use server_invD(5) [OF assms(1,2)] assms(3) in \<open>auto simp: at_def thread_ok_def\<close>)

lemma step_unlock:
  assumes "server_inv K F C l0 H s" and "phases s c = Some (Before_Unlock msg filp ob)"
  shows "server_inv K F C l0 H (at c (Before_Close msg filp ob) (s\<lparr>holder := None\<rparr>))"
  by (rule quiet_step [OF assms(1,2), where hold = None and ph' = "Before_Close msg filp ob"])
    (use server_invD(5) [OF assms(1,2)] in \<open>auto simp: at_def thread_ok_def\<close>)

text \<open>Receiving: the next line, or the end of the client.\<close>

lemma sock_ne:
  assumes "clients_ok K C cs" and "b \<in> cs" and "c \<in> cs" and "b \<noteq> c"
  shows "sock C b \<noteq> sock C c"
  using assms by (auto simp: clients_ok_def inj_on_def)

lemma clients_okD:
  assumes "clients_ok K C cs" and "c \<in> cs" and "m \<in> set (lines C c)"
  shows "newline \<notin> set m" and "decode_ioctl_command (line_text m) \<noteq> None" and "length m + 1 \<le> device_limit K"
  using assms by (auto simp: clients_ok_def simp del: not_None_eq)

lemma step_receive:
  assumes L: "libc_ok L" "memory_up_to L (2 ^ 30)" and C: "clients_ok K C (dom (phases s))"
    and inv: "server_inv K F C l0 H s" and c: "phases s c = Some Receiving" and opn: "tcp_connection_is_open (Ptr c) (proc s) = Some True"
    and r: "tcp_connection_receive_message L (Ptr c) newline (proc s) = Some (r, p)"
  shows "case r of Received msg \<Rightarrow> server_inv K F C l0 H (at c (Before_Open msg) (s\<lparr>proc := p\<rparr>))
    | Not_Received \<Rightarrow> server_inv K F C l0 H (at c Receiving (s\<lparr>proc := p\<rparr>)) | Assert_Failed \<Rightarrow> False"
proof -
  note I = server_invD [OF inv c]
  obtain conn todo where conn: "conns (proc s) c = Some conn" "socket conn = sock C c" "is_open conn"
      and inb: "inbox (pnet (proc s)) (sock C c) = client_events todo"
      and prog: "map line_text (lines C c) = handled c H @ map line_text todo" "set todo \<subseteq> set (lines C c)"
        "earlier C c @ fst (replay H l0) c = outbox (pnet (proc s)) (sock C c)" "holder s \<noteq> Some c"
    using I(5) opn by (auto simp: thread_ok_def progress_def view_of_def)
  have other: "sock C b \<noteq> sock C c" if "b \<noteq> c" "phases s b = Some q" for b q
    using sock_ne [OF C, of b c] that c by (auto simp: dom_def)
  show ?thesis
  proof (cases todo)
    case Nil
    then have "inbox (pnet (proc s)) (socket conn) = map Recv_Byte [] @ Recv_Eof # []"
      using inb conn(2) by (simp add: client_events_def)
    from receive_cut(1) [OF L conn(1) this _ _ I(4), of newline] r
    have rp: "r = Not_Received" "p = (proc s)\<lparr>pnet := took (sock C c) [] (pnet (proc s)),
        conns := (conns (proc s))(c \<mapsto> conn\<lparr>is_open := False\<rparr>)\<rparr>"
      using conn(2) by simp_all
    have "thread_ok C c (view_of C l0 H (at c Receiving (s\<lparr>proc := p\<rparr>)) c) (pheap p) (dev s) Receiving"
      using prog conn(2) Nil by (simp add: thread_ok_def progress_def view_of_def at_def rp(2) took_def)
    then have "server_inv K F C l0 H (at c Receiving (s\<lparr>proc := p\<rparr>))"
      by (intro server_inv_move [OF inv c, where ph' = Receiving])
        (use I other in \<open>auto simp: at_def rp(2) view_of_def took_def whole_sends_def\<close>)
    with rp(1) show ?thesis by simp
  next
    case (Cons m ms)
    have m: "newline \<notin> set m" "length m < 2 ^ 30"
      using clients_okD [OF C domI [of "phases s", OF c], of m] prog(2) Cons by (auto simp: device_limit_def)
    have "inbox (pnet (proc s)) (socket conn) = map Recv_Byte m @ Recv_Byte newline # client_events ms"
      using inb conn(2) Cons by (simp add: client_events_def line_events_def)
    from receive_line [OF L conn(1) this m I(4)] obtain a bs where a: "pheap (proc s) a = None" "take (Suc (length m)) bs = m @ [nul]"
        "r = Received (Ptr a)" and
        p: "p = (proc s)\<lparr>pnet := took (sock C c) (client_events ms) (pnet (proc s)), pheap := (pheap (proc s))(a \<mapsto> bs)\<rparr>"
      using r conn(2) by auto
    have "cstring (pheap p) (Ptr a) = line_text m"
      using cstring_terminated [OF _ a(2), of "pheap p" a] by (simp add: p line_text_def)
    then have "thread_ok C c (view_of C l0 H (at c (Before_Open (Ptr a)) (s\<lparr>proc := p\<rparr>)) c) (pheap p) (dev s) (Before_Open (Ptr a))"
      using prog conn Cons by (auto simp: thread_ok_def progress_def view_of_def at_def p took_def)
    moreover have "pheap p x = pheap (proc s) x" if "phases s b = Some q" "message_of q = Ptr x" for b q x
      using server_invD(5) [OF inv that(1)] that(2) a(1) by (auto simp: thread_ok_def p)
    ultimately have "server_inv K F C l0 H (at c (Before_Open (Ptr a)) (s\<lparr>proc := p\<rparr>))"
      by (intro server_inv_move [OF inv c, where ph' = "Before_Open (Ptr a)"])
        (use I other a(1) in \<open>auto simp: at_def view_of_def took_def whole_sends_def p\<close>)
    with a(3) show ?thesis by simp
  qed
qed

text \<open>Handling a line, with the lock held.\<close>

lemma handling:
  assumes env: "server_env L io K U F" and C: "clients_ok K C (dom (phases s))" and l0: "pending l0 = []"
    and inv: "server_inv K F C l0 H s" and c: "phases s c = Some (Before_Handle msg filp)"
  defines "m \<equiv> cstring (pheap (proc s)) msg" and "l \<equiv> log_of (dev s)"
  shows "\<exists>r fd. handle_message io (device_file K (U c)) m (on (dev s) filp []) = Some (r, fd) \<and> device_valid K (U c) F (sfile fd) \<and>
    obuf fd = [] \<and> device_log (sfile fd) = snd (respond m l) \<and>
    (if 0 \<le> sint r then device_rest (sfile fd) = fst (respond m l) else fst (respond m l) = [])"
proof -
  note I = server_invD [OF inv c]
  have filp: "filp = new_file" and "m \<in> line_text ` set (lines C c)"
    using I(5) by (auto simp: thread_ok_def progress_def m_def simp flip: set_map)
  then obtain x where x: "x \<in> set (lines C c)" "m = line_text x" by blast
  have fd: "device_valid K (U c) F (sfile (on (dev s) filp []))" "obuf (on (dev s) filp []) = []" "device_pos (sfile (on (dev s) filp [])) = 0"
      "device_log (sfile (on (dev s) filp [])) = l"
    using I(1) server_envD(4) [OF env] filp
    by (simp_all add: on_def new_file_def device_valid_def device_ready_def device_pos_def device_log_def l_def)
  have fits: "decode_ioctl_command m \<noteq> None" "newline \<notin> set m" "length (pending l) + length m + 1 \<le> device_limit K"
    using clients_okD [OF C domI [of "phases s", OF c] x(1)] line_text_subset [of x] pending_replay [of H l0] l0 I(2) x(2)
    by (auto simp: l_def)
  show ?thesis
    using aesdchar.handle_message_responds [OF server_envD(3) [OF env] fd(1-3) fits(1,2)] fits(3) fd(4) by metis
qed

text \<open>The history grows by the line, the log as the line says, and what is left to send is the answer.\<close>

lemma step_handle:
  assumes env: "server_env L io K U F" and C: "clients_ok K C (dom (phases s))" and l0: "pending l0 = []"
    and inv: "server_inv K F C l0 H s" and c: "phases s c = Some (Before_Handle msg filp)"
    and h: "handle_message io (device_file K (U c)) (cstring (pheap (proc s)) msg) (on (dev s) filp []) = Some (r, fd)"
  shows "server_inv K F C l0 (H @ [(c, cstring (pheap (proc s)) msg)])
    (at c ((if 0 \<le> sint r then Before_Send else Before_Unlock) msg (dfile (sfile fd)) (obuf fd)) (s\<lparr>dev := dk (sfile fd)\<rparr>))"
    (is "server_inv K F C l0 ?H ?s")
proof -
  note I = server_invD [OF inv c]
  let ?m = "cstring (pheap (proc s)) msg" and ?l = "log_of (dev s)" and ?v = "view_of C l0 H s c"
  obtain conn todo where conn: "vconn ?v = Some conn" "socket conn = sock C c"
      "if is_open conn then vin ?v = client_events todo else todo = []"
      and prog: "map line_text (lines C c) = vdone ?v @ [?m] @ map line_text todo" "set todo \<subseteq> set (lines C c)"
        "earlier C c @ vanswers ?v = vout ?v" and held: "holder s = Some c" and msg: "msg \<noteq> NULL" "set (addrs msg) \<subseteq> dom (pheap (proc s))"
    using I(5) by (auto simp: thread_ok_def progress_def)
  have fd: "device_valid K (U c) F (sfile fd)" "obuf fd = []" "log_of (dk (sfile fd)) = snd (respond ?m ?l)"
      "if 0 \<le> sint r then device_rest (sfile fd) = fst (respond ?m ?l) else fst (respond ?m ?l) = []"
    using handling [OF env C l0 inv c] h by (auto simp: device_log_def)
  have rep: "replay ?H l0 = ((fst (replay H l0))(c := fst (replay H l0) c @ fst (respond ?m ?l)), snd (respond ?m ?l))"
    using I(2) by (simp add: replay_snoc case_prod_beta Let_def)
  let ?rest = "fst (respond ?m ?l)" and ?ph = "(if 0 \<le> sint r then Before_Send else Before_Unlock) msg (dfile (sfile fd)) (obuf fd)"
  have v: "vconn (view_of C l0 ?H ?s c) = vconn ?v" "vin (view_of C l0 ?H ?s c) = vin ?v" "vdone (view_of C l0 ?H ?s c) = vdone ?v @ [?m]"
      "vout (view_of C l0 ?H ?s c) = vout ?v" "vanswers (view_of C l0 ?H ?s c) = vanswers ?v @ ?rest" "vlock (view_of C l0 ?H ?s c)"
    using held by (simp_all add: view_of_def at_def rep)
  have "progress C c (view_of C l0 ?H ?s c) [] ?rest"
    unfolding progress_def v using conn prog by (intro exI [of _ conn] exI [of _ todo]) auto
  moreover have "phase_ok (pheap (proc s)) (dk (sfile fd)) (vlock (view_of C l0 ?H ?s c)) [] ?rest ?ph"
    using fd device_validD(3) [OF fd(1)] v(6) by (cases "0 \<le> sint r") simp_all
  ultimately have "thread_ok C c (view_of C l0 ?H ?s c) (pheap (proc s)) (dk (sfile fd)) ?ph"
    using msg unfolding thread_ok_def by (auto split: if_splits)
  then show ?thesis
    by (intro server_inv_move [OF inv c, where ph' = ?ph])
      (use I fd device_validD(2) [OF fd(1)] held in \<open>auto simp: at_def view_of_def rep split: if_splits\<close>)
qed

text \<open>Sending the answer, with the lock held.\<close>

lemma sending:
  assumes env: "server_env L io K U F" and inv: "server_inv K F C l0 H s" and c: "phases s c = Some (Before_Send msg filp ob)"
  defines "rest \<equiv> device_rest \<lparr>dfile = filp, dk = dev s\<rparr>"
  shows "\<exists>fd n. tcp_connection_send_file (stream_read (device_file K (U c))) (Ptr c) (on (dev s) filp ob) (proc s) =
      Some (True, fd, (proc s)\<lparr>pnet := sent_net (sock C c) rest n (pnet (proc s))\<rparr>) \<and>
    device_valid K (U c) F (sfile fd) \<and> obuf fd = [] \<and> log_of (dk (sfile fd)) = log_of (dev s)"
proof -
  note I = server_invD [OF inv c]
  obtain conn where conn: "conns (proc s) c = Some conn" "socket conn = sock C c" and filp: "private_data filp = Aesd_Device" "ob = []"
    using I(5) by (auto simp: thread_ok_def progress_def)
  have "device_valid K (U c) F (sfile (on (dev s) filp ob))" "obuf (on (dev s) filp ob) = []"
    using I(1) server_envD(4) [OF env] filp by (simp_all add: on_def device_valid_def device_ready_def)
  from aesdchar.send_rest [OF this conn(1) I(3)] conn(2) show ?thesis
    by (auto simp: device_log_def on_def rest_def)
qed

lemma step_send:
  assumes env: "server_env L io K U F" and C: "clients_ok K C (dom (phases s))"
    and inv: "server_inv K F C l0 H s" and c: "phases s c = Some (Before_Send msg filp ob)"
    and sf: "tcp_connection_send_file (stream_read (device_file K (U c))) (Ptr c) (on (dev s) filp ob) (proc s) = Some (b, fd, p)"
  shows "server_inv K F C l0 H (at c (Before_Unlock msg (dfile (sfile fd)) (obuf fd)) (s\<lparr>proc := p, dev := dk (sfile fd)\<rparr>))"
    (is "server_inv K F C l0 H ?s")
proof -
  note I = server_invD [OF inv c]
  let ?v = "view_of C l0 H s c" and ?rest = "device_rest \<lparr>dfile = filp, dk = dev s\<rparr>"
  obtain conn todo where conn: "vconn ?v = Some conn" "socket conn = sock C c"
      "if is_open conn then vin ?v = client_events todo else todo = []"
      and prog: "map line_text (lines C c) = vdone ?v @ map line_text todo" "set todo \<subseteq> set (lines C c)"
        "earlier C c @ vanswers ?v = vout ?v @ ?rest" and held: "holder s = Some c"
      and msg: "msg \<noteq> NULL" "set (addrs msg) \<subseteq> dom (pheap (proc s))"
    using I(5) by (auto simp: thread_ok_def progress_def)
  obtain n where fd: "p = (proc s)\<lparr>pnet := sent_net (sock C c) ?rest n (pnet (proc s))\<rparr>"
      "device_valid K (U c) F (sfile fd)" "obuf fd = []" "log_of (dk (sfile fd)) = log_of (dev s)"
    using sending [OF env inv c] sf by auto
  have other: "sock C d \<noteq> sock C c" if "d \<noteq> c" "phases s d = Some q" for d q
    using sock_ne [OF C domI [of "phases s", OF that(2)] domI [of "phases s", OF c]] that(1) .
  have "progress C c (view_of C l0 H ?s c) [] []"
    unfolding progress_def using conn prog
    by (intro exI [of _ conn] exI [of _ todo]) (auto simp: view_of_def at_def fd(1) sent_net_def)
  then have "thread_ok C c (view_of C l0 H ?s c) (pheap (proc ?s)) (dev ?s) (Before_Unlock msg (dfile (sfile fd)) (obuf fd))"
    using msg held fd(3) device_validD(3) [OF fd(2)] by (auto simp: thread_ok_def view_of_def at_def fd(1))
  then show ?thesis
    by (intro server_inv_move [OF inv c, where ph' = "Before_Unlock msg (dfile (sfile fd)) (obuf fd)"])
      (use I fd(4) device_validD(2) [OF fd(2)] other in \<open>auto simp: at_def view_of_def fd(1) sent_net_def whole_sends_def\<close>)
qed

lemma step_close:
  assumes inv: "server_inv K F C l0 H s" and c: "phases s c = Some (Before_Close msg filp ob)"
    and h: "cfree msg (pheap (proc s)) = Some h" and d: "fclose io (device_file K (U c)) (on (dev s) filp ob) = Some d"
  shows "server_inv K F C l0 H (at c Receiving (s\<lparr>proc := (proc s)\<lparr>pheap := h\<rparr>, dev := dk d\<rparr>))" (is "server_inv K F C l0 H ?s")
proof -
  note I = server_invD [OF inv c]
  let ?v = "view_of C l0 H s c" and ?fd = "on (dev s) filp ob"
  have ph: "ob = []" "private_data filp = Aesd_Device" "holder s \<noteq> Some c" "progress C c ?v [] []" "msg \<noteq> NULL"
    using I(5) by (auto simp: thread_ok_def)
  have dk: "dk d = dev s"
    using d by (auto simp: fclose_def fflush_def on_def ph(1) write_all.simps [of _ "[]"] device_file_def device_close_def)
  obtain a where a: "msg = Ptr a" "h = (pheap (proc s))(a := None)"
    using h ph(5) by (auto simp: cfree_Some)
  have "x \<noteq> a" if "b \<noteq> c" "phases s b = Some q" "message_of q = Ptr x" for b q x
    using inv c that a(1) unfolding server_inv_def by (metis message_of.simps(7))
  moreover have "progress C c (view_of C l0 H ?s c) [] []"
    using ph(4) by (simp add: progress_def view_of_def at_def)
  then have "thread_ok C c (view_of C l0 H ?s c) (pheap (proc ?s)) (dev ?s) Receiving"
    using ph(3) by (simp add: thread_ok_def view_of_def at_def)
  ultimately show ?thesis
    by (intro server_inv_move [OF inv c, where ph' = Receiving])
      (use I in \<open>auto simp: at_def view_of_def dk a(2)\<close>)
qed

text \<open>All together.\<close>

lemma thread_step_inv:
  assumes env: "server_env L io K U F"
    and C: "clients_ok K C (dom (phases s))" and l0: "pending l0 = []" and inv: "server_inv K F C l0 H s"
    and st: "thread_step L io K U c s ev s'"
  shows "server_inv K F C l0 (H @ ev) s'" and "dom (phases s') = dom (phases s)"
proof -
  show "dom (phases s') = dom (phases s)" using st by cases (auto simp: at_def)
  show "server_inv K F C l0 (H @ ev) s'"
    using st
  proof cases
    case receive
    then show ?thesis using step_receive [OF server_envD(1,2) [OF env] C inv] by fastforce
  next
    case receive_nothing
    then show ?thesis using step_receive [OF server_envD(1,2) [OF env] C inv] by fastforce
  next
    case fopen_fails
    then show ?thesis using step_fopen [OF inv] by fastforce
  next
    case fopen
    then show ?thesis using step_fopen [OF inv] by fastforce
  next
    case leave
    then show ?thesis using step_leave [OF inv] by simp
  next
    case lock
    then show ?thesis using step_lock [OF inv] by simp
  next
    case handle
    then show ?thesis using step_handle [OF env C l0 inv] by simp
  next
    case send
    then show ?thesis using step_send [OF env C inv] by simp
  next
    case unlock
    then show ?thesis using step_unlock [OF inv] by simp
  next
    case close
    then show ?thesis using step_close [OF inv] by simp
  qed
qed

lemma shutdown_inv:
  assumes "server_inv K F C l0 H s"
  shows "server_inv K F C l0 H (s\<lparr>close_flag := True\<rparr>)"
proof -
  have "view_of C l0 H (s\<lparr>close_flag := True\<rparr>) c = (view_of C l0 H s c)\<lparr>vclose := True\<rparr>" for c
    by (simp add: view_of_def)
  moreover have "thread_ok C c (v\<lparr>vclose := True\<rparr>) h k ph" if "thread_ok C c v h k ph" for c v h k ph
    using that by (auto simp: thread_ok_def)
  ultimately show ?thesis using assms by (simp add: server_inv_def)
qed

lemma clients_accepted_inv:
  assumes "clients_accepted K F C s"
  shows "server_inv K F C (log_of (dev s)) [] s"
proof -
  have "thread_ok C c (view_of C (log_of (dev s)) [] s c) (pheap (proc s)) (dev s) ph" if c: "phases s c = Some ph" for c ph
  proof -
    obtain conn where "ph = Receiving" "conns (proc s) c = Some conn" "socket conn = sock C c" "is_open conn" "holder s = None"
        "inbox (pnet (proc s)) (sock C c) = client_events (lines C c)" "outbox (pnet (proc s)) (sock C c) = earlier C c"
      using assms c unfolding clients_accepted_def by blast
    then show ?thesis
      by (auto simp: thread_ok_def progress_def view_of_def)
  qed
  moreover have "message_of ph = NULL" if "phases s c = Some ph" for c ph
    using assms that unfolding clients_accepted_def by (metis message_of.simps(1))
  ultimately show ?thesis
    using assms unfolding server_inv_def clients_accepted_def by fastforce
qed

lemma server_run_inv:
  assumes "server_env L io K U F" and "clients_accepted K F C s0" and "server_run L io K U s0 n H s"
  shows "server_inv K F C (log_of (dev s0)) H s \<and> dom (phases s) = dom (phases s0)"
  using assms(3)
proof induction
  case begin_run
  then show ?case using clients_accepted_inv [OF assms(2)] by simp
next
  case (shutdown n H s)
  then show ?case using shutdown_inv by simp
next
  case (step n H s c ev s')
  then show ?case
    using thread_step_inv [OF assms(1), of C s "log_of (dev s0)" H c ev s'] assms(2) by (simp add: clients_accepted_def)
qed

subsection \<open>Every run ends\<close>

text \<open>Receiving returns, and a connection is closed only by its own thread.\<close>

lemma receiving_state:
  assumes env: "server_env L io K U F" and C: "clients_ok K C (dom (phases s))"
    and inv: "server_inv K F C l0 H s" and c: "phases s c = Some Receiving" and opn: "tcp_connection_is_open (Ptr c) (proc s) = Some True"
  shows "\<exists>r p conn evs. tcp_connection_receive_message L (Ptr c) newline (proc s) = Some (r, p) \<and> conns (proc s) c = Some conn \<and>
    (case r of Received msg \<Rightarrow> \<exists>a bs. msg = Ptr a \<and> pheap (proc s) a = None \<and>
         p = (proc s)\<lparr>pnet := took (socket conn) evs (pnet (proc s)), pheap := (pheap (proc s))(a \<mapsto> bs)\<rparr>
     | Not_Received \<Rightarrow> p = (proc s)\<lparr>pnet := took (socket conn) evs (pnet (proc s)), conns := (conns (proc s))(c \<mapsto> conn\<lparr>is_open := False\<rparr>)\<rparr>
     | Assert_Failed \<Rightarrow> False)"
proof -
  note I = server_invD [OF inv c] and L = server_envD(1,2) [OF env]
  obtain conn todo where conn: "conns (proc s) c = Some conn" "vin (view_of C l0 H s c) = client_events todo" "set todo \<subseteq> set (lines C c)"
      "socket conn = sock C c"
    using I(5) opn by (auto simp: thread_ok_def progress_def)
  then have inb: "inbox (pnet (proc s)) (socket conn) = client_events todo" by (simp add: view_of_def)
  show ?thesis
  proof (cases todo)
    case Nil
    then have "inbox (pnet (proc s)) (socket conn) = map Recv_Byte [] @ Recv_Eof # []" using inb by (simp add: client_events_def)
    from receive_cut(1) [OF L conn(1) this _ _ I(4), of newline] conn(1) show ?thesis by auto
  next
    case (Cons m ms)
    have m: "newline \<notin> set m" "length m < 2 ^ 30"
      using clients_okD [OF C domI [of "phases s", OF c], of m] conn(3) Cons by (auto simp: device_limit_def)
    have "inbox (pnet (proc s)) (socket conn) = map Recv_Byte m @ Recv_Byte newline # client_events ms"
      using inb Cons by (simp add: client_events_def line_events_def)
    from receive_line [OF L conn(1) this m I(4)] conn(1) show ?thesis by fastforce
  qed
qed

lemma receiving:
  assumes "server_env L io K U F" and "clients_ok K C (dom (phases s))"
    and "server_inv K F C l0 H s" and "phases s c = Some Receiving" and "tcp_connection_is_open (Ptr c) (proc s) = Some True"
  shows "\<exists>r p. tcp_connection_receive_message L (Ptr c) newline (proc s) = Some (r, p) \<and>
    (case r of Received msg \<Rightarrow> conns p = conns (proc s)
     | Not_Received \<Rightarrow> \<exists>conn. conns p = (conns (proc s))(c \<mapsto> conn\<lparr>is_open := False\<rparr>) | Assert_Failed \<Rightarrow> False)"
proof -
  obtain r p conn evs where "tcp_connection_receive_message L (Ptr c) newline (proc s) = Some (r, p)"
    "case r of Received msg \<Rightarrow> \<exists>a bs. msg = Ptr a \<and> pheap (proc s) a = None \<and>
         p = (proc s)\<lparr>pnet := took (socket conn) evs (pnet (proc s)), pheap := (pheap (proc s))(a \<mapsto> bs)\<rparr>
     | Not_Received \<Rightarrow> p = (proc s)\<lparr>pnet := took (socket conn) evs (pnet (proc s)), conns := (conns (proc s))(c \<mapsto> conn\<lparr>is_open := False\<rparr>)\<rparr>
     | Assert_Failed \<Rightarrow> False"
    using receiving_state [OF assms] by blast
  then show ?thesis by (cases r) auto
qed

text \<open>A thread that is not finished can go on, unless it waits for the mutex.\<close>

lemma thread_enabled:
  assumes env: "server_env L io K U F" and C: "clients_ok K C (dom (phases s))" and l0: "pending l0 = []"
    and inv: "server_inv K F C l0 H s" and c: "phases s c = Some ph" and ph: "ph \<noteq> Finished" "\<And>msg filp. ph = Before_Lock msg filp \<Longrightarrow> holder s = None"
  shows "\<exists>ev s'. thread_step L io K U c s ev s'"
proof (cases ph)
  case Receiving
  obtain b where b: "tcp_connection_is_open (Ptr c) (proc s) = Some b"
    using server_invD(5) [OF inv c] by (auto simp: thread_ok_def progress_def)
  show ?thesis
  proof (cases "\<not> b \<or> close_flag s")
    case True
    then show ?thesis using leave b c Receiving by blast
  next
    case False
    then have opn: "tcp_connection_is_open (Ptr c) (proc s) = Some True" using b by simp
    obtain r p where r: "tcp_connection_receive_message L (Ptr c) newline (proc s) = Some (r, p)" "r \<noteq> Assert_Failed"
      using receiving [OF env C inv _ opn] c Receiving by fastforce
    then show ?thesis
      using receive [OF _ opn] receive_nothing [OF _ opn] c Receiving False by (cases r) blast+
  qed
next
  case (Before_Open msg)
  obtain fdo d where o: "fopen_update (device_file K (U c)) \<lparr>dfile = \<lparr>f_pos = 0, private_data = No_Device\<rparr>, dk = dev s\<rparr> = (fdo, d)"
    by fastforce
  then show ?thesis using fopen fopen_fails c Before_Open by (cases fdo) blast+
next
  case (Before_Lock msg filp)
  then show ?thesis using lock c ph(2) by blast
next
  case (Before_Handle msg filp)
  then show ?thesis using handling [OF env C l0 inv] handle c by blast
next
  case (Before_Send msg filp ob)
  then show ?thesis using sending [OF env inv] send c by blast
next
  case (Before_Unlock msg filp ob)
  then show ?thesis using unlock c by blast
next
  case (Before_Close msg filp ob)
  have t: "set (addrs msg) \<subseteq> dom (pheap (proc s))" "ob = []"
    using server_invD(5) [OF inv c] Before_Close by (auto simp: thread_ok_def)
  have "fclose io (device_file K (U c)) (on (dev s) filp ob) \<noteq> None"
    by (simp add: fclose_def fflush_def on_def t(2) write_all.simps [of _ "[]"])
  then show ?thesis using close [of s c msg filp ob] cfree_restrict [OF t(1)] c Before_Close by blast
next
  case Finished
  then show ?thesis using ph(1) by simp
qed

lemma not_stuck:
  assumes "server_env L io K U F" and "clients_ok K C (dom (phases s))" and "pending l0 = []" and "server_inv K F C l0 H s"
    and "phases s c = Some ph" and "ph \<noteq> Finished"
  shows "\<exists>c ev s'. thread_step L io K U c s ev s'"
proof (cases "holder s")
  case None
  then show ?thesis using thread_enabled [OF assms] by blast
next
  case (Some d)
  then obtain q where q: "phases s d = Some q" using assms(4) by (auto simp: server_inv_def)
  have "q \<noteq> Finished" "\<And>msg filp. q \<noteq> Before_Lock msg filp"
    using server_invD(5) [OF assms(4) q] Some by (auto simp: thread_ok_def)
  then show ?thesis using thread_enabled [OF assms(1-4) q] by blast
qed

text \<open>The work a thread still has to do: eight steps per line, and what is left of its round.\<close>

fun rank :: "bool \<Rightarrow> phase \<Rightarrow> nat" where
  "rank b Receiving = (if b then 8 else 7)"
| "rank b (Before_Open msg) = 6"
| "rank b (Before_Lock msg filp) = 5"
| "rank b (Before_Handle msg filp) = 4"
| "rank b (Before_Send msg filp ob) = 11"
| "rank b (Before_Unlock msg filp ob) = 10"
| "rank b (Before_Close msg filp ob) = 9"
| "rank b Finished = 0"

definition work :: "clients \<Rightarrow> history \<Rightarrow> server \<Rightarrow> nat \<Rightarrow> nat" where
  "work C H s c = (case phases s c of None \<Rightarrow> 0
     | Some ph \<Rightarrow> 8 * (length (lines C c) - length (handled c H)) + rank (map_option is_open (conns (proc s) c) = Some True) ph)"

lemma work_eqI:
  assumes "phases s' b = phases s b" and "conns (proc s') b = conns (proc s) b" and "handled b H' = handled b H"
  shows "work C H' s' b = work C H s b"
  using assms by (simp add: work_def split: option.split)

lemma work_at: "work C H (at c ph s) c = 8 * (length (lines C c) - length (handled c H)) + rank (map_option is_open (conns (proc s) c) = Some True) ph"
  by (simp add: work_def at_def)

lemma work_Some: "phases s c = Some ph \<Longrightarrow>
    work C H s c = 8 * (length (lines C c) - length (handled c H)) + rank (map_option is_open (conns (proc s) c) = Some True) ph"
  by (simp add: work_def)

text \<open>A step of thread \<open>c\<close> changes no other connection; it closes its own or leaves it.\<close>

lemma step_conns:
  assumes env: "server_env L io K U F" and C: "clients_ok K C (dom (phases s))"
    and inv: "server_inv K F C l0 H s" and st: "thread_step L io K U c s ev s'"
  shows "conns (proc s') = conns (proc s) \<or> phases s' c = Some Receiving \<and> (\<exists>conn. conns (proc s') = (conns (proc s))(c \<mapsto> conn\<lparr>is_open := False\<rparr>))"
  using st
proof cases
  case (receive msg p)
  then show ?thesis using receiving [OF env C inv] by (fastforce simp: at_def)
next
  case (receive_nothing p)
  then show ?thesis using receiving [OF env C inv] by (fastforce simp: at_def)
next
  case (send msg filp ob b fd p)
  then show ?thesis using sending [OF env inv] by (fastforce simp: at_def)
qed (simp_all add: at_def)

lemma work_decreases:
  assumes env: "server_env L io K U F" and C: "clients_ok K C (dom (phases s))"
    and inv: "server_inv K F C l0 H s" and st: "thread_step L io K U c s ev s'"
  shows "work C (H @ ev) s' c < work C H s c" and "b \<noteq> c \<Longrightarrow> work C (H @ ev) s' b = work C H s b"
proof -
  show "work C (H @ ev) s' b = work C H s b" if "b \<noteq> c"
  proof (rule work_eqI)
    show "phases s' b = phases s b" using st that by cases (simp_all add: at_def)
    show "conns (proc s') b = conns (proc s) b" using step_conns [OF env C inv st] that by auto
    show "handled b (H @ ev) = handled b H" using st that by cases simp_all
  qed
  show "work C (H @ ev) s' c < work C H s c"
    using st
  proof cases
    case (receive_nothing p)
    then obtain conn where "conns p = (conns (proc s))(c \<mapsto> conn\<lparr>is_open := False\<rparr>)" using receiving [OF env C inv] by fastforce
    then show ?thesis using receive_nothing(2,4) by (simp add: receive_nothing(1) work_at work_Some [OF receive_nothing(3)])
  next
    case (fopen_fails msg d)
    then show ?thesis using step_fopen [OF inv] by fastforce
  next
    case (handle msg filp r fd)
    obtain x later where "map line_text (lines C c) = handled c H @ x # later"
      using server_invD(5) [OF inv handle(3)] by (auto simp: thread_ok_def progress_def view_of_def)
    from arg_cong [OF this, of length] show ?thesis by (simp add: handle(1,2) work_at work_Some [OF handle(3)])
  qed (simp_all add: work_at work_Some)
qed

lemma steps_bounded:
  assumes "server_env L io K U F" and "clients_accepted K F C s0" and "finite (dom (phases s0))" and "server_run L io K U s0 n H s"
  shows "n + sum (work C H s) (dom (phases s0)) \<le> sum (\<lambda>c. 8 * length (lines C c) + 8) (dom (phases s0))"
  using assms(4)
proof induction
  case begin_run
  have "work C [] s0 c \<le> 8 * length (lines C c) + 8" if "c \<in> dom (phases s0)" for c
  proof -
    have "phases s0 c = Some Receiving" using assms(2) that unfolding clients_accepted_def by blast
    then show ?thesis by (simp add: work_def)
  qed
  then show ?case by (simp add: sum_mono)
next
  case (shutdown n H s)
  have "work C H (s\<lparr>close_flag := True\<rparr>) = work C H s" by (rule ext, rule work_eqI) simp_all
  with shutdown show ?case by simp
next
  case (step n H s c ev s')
  note I = server_run_inv [OF assms(1,2) step(1)]
  have l0: "pending (log_of (dev s0)) = []" and C: "clients_ok K C (dom (phases s))"
    using assms(2) I by (simp_all add: clients_accepted_def)
  note w = work_decreases [OF assms(1) C conjunct1 [OF I] step(2)]
  have "c \<in> dom (phases s0)" using step(2) I by cases auto
  then have "sum (work C (H @ ev) s') (dom (phases s0)) < sum (work C H s) (dom (phases s0))"
  proof (intro sum_strict_mono_ex1 [OF assms(3)] ballI bexI [of _ c])
    fix b
    show "work C (H @ ev) s' b \<le> work C H s b" using w(1) w(2) [of b] by (cases "b = c") simp_all
  qed (rule w(1))
  with step show ?case by simp
qed

subsection \<open>Properties\<close>

text \<open>The threads of all connections together behave as if the lines had been served one after the other. In every
  reachable state there is the history of the lines handled so far, in which each client's lines
  occur in the order sent; the device holds the log that results from serving this history
  line by line, and every client has been sent exactly its answers of that serial execution, except
  that the one holding the mutex may still have to get the rest of its last answer. A
  client whose thread has finished without a shutdown has been served completely.\<close>

lemma concurrent_clients_serialize:
  assumes "server_env L io K U F" and "clients_accepted K F C s0" and "server_run L io K U s0 n H s"
  shows "dev_inv K F (dev s) \<and> log_of (dev s) = snd (replay H (log_of (dev s0))) \<and>
    (\<forall>c\<in>dom (phases s0).
       (\<exists>later. map line_text (lines C c) = handled c H @ later) \<and>
       (\<exists>rest. earlier C c @ fst (replay H (log_of (dev s0))) c = outbox (pnet (proc s)) (sock C c) @ rest \<and>
          (holder s \<noteq> Some c \<longrightarrow> rest = [])) \<and>
       (phases s c = Some Finished \<and> \<not> close_flag s \<longrightarrow> handled c H = map line_text (lines C c)))"
proof -
  note I = server_run_inv [OF assms]
  show ?thesis
  proof (intro conjI ballI)
    show "dev_inv K F (dev s)" "log_of (dev s) = snd (replay H (log_of (dev s0)))" using I by (simp_all add: server_inv_def)
    fix c
    assume "c \<in> dom (phases s0)"
    then have "c \<in> dom (phases s)" using I by simp
    then obtain ph where ph: "phases s c = Some ph" by blast
    let ?v = "view_of C (log_of (dev s0)) H s c"
    have t: "thread_ok C c ?v (pheap (proc s)) (dev s) ph" using I ph by (simp add: server_inv_def)
    then obtain now rest where p: "progress C c ?v now rest" "phase_ok (pheap (proc s)) (dev s) (vlock ?v) now rest ph"
      unfolding thread_ok_def by blast
    show "\<exists>later. map line_text (lines C c) = handled c H @ later"
      using p(1) by (auto simp: progress_def view_of_def)
    have "holder s \<noteq> Some c \<longrightarrow> rest = []" using p(2) by (cases ph) auto
    then show "\<exists>rest. earlier C c @ fst (replay H (log_of (dev s0))) c = outbox (pnet (proc s)) (sock C c) @ rest \<and>
        (holder s \<noteq> Some c \<longrightarrow> rest = [])"
      using p(1) by (intro exI [of _ rest]) (auto simp: progress_def view_of_def)
    show "phases s c = Some Finished \<and> \<not> close_flag s \<longrightarrow> handled c H = map line_text (lines C c)"
    proof
      assume f: "phases s c = Some Finished \<and> \<not> close_flag s"
      then have "ph = Finished" using ph by simp
      moreover from this have "now = []" using p(2) by simp
      ultimately show "handled c H = map line_text (lines C c)"
        using p(1) t f by (auto simp: thread_ok_def progress_def view_of_def)
    qed
  qed
qed

lemma run_not_stuck:
  assumes "server_env L io K U F" and "clients_accepted K F C s0" and "server_run L io K U s0 n H s" and "c \<in> dom (phases s0)" "phases s c \<noteq> Some Finished"
  shows "\<exists>c ev s'. thread_step L io K U c s ev s'"
proof -
  note I = server_run_inv [OF assms(1-3)]
  have "c \<in> dom (phases s)" using assms(4) I by simp
  then obtain ph where "phases s c = Some ph" by blast
  moreover from this have "ph \<noteq> Finished" using assms(5) by simp
  moreover have "clients_ok K C (dom (phases s))" "pending (log_of (dev s0)) = []" using assms(2) I by (simp_all add: clients_accepted_def)
  ultimately show ?thesis using not_stuck [OF assms(1)] I by blast
qed

lemma step_close_flag: "thread_step L io K U c s ev s' \<Longrightarrow> close_flag s' = close_flag s"
  by (induction rule: thread_step.induct) (simp_all add: at_def)

lemma run_completes:
  assumes env: "server_env L io K U F" "clients_accepted K F C s0" "finite (dom (phases s0))"
  shows "server_run L io K U s0 n H s \<Longrightarrow>
    \<exists>n' H' s'. server_run L io K U s0 n' H' s' \<and> (\<forall>c\<in>dom (phases s0). phases s' c = Some Finished) \<and> close_flag s' = close_flag s"
proof (induction "(\<Sum>c\<in>dom (phases s0). 8 * length (lines C c) + 8) - n" arbitrary: n H s rule: less_induct)
  case less
  show ?case
  proof (cases "\<forall>c\<in>dom (phases s0). phases s c = Some Finished")
    case True
    with less.prems show ?thesis by blast
  next
    case False
    then obtain c ev s1 where s1: "thread_step L io K U c s ev s1"
      using run_not_stuck [OF env(1,2) less.prems] by blast
    then have r: "server_run L io K U s0 (Suc n) (H @ ev) s1" using less.prems by (rule step [rotated])
    then have "Suc n \<le> (\<Sum>c\<in>dom (phases s0). 8 * length (lines C c) + 8)" using steps_bounded [OF env r] by simp
    then show ?thesis using less.hyps [OF _ r] step_close_flag [OF s1] by simp
  qed
qed


text \<open>Two clients, each sending one line to an empty device.\<close>

definition two_clients :: clients where
  "two_clients = \<lparr>sock = (\<lambda>c. if c = 1 then 4 else 5), lines = (\<lambda>c. if c = 1 then [''one''] else [''two'']), earlier = (\<lambda>c. [])\<rparr>"

definition two_server :: server where
  "two_server = \<lparr>proc = \<lparr>pheap = Map.empty, conns = [1 \<mapsto> \<lparr>socket = 4, client_address = NULL, is_open = True\<rparr>,
       2 \<mapsto> \<lparr>socket = 5, client_address = NULL, is_open = True\<rparr>],
     pnet = \<lparr>inbox = (\<lambda>fd. client_events (if fd = 4 then [''one''] else [''two''])), outbox = (\<lambda>fd. []), send_plan = (\<lambda>i. Send_Accept 4096),
       sends = 0, open_socks = [4, 5]\<rparr>\<rparr>, dev = empty_device, holder = None, close_flag = False, phases = [1 \<mapsto> Receiving, 2 \<mapsto> Receiving]\<rparr>"

definition buffered_stdio :: stdio where
  "buffered_stdio = \<lparr>split_out = (\<lambda>bs. ([], bs)), retained = (\<lambda>bs. bs)\<rparr>"

lemma two_env: "server_env demo_libc buffered_stdio big_kernel (\<lambda>c. sample_bufs) {}"
  using demo_libc_ok demo_libc_memory big_kernel_env by (simp add: server_env_def buffered_stdio_def stdio_ok_def)

lemma two_serving: "clients_accepted big_kernel {} two_clients two_server"
proof -
  have "decode_ioctl_command ''one'' = Some None" "decode_ioctl_command ''two'' = Some None"
    by (rule decode_no_prefix, simp add: seek_prefix_def)+
  then have "clients_ok big_kernel two_clients (dom (phases two_server))"
    by (simp add: clients_ok_def two_clients_def two_server_def inj_on_def line_text_def device_limit_def big_kernel_def demo_kernel_def)
  then show ?thesis
    using empty_device_inv by (auto simp: clients_accepted_def two_server_def two_clients_def empty_device_log whole_sends_def)
qed

lemma concurrent_clients_serialize_witness:
  "\<exists>n H s. server_run demo_libc buffered_stdio big_kernel (\<lambda>c. sample_bufs) two_server n H s \<and>
    log_of (dev s) = snd (replay H (log_of empty_device)) \<and> handled 1 H = [''one''] \<and> handled 2 H = [''two''] \<and>
    outbox (pnet (proc s)) 4 = fst (replay H (log_of empty_device)) 1 \<and> outbox (pnet (proc s)) 5 = fst (replay H (log_of empty_device)) 2"
proof -
  have doms: "dom (phases two_server) = {1, 2}" by (auto simp: two_server_def)
  obtain n H s where r: "server_run demo_libc buffered_stdio big_kernel (\<lambda>c. sample_bufs) two_server n H s"
      "phases s 1 = Some Finished" "phases s 2 = Some Finished" "\<not> close_flag s"
    using run_completes [OF two_env two_serving _ begin_run] doms by (auto simp: two_server_def)
  have "holder s \<noteq> Some 1" "holder s \<noteq> Some 2"
    using server_invD(5) [OF conjunct1 [OF server_run_inv [OF two_env two_serving r(1)]]] r(2,3)
    by (fastforce simp: thread_ok_def)+
  with concurrent_clients_serialize [OF two_env two_serving r(1)] r doms show ?thesis
    by (intro exI [of _ n] exI [of _ H] exI [of _ s]) (auto simp: two_clients_def two_server_def line_text_def)
qed


end
