(* ===== verification/Tcp_Server.thy ===== *)
theory Tcp_Server
  imports Tcp_Connection
begin

text \<open>
  The listening server: \<^verbatim>\<open>server/src/tcp_server.c\<close> and \<^verbatim>\<open>tcp_server.h\<close>. The socket calls of the
  operating system are parameters (\<open>sock_api\<close>); the incoming connections are a script that \<open>accept\<close>
  consumes, and an \<open>accept\<close> with nothing left to deliver blocks for ever (\<open>None\<close>).
\<close>

subsection \<open>State and environment\<close>

record tcp_server =
  socketfd :: cint
  port :: "byte list"

record addrinfo =
  ai_family :: cint
  ai_socktype :: cint
  ai_protocol :: cint
  ai_addr :: "byte list"

text \<open>An incoming connection: its new socket and the peer's address as the kernel holds it.\<close>

datatype accept_event = Accept_Error | Accepted cint "byte list"

record sock_api =
  getaddrinfo :: "byte list \<Rightarrow> cint + addrinfo list"
  sys_socket :: "addrinfo \<Rightarrow> cint list \<Rightarrow> cint"
  setsockopt_ok :: "cint \<Rightarrow> bool"
  bind_ok :: "addrinfo \<Rightarrow> bool"
  listen_ok :: "cint \<Rightarrow> bool"
  ntop :: "byte list \<Rightarrow> byte list"

record sstate =
  sp :: pstate
  servers :: "nat \<rightharpoonup> tcp_server"
  accepts :: "accept_event list"

abbreviation socks :: "sstate \<Rightarrow> cint list" where
  "socks s \<equiv> open_socks (pnet (sp s))"

definition set_net :: "net \<Rightarrow> sstate \<Rightarrow> sstate" where
  "set_net w s = s\<lparr>sp := (sp s)\<lparr>pnet := w\<rparr>\<rparr>"

definition new_sock :: "cint \<Rightarrow> net \<Rightarrow> net" where
  "new_sock fd w = (if fd = - 1 then w else w\<lparr>open_socks := fd # open_socks w\<rparr>)"

subsection \<open>Operations\<close>

text \<open>The loop over the addresses. The result of the last \<open>malloc\<close> is not checked.\<close>

fun create_loop :: "libc \<Rightarrow> sock_api \<Rightarrow> byte list \<Rightarrow> addrinfo list \<Rightarrow> sstate \<Rightarrow> (ptr \<times> sstate) option" where
  "create_loop L A p [] s = Some (NULL, s)"
| "create_loop L A p (it # its) s =
     (let fd = sys_socket A it (socks s);
          s = set_net (new_sock fd (pnet (sp s))) s
      in if \<not> setsockopt_ok A fd then create_loop L A p its (set_net (close_sock fd (pnet (sp s))) s)
         else if fd = - 1 then create_loop L A p its s
         else if \<not> bind_ok A it then create_loop L A p its (set_net (close_sock fd (pnet (sp s))) s)
         else (case malloc_struct L (dom (servers s)) of NULL \<Rightarrow> None
           | Ptr v \<Rightarrow> Some (Ptr v, s\<lparr>servers := (servers s)(v \<mapsto> \<lparr>socketfd = fd, port = p\<rparr>)\<rparr>)))"

definition tcp_server_create :: "libc \<Rightarrow> sock_api \<Rightarrow> byte list \<Rightarrow> sstate \<Rightarrow> (ptr \<times> sstate) option" where
  "tcp_server_create L A p s = (case getaddrinfo A p of Inl _ \<Rightarrow> Some (NULL, s) | Inr res \<Rightarrow> create_loop L A p res s)"

fun tcp_server_destroy :: "ptr \<Rightarrow> sstate \<Rightarrow> sstate option" where
  "tcp_server_destroy NULL s = Some s"
| "tcp_server_destroy (Ptr v) s = do {
     server \<leftarrow> servers s v;
     let s = set_net (close_sock (socketfd server) (pnet (sp s))) s;
     Some (s\<lparr>servers := (servers s)(v := None)\<rparr>)
   }"

fun tcp_server_listen_for_connections :: "sock_api \<Rightarrow> ptr \<Rightarrow> sstate \<Rightarrow> bool option" where
  "tcp_server_listen_for_connections A NULL s = None"
| "tcp_server_listen_for_connections A (Ptr v) s = map_option (\<lambda>server. listen_ok A (socketfd server)) (servers s v)"

text \<open>\<open>struct sockaddr\<close> has 16 bytes, the first two of them the address family; \<open>accept\<close> fills in at
  most that many. The family of IPv4 is 2, of IPv6 10. \<open>get_in_addr\<close> gives the offset of the
  address in it.\<close>

definition sockaddr_of :: "byte list \<Rightarrow> byte list" where
  "sockaddr_of addr = take 16 (addr @ replicate 16 nul)"

definition sa_family :: "byte list \<Rightarrow> nat" where
  "sa_family sa = of_char (sa ! 0) + 256 * of_char (sa ! 1)"

definition get_in_addr :: "byte list \<Rightarrow> nat" where
  "get_in_addr sa = (if sa_family sa = 2 then 4 else 8)"

text \<open>\<open>inet_ntop\<close> reads 4 or 16 bytes of the address; of an unknown family it writes no string, and
  the caller would go on with an unset one.\<close>

definition inet_ntop :: "sock_api \<Rightarrow> nat \<Rightarrow> byte list \<Rightarrow> nat \<Rightarrow> byte list option" where
  "inet_ntop A family sa off =
     (if family = 2 then if off + 4 \<le> length sa then Some (ntop A (take 4 (drop off sa))) else None
      else if family = 10 then if off + 16 \<le> length sa then Some (ntop A (take 16 (drop off sa))) else None
      else None)"

fun tcp_server_accept_connection :: "libc \<Rightarrow> sock_api \<Rightarrow> ptr \<Rightarrow> sstate \<Rightarrow> (ptr \<times> sstate) option" where
  "tcp_server_accept_connection L A NULL s = None"
| "tcp_server_accept_connection L A (Ptr v) s = do {
     server \<leftarrow> servers s v;
     (case accepts s of [] \<Rightarrow> None
      | Accept_Error # evs \<Rightarrow> Some (NULL, s\<lparr>accepts := evs\<rparr>)
      | Accepted sock addr # evs \<Rightarrow> do {
          let s = set_net (new_sock sock (pnet (sp s))) (s\<lparr>accepts := evs\<rparr>);
          let client_address = sockaddr_of addr;
          str \<leftarrow> inet_ntop A (sa_family client_address) client_address (get_in_addr client_address);
          let (connection, q) = tcp_connection_create L sock str (sp s);
          Some (if connection = NULL then (NULL, set_net (close_sock sock (pnet q)) (s\<lparr>sp := q\<rparr>))
                else (connection, s\<lparr>sp := q\<rparr>))
        })
   }"

subsection \<open>Facts\<close>

text \<open>An address that a server can be bound to, with the sockets \<open>open\<close> in use.\<close>

definition usable :: "sock_api \<Rightarrow> cint list \<Rightarrow> addrinfo \<Rightarrow> bool" where
  "usable A fds it \<longleftrightarrow> sys_socket A it fds \<noteq> - 1 \<and> setsockopt_ok A (sys_socket A it fds) \<and> bind_ok A it"

lemma set_net_simps [simp]:
  "pnet (sp (set_net w s)) = w" "servers (set_net w s) = servers s" "accepts (set_net w s) = accepts s"
  "set_net w (set_net w' s) = set_net w s" "set_net (pnet (sp s)) s = s"
  by (simp_all add: set_net_def)

lemma close_new_sock: "- 1 \<notin> set (open_socks w) \<Longrightarrow> close_sock fd (new_sock fd w) = w"
  by (auto simp: close_sock_def new_sock_def remove1_idem)

lemma create_loop_spec:
  assumes "- 1 \<notin> set (socks s)"
  shows "create_loop L A p its s = (case find (usable A (socks s)) its of None \<Rightarrow> Some (NULL, s)
    | Some it \<Rightarrow> (case malloc_struct L (dom (servers s)) of NULL \<Rightarrow> None
        | Ptr v \<Rightarrow> Some (Ptr v, (set_net (new_sock (sys_socket A it (socks s)) (pnet (sp s))) s)
            \<lparr>servers := (servers s)(v \<mapsto> \<lparr>socketfd = sys_socket A it (socks s), port = p\<rparr>)\<rparr>)))"
  using assms
proof (induction its)
  case (Cons it its)
  have "close_sock (sys_socket A it (socks s)) (new_sock (sys_socket A it (socks s)) (pnet (sp s))) = pnet (sp s)"
    by (rule close_new_sock) (use Cons.prems in simp)
  moreover have "new_sock (- 1) (pnet (sp s)) = pnet (sp s)" by (simp add: new_sock_def)
  ultimately show ?case
    using Cons by (simp add: usable_def Let_def split: ptr.splits)
qed simp


lemma sockaddr_of_simps:
  "length (sockaddr_of addr) = 16" "2 \<le> length addr \<Longrightarrow> sa_family (sockaddr_of addr) = of_char (addr ! 0) + 256 * of_char (addr ! 1)"
  by (auto simp: sockaddr_of_def sa_family_def nth_append)

lemma inet_ntop_sockaddr:
  assumes "2 \<le> length addr"
  shows "inet_ntop A (sa_family (sockaddr_of addr)) (sockaddr_of addr) (get_in_addr (sockaddr_of addr)) =
    (if sa_family (sockaddr_of addr) = 2 then Some (ntop A (take 4 (drop 4 (sockaddr_of addr)))) else None)"
  by (simp add: inet_ntop_def get_in_addr_def sockaddr_of_simps(1))

lemma accept_connection_result:
  assumes "libc_ok L" and "servers s v = Some server" and "accepts s = Accepted sock addr # evs"
    and "2 \<le> length addr" and "sock \<noteq> - 1"
  shows "if of_char (addr ! 0) + 256 * of_char (addr ! 1) = (2 :: nat)
    then \<exists>p s'. tcp_server_accept_connection L A (Ptr v) s = Some (p, s') \<and> accepts s' = evs \<and> servers s' = servers s \<and>
      (if p = NULL then sp s' = sp s
       else socks s' = sock # socks s \<and> tcp_connection_is_open p (sp s') = Some True \<and>
         (\<exists>c conn. p = Ptr c \<and> conns (sp s) c = None \<and> conns (sp s') c = Some conn \<and> socket conn = sock))
    else tcp_server_accept_connection L A (Ptr v) s = None"
proof (cases "sa_family (sockaddr_of addr) = 2")
  case True
  let ?s1 = "set_net (new_sock sock (pnet (sp s))) (s\<lparr>accepts := evs\<rparr>)"
  let ?str = "ntop A (take 4 (drop 4 (sockaddr_of addr)))"
  obtain p q where pq: "tcp_connection_create L sock ?str (sp ?s1) = (p, q)" by fastforce
  note res = tcp_connection_create_result [OF assms(1) pq]
  have acc: "tcp_server_accept_connection L A (Ptr v) s =
      Some (if p = NULL then (NULL, set_net (close_sock sock (pnet q)) (?s1\<lparr>sp := q\<rparr>)) else (p, ?s1\<lparr>sp := q\<rparr>))"
    using True assms(2,3) pq inet_ntop_sockaddr [OF assms(4), of A] by simp
  show ?thesis
  proof (cases "p = NULL")
    case null: True
    then have "q = sp ?s1" using res by simp
    then have "sp (set_net (close_sock sock (pnet q)) (?s1\<lparr>sp := q\<rparr>)) = sp s"
      using assms(5) by (simp add: set_net_def new_sock_def close_sock_def)
    then show ?thesis
      using acc null True sockaddr_of_simps(2) [OF assms(4)] by simp
  next
    case False
    then have "socks (?s1\<lparr>sp := q\<rparr>) = sock # socks s"
      using pq assms(5) by (auto simp: tcp_connection_create_def strdup_def Let_def new_sock_def split: ptr.splits if_splits)
    with False show ?thesis
      using acc True res sockaddr_of_simps(2) [OF assms(4)] by (fastforce simp: set_net_def)
  qed
next
  case False
  then show ?thesis
    using assms(2,3) inet_ntop_sockaddr [OF assms(4), of A] sockaddr_of_simps(2) [OF assms(4)] by simp
qed


lemma accept_keeps_blocks:
  assumes "tcp_server_accept_connection L A p s = Some (q, s')"
  shows "dom (pheap (sp s)) \<subseteq> dom (pheap (sp s'))"
proof (cases p)
  case (Ptr v)
  with assms show ?thesis
    by (auto simp: tcp_connection_create_def strdup_def Let_def set_net_def
      split: option.splits bind_splits list.splits accept_event.splits ptr.splits if_splits)
qed (use assms in simp)

subsection \<open>Properties\<close>

text \<open>C33: Creating the server binds to the first address that the system offers and that a socket can be created,
  configured and bound for. Of the sockets tried on the way none stays open: afterwards exactly the
  server's own socket is open beside those open before, or, if no address is usable (or the lookup
  failed), the result is \<open>NULL\<close> and nothing has changed. Destroying the server gives back the state
  before. If memory for the handle runs out, the missing check makes the program fault.\<close>

theorem tcp_server_create_first_usable:
  assumes "libc_ok L" and "- 1 \<notin> set (socks s)"
  shows "case getaddrinfo A p of Inl _ \<Rightarrow> tcp_server_create L A p s = Some (NULL, s)
    | Inr res \<Rightarrow> (case find (usable A (socks s)) res of
        None \<Rightarrow> tcp_server_create L A p s = Some (NULL, s)
      | Some it \<Rightarrow> if malloc_struct L (dom (servers s)) = NULL then tcp_server_create L A p s = None
          else \<exists>v s'. tcp_server_create L A p s = Some (Ptr v, s') \<and>
            servers s' v = Some \<lparr>socketfd = sys_socket A it (socks s), port = p\<rparr> \<and>
            socks s' = sys_socket A it (socks s) # socks s \<and> tcp_server_destroy (Ptr v) s' = Some s)"
proof (cases "getaddrinfo A p")
  case (Inr res)
  show ?thesis
  proof (cases "find (usable A (socks s)) res")
    case None
    then show ?thesis using Inr create_loop_spec [OF assms(2)] by (simp add: tcp_server_create_def)
  next
    case (Some it)
    let ?fd = "sys_socket A it (socks s)"
    have fd: "?fd \<noteq> - 1" using Some by (auto simp: find_Some_iff usable_def)
    have cl: "close_sock ?fd (new_sock ?fd (pnet (sp s))) = pnet (sp s)"
      using close_new_sock assms(2) by simp
    show ?thesis
    proof (cases "malloc_struct L (dom (servers s))")
      case NULL
      then show ?thesis using Inr Some create_loop_spec [OF assms(2)] by (simp add: tcp_server_create_def)
    next
      case (Ptr v)
      have v: "(servers s)(v := None) = servers s"
        using libc_okD(3) [OF assms(1) Ptr] by (auto simp: dom_def fun_upd_idem)
      show ?thesis
        using Inr Some Ptr fd cl v create_loop_spec [OF assms(2), of L A p res]
        by (auto simp: tcp_server_create_def new_sock_def set_net_def)
    qed
  qed
qed (simp add: tcp_server_create_def)

text \<open>Two addresses of which only the second can be bound; sockets are numbered upwards from 3.\<close>

definition sample_api :: sock_api where
  "sample_api = \<lparr>getaddrinfo = (\<lambda>p. Inr [\<lparr>ai_family = 10, ai_socktype = 1, ai_protocol = 6, ai_addr = []\<rparr>,
       \<lparr>ai_family = 2, ai_socktype = 1, ai_protocol = 6, ai_addr = []\<rparr>]),
     sys_socket = (\<lambda>it fds. word_of_nat (length fds + 3)), setsockopt_ok = (\<lambda>fd. fd \<noteq> - 1), bind_ok = (\<lambda>it. ai_family it = 2),
     listen_ok = (\<lambda>fd. True), ntop = (\<lambda>bs. ''127.0.0.1'')\<rparr>"

definition sample_server :: sstate where
  "sample_server = \<lparr>sp = sample_pstate [], servers = [0 \<mapsto> \<lparr>socketfd = 3, port = ''9000''\<rparr>],
     accepts = [Accepted 5 (CHR 0x02 # replicate 15 nul)]\<rparr>"

theorem tcp_server_create_first_usable_witness:
  "case getaddrinfo sample_api ''9000'' of Inl _ \<Rightarrow> tcp_server_create demo_libc sample_api ''9000'' sample_server = Some (NULL, sample_server)
    | Inr res \<Rightarrow> (case find (usable sample_api (socks sample_server)) res of
        None \<Rightarrow> tcp_server_create demo_libc sample_api ''9000'' sample_server = Some (NULL, sample_server)
      | Some it \<Rightarrow> if malloc_struct demo_libc (dom (servers sample_server)) = NULL then tcp_server_create demo_libc sample_api ''9000'' sample_server = None
          else \<exists>v s'. tcp_server_create demo_libc sample_api ''9000'' sample_server = Some (Ptr v, s') \<and>
            servers s' v = Some \<lparr>socketfd = sys_socket sample_api it (socks sample_server), port = ''9000''\<rparr> \<and>
            socks s' = sys_socket sample_api it (socks sample_server) # socks sample_server \<and> tcp_server_destroy (Ptr v) s' = Some sample_server)"
  by (rule tcp_server_create_first_usable [OF demo_libc_ok]) (simp add: sample_server_def sample_pstate_def)



end
