(* ===== verification/Server_Main.thy ===== *)
theory Server_Main
  imports Connection_Manager Tcp_Server
begin

text \<open>
  The server program: \<^verbatim>\<open>server/src/main.c\<close>, as built with \<open>USE_AESD_CHAR_DEVICE\<close>. What the
  operating system decides (signal registration, \<open>fork\<close>, \<open>setsid\<close>, \<open>chdir\<close>) and when the signal
  handler runs are parameters; \<open>exit_program k\<close> is the value of the flag \<open>exit_program\<close> at the k-th
  check of the accept loop. The outcomes \<open>exit\<close> and \<open>return\<close> are values; \<open>None\<close> is a fault or a
  call that blocks for ever.
\<close>

subsection \<open>State and environment\<close>

record main_env =
  sigaction_ok :: "nat \<Rightarrow> bool"
  fork :: cint
  setsid_ok :: bool
  chdir_ok :: bool
  exit_program :: "nat \<Rightarrow> bool"

text \<open>The descriptor table of the process names the file behind each open descriptor.\<close>

type_synonym fd_table = "byte list option list"

record main_state =
  mst :: mstate
  msrv :: "nat \<rightharpoonup> tcp_server"
  maccepts :: "accept_event list"
  fds :: fd_table

datatype exit_status = Exit int | Return int

definition TARGET_FILENAME :: "byte list" where
  "TARGET_FILENAME = ''/dev/aesdchar''"

text \<open>The server's and the manager's view of the state.\<close>

definition server_view :: "main_state \<Rightarrow> sstate" where
  "server_view s = \<lparr>sp = mp (mst s), servers = msrv s, accepts = maccepts s\<rparr>"

definition with_server :: "sstate \<Rightarrow> main_state \<Rightarrow> main_state" where
  "with_server v s = s\<lparr>mst := (mst s)\<lparr>mp := sp v\<rparr>, msrv := servers v, maccepts := accepts v\<rparr>"

subsection \<open>Operations\<close>

text \<open>\<open>open\<close> and \<open>dup\<close> use the lowest free descriptor; \<open>dup\<close> of a closed one fails.\<close>

definition install :: "byte list \<Rightarrow> fd_table \<Rightarrow> fd_table" where
  "install file t = (let i = length (takeWhile (\<lambda>x. x \<noteq> None) t) in if i < length t then t[i := Some file] else t @ [Some file])"

definition dup :: "nat \<Rightarrow> fd_table \<Rightarrow> fd_table" where
  "dup fd t = (if fd < length t then case t ! fd of None \<Rightarrow> t | Some file \<Rightarrow> install file t else t)"

text \<open>SIGTERM is 15, SIGINT is 2.\<close>

definition main_setup :: "main_env \<Rightarrow> exit_status option" where
  "main_setup E = (if \<not> sigaction_ok E 15 then Some (Exit (- 1)) else if \<not> sigaction_ok E 2 then Some (Exit (- 1)) else None)"

text \<open>The result is an exit, or the boolean that \<open>daemonize\<close> returns in the child and its descriptors.\<close>

definition daemonize :: "main_env \<Rightarrow> fd_table \<Rightarrow> exit_status + (bool \<times> fd_table)" where
  "daemonize E t =
     (if fork E = - 1 then Inl (Exit 1)
      else if fork E \<noteq> 0 then Inl (Exit 0)
      else if \<not> setsid_ok E then Inr (False, t)
      else if \<not> chdir_ok E then Inr (False, t)
      else Inr (True, dup 0 (dup 0 (install ''/dev/null'' t))))"

partial_function (option) accept_loop ::
  "libc \<Rightarrow> sock_api \<Rightarrow> pthreads \<Rightarrow> main_env \<Rightarrow> ptr \<Rightarrow> ptr \<Rightarrow> nat \<Rightarrow> main_state \<Rightarrow> main_state option" where
  "accept_loop L A T E server mgr k s =
     (if exit_program E k then Some s
      else do {
        (conn, v) \<leftarrow> tcp_server_accept_connection L A server (server_view s);
        let s = with_server v s;
        if conn \<noteq> NULL
        then do {
          (_, m) \<leftarrow> connection_manager_register_connection L T mgr conn (mst s);
          accept_loop L A T E server mgr (Suc k) (s\<lparr>mst := m\<rparr>)
        }
        else accept_loop L A T E server mgr (Suc k) s
      })"

text \<open>\<open>main\<close> after \<open>main_setup\<close> and the optional \<open>daemonize\<close>, first up to the accept loop: the program has exited, or
  there are a server, a manager and a state to go on with. \<open>teardown\<close> only closes the system log in this build.\<close>

definition start_up :: "libc \<Rightarrow> sock_api \<Rightarrow> main_state \<Rightarrow> ((exit_status \<times> main_state) + (ptr \<times> ptr \<times> main_state)) option" where
  "start_up L A s = do {
     (mgr, m) \<leftarrow> connection_manager_create L TARGET_FILENAME (mst s);
     let s = s\<lparr>mst := m\<rparr>;
     (server, v) \<leftarrow> tcp_server_create L A ''9000'' (server_view s);
     let s = with_server v s;
     if server = NULL then Some (Inl (Exit (- 1), s))
     else do {
       listening \<leftarrow> tcp_server_listen_for_connections A server (server_view s);
       if \<not> listening
       then do { v \<leftarrow> tcp_server_destroy server (server_view s); Some (Inl (Exit (- 1), with_server v s)) }
       else Some (Inr (server, mgr, s))
     }
   }"

definition run_server :: "libc \<Rightarrow> sock_api \<Rightarrow> pthreads \<Rightarrow> main_env \<Rightarrow> main_state \<Rightarrow> (exit_status \<times> main_state) option" where
  "run_server L A T E s = do {
     r \<leftarrow> start_up L A s;
     (case r of
        Inl x \<Rightarrow> Some x
      | Inr (server, mgr, s) \<Rightarrow> do {
          s \<leftarrow> accept_loop L A T E server mgr 0 s;
          v \<leftarrow> tcp_server_destroy server (server_view s);
          let s = with_server v s;
          m \<leftarrow> connection_manager_destroy T mgr (mst s);
          Some (Return 0, s\<lparr>mst := m\<rparr>)
        })
   }"

definition main :: "libc \<Rightarrow> sock_api \<Rightarrow> pthreads \<Rightarrow> main_env \<Rightarrow> byte list list \<Rightarrow> main_state \<Rightarrow> (exit_status \<times> main_state) option" where
  "main L A T E argv s =
     (case main_setup E of Some x \<Rightarrow> Some (x, s)
      | None \<Rightarrow>
          if length argv = 2 \<and> argv ! 1 = ''-d''
          then (case daemonize E (fds s) of Inl x \<Rightarrow> Some (x, s) | Inr (_, t) \<Rightarrow> run_server L A T E (s\<lparr>fds := t\<rparr>))
          else run_server L A T E s)"

text \<open>\<open>signal_handler\<close>: the flag, whatever it was, is set.\<close>

definition signal_handler :: "nat \<Rightarrow> bool \<Rightarrow> bool" where
  "signal_handler signal_number flag = True"


subsection \<open>The accept loop\<close>

definition ipv4_event :: "accept_event \<Rightarrow> bool" where
  "ipv4_event ev = (case ev of Accept_Error \<Rightarrow> True
     | Accepted sock addr \<Rightarrow> 2 \<le> length addr \<and> sock \<noteq> - 1 \<and> of_char (addr ! 0) + 256 * of_char (addr ! 1) = (2 :: nat))"

text \<open>A struct can be allocated as long as finitely many are in use.\<close>

definition structs_available :: "libc \<Rightarrow> bool" where
  "structs_available L \<longleftrightarrow> (\<forall>S. finite S \<longrightarrow> malloc_struct L S \<noteq> NULL)"

text \<open>What the accept loop keeps: the manager with its threads, each started once, and the memory
  that others own.\<close>

definition serving :: "nat \<Rightarrow> main_state \<Rightarrow> main_state \<Rightarrow> nat list \<Rightarrow> bool" where
  "serving m s0 s ts \<longleftrightarrow> (\<exists>G. finite G \<and> manager_rep m G (mst s) (rev ts)) \<and> started (mst s) = started (mst s0) @ ts \<and>
     joined (mst s) = joined (mst s0) \<and> msrv s = msrv s0 \<and> dom (pheap (mp (mst s0))) \<subseteq> dom (pheap (mp (mst s))) \<and>
     (\<forall>x. x \<noteq> m \<longrightarrow> managers (mst s) x = managers (mst s0) x) \<and>
     map_option filename (managers (mst s) m) = map_option filename (managers (mst s0) m)"

lemma server_view_simps [simp]:
  "sp (server_view s) = mp (mst s)" "servers (server_view s) = msrv s" "accepts (server_view s) = maccepts s"
  by (simp_all add: server_view_def)

lemma with_server_simps [simp]:
  "mp (mst (with_server v s)) = sp v" "msrv (with_server v s) = servers v" "maccepts (with_server v s) = accepts v"
  "ctxs (mst (with_server v s)) = ctxs (mst s)" "managers (mst (with_server v s)) = managers (mst s)"
  "started (mst (with_server v s)) = started (mst s)" "joined (mst (with_server v s)) = joined (mst s)"
  by (simp_all add: with_server_def)

lemma manager_rep_cong:
  "ctxs s' = ctxs s \<Longrightarrow> managers s' = managers s \<Longrightarrow> manager_rep m G s' ts = manager_rep m G s ts"
  by (simp add: manager_rep_def)

lemma manager_rep_finite: "manager_rep m G s ts \<Longrightarrow> finite G \<Longrightarrow> finite (dom (ctxs s))"
  unfolding manager_rep_def by (elim exE conjE) simp

text \<open>A step of the accept call that leaves the list of contexts alone.\<close>

lemma serving_accept:
  assumes "serving m s0 s ts" and "servers v = msrv s" and "dom (pheap (mp (mst s))) \<subseteq> dom (pheap (sp v))"
  shows "serving m s0 (with_server v s) ts"
proof -
  have "dom (pheap (mp (mst s0))) \<subseteq> dom (pheap (sp v))"
    using assms(1,3) unfolding serving_def by (meson order_trans)
  then show ?thesis
    using assms(1,2) manager_rep_cong [of "mst (with_server v s)" "mst s"] by (simp add: serving_def)
qed

lemma serving_register:
  assumes L: "libc_ok L" "structs_available L" and s: "serving m s0 s ts"
  shows "\<exists>r m' ts'. connection_manager_register_connection L T (Ptr m) conn (mst s) = Some (r, m') \<and> serving m s0 (s\<lparr>mst := m'\<rparr>) ts'"
proof -
  obtain G where G: "finite G" "manager_rep m G (mst s) (rev ts)" using s by (auto simp: serving_def)
  obtain c where c: "malloc_struct L (dom (ctxs (mst s))) = Ptr c"
    using L(2) manager_rep_finite [OF G(2,1)] by (cases "malloc_struct L (dom (ctxs (mst s)))") (auto simp: structs_available_def)
  have nc: "c \<notin> dom (ctxs (mst s))" using libc_okD(3) [OF L(1) c] .
  show ?thesis
  proof (cases "pthread_create T (started (mst s))")
    case None
    obtain m' where m': "connection_manager_register_connection L T (Ptr m) conn (mst s) = Some (False, m')"
        "manager_rep m (insert c G) m' (rev ts)" "mp m' = mp (mst s)" "started m' = started (mst s)"
      using register_fails [OF G(2) c nc None] by blast
    then have fr: "m' = (mst s)\<lparr>ctxs := ctxs m'\<rparr>"
      using c None by (auto simp: connection_manager_register_connection_def Let_def)
    have "managers m' = managers (mst s)" "joined m' = joined (mst s)"
      by (subst fr, simp)+
    with m' s G(1) show ?thesis
      by (intro exI [of _ False] exI [of _ m'] exI [of _ ts]) (auto simp: serving_def intro!: exI [of _ "insert c G"])
  next
    case (Some tid)
    obtain m' where m': "connection_manager_register_connection L T (Ptr m) conn (mst s) = Some (True, m')"
        "manager_rep m G m' (tid # rev ts)" "started m' = started (mst s) @ [tid]"
        "same_manager m ((mst s)\<lparr>started := started m'\<rparr>) m'"
      using register_starts [OF G(2) c nc Some] by blast
    have "joined m' = joined (mst s)"
      using m'(1) c Some by (auto simp: connection_manager_register_connection_def Let_def split: option.splits bind_splits)
    with m' s G(1) show ?thesis
      by (intro exI [of _ True] exI [of _ m'] exI [of _ "ts @ [tid]"]) (auto simp: serving_def same_manager_def intro!: exI [of _ G])
  qed
qed


lemma accept_ipv4:
  assumes "libc_ok L" and "msrv s v = Some server" and "maccepts s = ev # evs" and "ipv4_event ev"
  shows "\<exists>p w. tcp_server_accept_connection L A (Ptr v) (server_view s) = Some (p, w) \<and> servers w = msrv s \<and> accepts w = evs \<and>
    dom (pheap (mp (mst s))) \<subseteq> dom (pheap (sp w))"
proof (cases ev)
  case Accept_Error
  with assms show ?thesis by simp
next
  case (Accepted sock addr)
  then have ev: "2 \<le> length addr" "sock \<noteq> - 1" "of_char (addr ! 0) + 256 * of_char (addr ! 1) = (2 :: nat)"
    using assms(4) by (simp_all add: ipv4_event_def)
  have "servers (server_view s) v = Some server" "accepts (server_view s) = Accepted sock addr # evs"
    using assms(2,3) Accepted by simp_all
  from accept_connection_result [OF assms(1) this ev(1,2), of A] ev(3) obtain p w where
    "tcp_server_accept_connection L A (Ptr v) (server_view s) = Some (p, w)" "servers w = msrv s" "accepts w = evs"
    by auto
  then show ?thesis using accept_keeps_blocks by fastforce
qed

lemma accept_loop_serves:
  assumes L: "libc_ok L" "structs_available L"
  shows "serving m s0 s ts \<Longrightarrow> msrv s v = Some server \<Longrightarrow> n \<le> length (maccepts s) \<Longrightarrow>
    (\<forall>ev\<in>set (take n (maccepts s)). ipv4_event ev) \<Longrightarrow> (\<forall>i<n. \<not> exit_program E (k + i)) \<Longrightarrow> exit_program E (k + n) \<Longrightarrow>
    \<exists>s' ts'. accept_loop L A T E (Ptr v) (Ptr m) k s = Some s' \<and> serving m s0 s' ts'"
proof (induction n arbitrary: k s ts)
  case 0
  then show ?case by (subst accept_loop.simps) auto
next
  case (Suc n)
  obtain ev evs where acc: "maccepts s = ev # evs" using Suc.prems(3) by (cases "maccepts s") auto
  have ev: "ipv4_event ev" "\<forall>e\<in>set (take n evs). ipv4_event e" "n \<le> length evs"
    using Suc.prems(3,4) acc by simp_all
  have stop: "\<not> exit_program E k" "\<forall>i<n. \<not> exit_program E (Suc k + i)" "exit_program E (Suc k + n)"
    using Suc.prems(5,6) by (auto dest: spec [of _ 0] spec [of _ "Suc _"])
  obtain p w where p: "tcp_server_accept_connection L A (Ptr v) (server_view s) = Some (p, w)" "servers w = msrv s" "accepts w = evs"
      "dom (pheap (mp (mst s))) \<subseteq> dom (pheap (sp w))"
    using accept_ipv4 [OF L(1) Suc.prems(2) acc ev(1)] by blast
  note s1 = serving_accept [OF Suc.prems(1) p(2,4)]
  have v: "msrv (with_server w s) v = Some server" using Suc.prems(2) p(2) by simp
  show ?case
  proof (cases "p = NULL")
    case True
    then have "accept_loop L A T E (Ptr v) (Ptr m) k s = accept_loop L A T E (Ptr v) (Ptr m) (Suc k) (with_server w s)"
      using stop(1) p(1) by (subst accept_loop.simps) simp
    then show ?thesis
      using Suc.IH [OF s1 v _ _ stop(2,3)] ev(2,3) p(3) by simp
  next
    case False
    obtain r m' ts' where r: "connection_manager_register_connection L T (Ptr m) p (mst (with_server w s)) = Some (r, m')"
        "serving m s0 ((with_server w s)\<lparr>mst := m'\<rparr>) ts'"
      using serving_register [OF L s1] by blast
    then have "accept_loop L A T E (Ptr v) (Ptr m) k s =
        accept_loop L A T E (Ptr v) (Ptr m) (Suc k) ((with_server w s)\<lparr>mst := m'\<rparr>)"
      using stop(1) p(1) False by (subst accept_loop.simps) simp
    then show ?thesis
      using Suc.IH [OF r(2) _ _ _ stop(2,3)] v ev(2,3) p(3) by simp
  qed
qed


subsection \<open>Start and end of the program\<close>

lemma manager_create_ok:
  assumes L: "libc_ok L" "structs_available L" "memory_up_to L limit" and len: "length fname + 1 \<le> limit"
    and fin: "finite (dom (pheap (mp s)))" "finite (dom (managers s))" "finite (dom (ctxs s))"
  shows "\<exists>m a s'. connection_manager_create L fname s = Some (Ptr m, s') \<and> manager_rep m (dom (ctxs s)) s' [] \<and>
    managers s m = None \<and> map_option filename (managers s' m) = Some (Ptr a) \<and> (\<forall>x. x \<noteq> m \<longrightarrow> managers s' x = managers s x) \<and>
    mp s' = (mp s)\<lparr>pheap := (pheap (mp s))(a \<mapsto> fname @ [nul])\<rparr> \<and> started s' = started s \<and> joined s' = joined s \<and> ctxs s' = ctxs s"
proof -
  obtain m where m: "malloc_struct L (dom (managers s)) = Ptr m"
    using L(2) fin(2) by (cases "malloc_struct L (dom (managers s))") (auto simp: structs_available_def)
  have nm: "managers s m = None" using libc_okD(3) [OF L(1) m] by auto
  obtain a where a: "malloc L (length fname + 1) (pheap (mp s)) = (Ptr a, (pheap (mp s))(a \<mapsto> replicate (length fname + 1) (junk_byte L)))"
    using malloc_served [OF L(1,3) len _ fin(1)] by auto
  let ?h = "(pheap (mp s))(a \<mapsto> replicate (length fname + 1) (junk_byte L))"
  have st: "store_bytes (Ptr a) 0 (fname @ [nul]) ?h = Some ((pheap (mp s))(a \<mapsto> fname @ [nul]))"
    by (subst store_bytes_block [where bs = "replicate (length fname + 1) (junk_byte L)"]) (simp_all add: overwrite_def)
  let ?mgr = "\<lparr>filename = Ptr a, file_mutex = Unlocked, close_connections = False, connection_ctx_list = SLIST_INIT \<lparr>slh_first = NULL\<rparr>\<rparr>"
  let ?s' = "s\<lparr>mp := (mp s)\<lparr>pheap := (pheap (mp s))(a \<mapsto> fname @ [nul])\<rparr>, managers := (managers s)(m \<mapsto> ?mgr)\<rparr>"
  have "connection_manager_create L fname s = Some (Ptr m, ?s')"
    using m a st by (simp add: connection_manager_create_def del: store_bytes.simps)
  moreover have "manager_rep m (dom (ctxs s)) ?s' []"
    unfolding manager_rep_def by (intro exI [of _ ?mgr] exI [of _ "[]"]) (simp add: SLIST_INIT_def SLIST_FIRST_def)
  ultimately show ?thesis
    using nm by (intro exI [of _ m] exI [of _ a] exI [of _ ?s']) simp
qed

lemma destroy_serving:
  assumes "serving m s0 s ts" and "\<forall>tid. ends T tid" and "map_option filename (managers (mst s0) m) = Some p"
    and "set (addrs p) \<subseteq> dom (pheap (mp (mst s0)))"
  shows "\<exists>m'. connection_manager_destroy T (Ptr m) (mst s) = Some m' \<and> joined m' = joined (mst s0) @ rev ts \<and>
    started m' = started (mst s0) @ ts \<and> managers m' = (managers (mst s0))(m := None)"
proof -
  obtain G where G: "manager_rep m G (mst s) (rev ts)" using assms(1) by (auto simp: serving_def)
  obtain mgr where mgr: "managers (mst s) m = Some mgr" "filename mgr = p"
    using assms(1,3) by (cases "managers (mst s) m") (auto simp: serving_def)
  have "set (addrs (filename mgr)) \<subseteq> dom (pheap (mp (mst s)))"
    using assms(1,4) mgr(2) unfolding serving_def by (meson order_trans)
  from destroy_joins_all [OF G mgr(1) _ this, of T] assms(2) obtain m' where m':
    "connection_manager_destroy T (Ptr m) (mst s) = Some m'" "joined m' = joined (mst s) @ rev ts"
    "managers m' = (managers (mst s))(m := None)" "started m' = started (mst s)"
    by auto
  have "(managers (mst s))(m := None) = (managers (mst s0))(m := None)"
    using assms(1) by (auto simp: serving_def fun_eq_iff)
  with m' assms(1) show ?thesis by (auto simp: serving_def)
qed


lemma server_create_ok:
  assumes "libc_ok L" and "structs_available L" and "finite (dom (servers w))" and "- 1 \<notin> set (socks w)"
    and "getaddrinfo A p = Inr res" and "find (usable A (socks w)) res = Some it"
  shows "\<exists>v fd w'. tcp_server_create L A p w = Some (Ptr v, w') \<and> servers w v = None \<and> fd = sys_socket A it (socks w) \<and>
    servers w' = (servers w)(v \<mapsto> \<lparr>socketfd = fd, port = p\<rparr>) \<and> accepts w' = accepts w \<and>
    pheap (sp w') = pheap (sp w)"
proof -
  obtain v where v: "malloc_struct L (dom (servers w)) = Ptr v"
    using assms(2,3) by (cases "malloc_struct L (dom (servers w))") (auto simp: structs_available_def)
  moreover have "servers w v = None" using libc_okD(3) [OF assms(1) v] by auto
  ultimately show ?thesis
    using assms(5,6) create_loop_spec [OF assms(4), of L A p res] by (auto simp: tcp_server_create_def set_net_def)
qed

lemma run_server_returns:
  assumes L: "libc_ok L" "structs_available L" "memory_up_to L (2 ^ 30)"
    and fin: "finite (dom (pheap (mp (mst s))))" "finite (dom (managers (mst s)))" "finite (dom (ctxs (mst s)))" "finite (dom (msrv s))"
    and net: "- 1 \<notin> set (open_socks (pnet (mp (mst s))))" "getaddrinfo A ''9000'' = Inr res"
      "find (usable A (open_socks (pnet (mp (mst s))))) res = Some it"
      "listen_ok A (sys_socket A it (open_socks (pnet (mp (mst s)))))"
    and acc: "n \<le> length (maccepts s)" "\<forall>ev\<in>set (take n (maccepts s)). ipv4_event ev"
    and stop: "\<forall>i<n. \<not> exit_program E i" "exit_program E n" and T: "\<forall>tid. ends T tid"
  shows "\<exists>s' ts. run_server L A T E s = Some (Return 0, s') \<and> started (mst s') = started (mst s) @ ts \<and>
    joined (mst s') = joined (mst s) @ rev ts \<and> msrv s' = msrv s \<and> managers (mst s') = managers (mst s)"
proof -
  obtain m a m1 where m: "connection_manager_create L TARGET_FILENAME (mst s) = Some (Ptr m, m1)"
      "manager_rep m (dom (ctxs (mst s))) m1 []" "managers (mst s) m = None" "map_option filename (managers m1 m) = Some (Ptr a)"
      "\<forall>x. x \<noteq> m \<longrightarrow> managers m1 x = managers (mst s) x" "mp m1 = (mp (mst s))\<lparr>pheap := (pheap (mp (mst s)))(a \<mapsto> TARGET_FILENAME @ [nul])\<rparr>"
      "started m1 = started (mst s)" "joined m1 = joined (mst s)"
    using manager_create_ok [OF L _ fin(1-3), of TARGET_FILENAME] by (auto simp: TARGET_FILENAME_def)
  let ?s1 = "s\<lparr>mst := m1\<rparr>"
  have so: "socks (server_view ?s1) = open_socks (pnet (mp (mst s)))" using m(6) by simp
  obtain v fd w where v: "tcp_server_create L A ''9000'' (server_view ?s1) = Some (Ptr v, w)" "msrv s v = None"
      "fd = sys_socket A it (open_socks (pnet (mp (mst s))))" "servers w = (msrv s)(v \<mapsto> \<lparr>socketfd = fd, port = ''9000''\<rparr>)"
      "accepts w = maccepts s" "pheap (sp w) = pheap (mp m1)"
    using server_create_ok [OF L(1,2), of "server_view ?s1" A "''9000''" res it] fin(4) net so by auto
  let ?s2 = "with_server w ?s1"
  have lis: "tcp_server_listen_for_connections A (Ptr v) (server_view ?s2) = Some True"
    using v(3,4) net(4) by simp
  have "manager_rep m (dom (ctxs (mst s))) (mst ?s2) (rev [])"
    using m(2) manager_rep_cong [of "mst ?s2" m1] by simp
  then have "serving m ?s2 ?s2 []" using fin(3) unfolding serving_def by auto
  from accept_loop_serves [OF L(1,2) this, of v _ n E 0 A T] v(4,5) acc stop obtain s3 ts where
    s3: "accept_loop L A T E (Ptr v) (Ptr m) 0 ?s2 = Some s3" "serving m ?s2 s3 ts"
    by auto
  have sv: "msrv s3 = (msrv s)(v \<mapsto> \<lparr>socketfd = fd, port = ''9000''\<rparr>)"
    using s3(2) v(4) by (simp add: serving_def)
  then obtain w4 where w4: "tcp_server_destroy (Ptr v) (server_view s3) = Some w4" "servers w4 = msrv s"
      "pheap (sp w4) = pheap (mp (mst s3))"
    using v(2) by (auto simp: set_net_def fun_upd_idem)
  have s4: "serving m ?s2 ((with_server w4 s3)\<lparr>msrv := msrv s3\<rparr>) ts"
    using s3(2) w4(3) manager_rep_cong [of "mst (with_server w4 s3)" "mst s3"] by (simp add: serving_def)
  have "set (addrs (Ptr a)) \<subseteq> dom (pheap (mp (mst ?s2)))" using m(6) v(6) by simp
  from destroy_serving [OF s4 T _ this] m(4) obtain m5 where m5:
    "connection_manager_destroy T (Ptr m) (mst (with_server w4 s3)) = Some m5" "joined m5 = joined (mst s) @ rev ts"
    "started m5 = started (mst s) @ ts" "managers m5 = (managers m1)(m := None)"
    using m(7,8) by auto
  have "run_server L A T E s = Some (Return 0, (with_server w4 s3)\<lparr>mst := m5\<rparr>)"
    using m(1) v(1) lis s3(1) w4(1) m5(1)
    by (simp add: run_server_def start_up_def del: tcp_server_destroy.simps connection_manager_destroy.simps tcp_server_listen_for_connections.simps)
  moreover have "(managers m1)(m := None) = managers (mst s)"
    using m(3,5) by (auto simp: fun_eq_iff)
  ultimately show ?thesis using m5 w4(2) by auto
qed


lemma install_full: "\<forall>x\<in>set t. x \<noteq> None \<Longrightarrow> install file t = t @ [Some file]"
proof -
  assume "\<forall>x\<in>set t. x \<noteq> None"
  then have all: "takeWhile (\<lambda>x. x \<noteq> None) t = t" by (simp add: takeWhile_eq_all_conv)
  show ?thesis unfolding install_def all by simp
qed

lemma dup_full: "\<forall>x\<in>set t. x \<noteq> None \<Longrightarrow> t \<noteq> [] \<Longrightarrow> dup 0 t = t @ [t ! 0]"
  using install_full [of t] by (cases t) (auto simp: dup_def)

subsection \<open>Properties\<close>


text \<open>One waiting IPv4 client, then the signal.\<close>

definition sample_env :: main_env where
  "sample_env = \<lparr>sigaction_ok = (\<lambda>n. True), fork = 0, setsid_ok = True, chdir_ok = True, exit_program = (\<lambda>k. 1 \<le> k)\<rparr>"

definition sample_main :: main_state where
  "sample_main = \<lparr>mst = sample_mstate, msrv = Map.empty, maccepts = accepts sample_server,
     fds = [Some ''stdin'', Some ''stdout'', Some ''stderr'']\<rparr>"

lemma demo_libc_structs: "structs_available demo_libc"
  by (simp add: structs_available_def demo_libc_def next_addr_def)


text \<open>Turning into a daemon leaves the standard descriptors alone: in the child, when descriptors are open
  without a gap, \<open>daemonize\<close> adds one descriptor for \<open>/dev/null\<close> and two more for whatever descriptor
  0 was, behind the existing ones; only if none was open do 0, 1 and 2 become \<open>/dev/null\<close>. The parent
  exits with 0, a failing \<open>fork\<close> with 1, and without a new session or directory the result is false
  with the descriptors unchanged.\<close>

lemma daemonize_descriptors:
  assumes "\<forall>x\<in>set t. x \<noteq> None"
  shows "daemonize E t =
    (if fork E = - 1 then Inl (Exit 1) else if fork E \<noteq> 0 then Inl (Exit 0)
     else if \<not> (setsid_ok E \<and> chdir_ok E) then Inr (False, t)
     else Inr (True, t @ [Some ''/dev/null'', if t = [] then Some ''/dev/null'' else t ! 0, if t = [] then Some ''/dev/null'' else t ! 0]))"
proof -
  let ?n = "Some ''/dev/null'' :: byte list option"
  have i: "install ''/dev/null'' t = t @ [?n]" using install_full [OF assms] .
  have a: "\<forall>x\<in>set (t @ [?n]). x \<noteq> None" using assms by auto
  have d1: "dup 0 (t @ [?n]) = t @ [?n, (t @ [?n]) ! 0]" using dup_full [OF a] by simp
  have b: "\<forall>x\<in>set (t @ [?n, (t @ [?n]) ! 0]). x \<noteq> None"
    using a by (cases t) auto
  have "dup 0 (t @ [?n, (t @ [?n]) ! 0]) = t @ [?n, (t @ [?n]) ! 0, (t @ [?n]) ! 0]"
    using dup_full [OF b] by (cases t) auto
  then have "dup 0 (dup 0 (install ''/dev/null'' t)) = t @ [?n, (t @ [?n]) ! 0, (t @ [?n]) ! 0]"
    by (simp only: i d1)
  then show ?thesis by (cases t) (auto simp: daemonize_def)
qed

lemma daemonize_descriptors_witness:
  "daemonize sample_env [Some ''stdin'', Some ''stdout'', Some ''stderr''] =
    (if fork sample_env = - 1 then Inl (Exit 1) else if fork sample_env \<noteq> 0 then Inl (Exit 0)
     else if \<not> (setsid_ok sample_env \<and> chdir_ok sample_env) then Inr (False, [Some ''stdin'', Some ''stdout'', Some ''stderr''])
     else Inr (True, [Some ''stdin'', Some ''stdout'', Some ''stderr''] @ [Some ''/dev/null'',
       if [Some ''stdin'', Some ''stdout'', Some ''stderr''] = [] then Some ''/dev/null'' else [Some ''stdin'', Some ''stdout'', Some ''stderr''] ! 0,
       if [Some ''stdin'', Some ''stdout'', Some ''stderr''] = [] then Some ''/dev/null'' else [Some ''stdin'', Some ''stdout'', Some ''stderr''] ! 0]))"
  by (rule daemonize_descriptors) simp

end
