(* ===== verification/Server_System.thy ===== *)
theory Server_System
  imports Server_Threads Server_Main
begin

text \<open>
  The whole server as it runs: \<open>main\<close> with its accept loop and shutdown (\<^verbatim>\<open>server/src/main.c\<close>), and one
  thread per connection from \<open>pthread_create\<close> to the return of \<open>thread_routine\<close>, all on one process, one
  device and one mutex. A step of the system is a step of one connection thread (\<open>thread_step\<close>), the end
  of a thread, one statement of \<open>main\<close>, or the signal; steps interleave freely.

  Clients are numbered in the order in which they are accepted; \<open>lines_of n\<close> is what client \<open>n\<close> sends. The
  kernel gives every accepted connection an unused descriptor and a new stream; descriptors and
  memory of finished connections are used again.
\<close>

subsection \<open>State\<close>

text \<open>Where \<open>main\<close> is: at the check of the loop, in \<open>accept\<close>, about to register the connection of a client, about to
  destroy the server handle, about to set \<open>close_connections\<close>, in the loop that joins the threads,
  after it, and returned.\<close>

datatype main_phase =
    Loop_Check
  | Accepting
  | Registering nat nat
  | Closing_Server
  | Stopping
  | Joining
  | Freeing
  | Returned

text \<open>A thread: its argument, its identifier, and the client it serves.\<close>

record thread_info =
  arg_ctx :: nat
  self :: nat
  client :: nat

text \<open>Threads are found by the address of their connection; \<open>ended\<close> are the threads that have returned, \<open>got\<close> is
  what a client had been sent when its connection was closed.\<close>

record system =
  ms :: main_state
  sdev :: kstate
  sholder :: "nat option"
  sphases :: "nat \<rightharpoonup> phase"
  who :: "nat \<rightharpoonup> thread_info"
  ended :: "nat set"
  exit_flag :: bool
  main_at :: main_phase
  arrived :: nat
  got :: "nat \<rightharpoonup> byte list"

abbreviation process :: "system \<Rightarrow> pstate" where
  "process s \<equiv> mp (mst (ms s))"

definition with_mst :: "mstate \<Rightarrow> system \<Rightarrow> system" where
  "with_mst x s = s\<lparr>ms := (ms s)\<lparr>mst := x\<rparr>\<rparr>"

text \<open>The state as the connection threads see it, and the system after one of them has moved.\<close>

definition closing_flag :: "nat \<Rightarrow> system \<Rightarrow> bool" where
  "closing_flag m s = (case managers (mst (ms s)) m of None \<Rightarrow> False | Some mgr \<Rightarrow> close_connections mgr)"

definition core :: "nat \<Rightarrow> system \<Rightarrow> server" where
  "core m s = \<lparr>proc = process s, dev = sdev s, holder = sholder s, close_flag = closing_flag m s, phases = sphases s\<rparr>"

definition with_core :: "server \<Rightarrow> system \<Rightarrow> system" where
  "with_core z s = (with_mst ((mst (ms s))\<lparr>mp := proc z\<rparr>) s)\<lparr>sdev := dev z, sholder := holder z, sphases := phases z\<rparr>"

subsection \<open>Steps\<close>

text \<open>What \<open>accept\<close> may deliver: an error, or an IPv4 client on a descriptor that is not in use, with new streams.\<close>

fun deliverable :: "cint list \<Rightarrow> accept_event \<Rightarrow> bool" where
  "deliverable used Accept_Error \<longleftrightarrow> True"
| "deliverable used (Accepted fd addr) \<longleftrightarrow> fd \<notin> set used \<and> ipv4_event (Accepted fd addr)"

fun new_stream :: "accept_event \<Rightarrow> recv_event list \<Rightarrow> net \<Rightarrow> net" where
  "new_stream Accept_Error evs w = w"
| "new_stream (Accepted fd addr) evs w = w\<lparr>inbox := (inbox w)(fd := evs), outbox := (outbox w)(fd := [])\<rparr>"

definition offer :: "accept_event \<Rightarrow> recv_event list \<Rightarrow> main_state \<Rightarrow> main_state" where
  "offer ev evs x = x\<lparr>maccepts := [ev], mst := (mst x)\<lparr>mp := (mp (mst x))\<lparr>pnet := new_stream ev evs (pnet (mp (mst x)))\<rparr>\<rparr>\<rparr>"

definition accepted_at :: "ptr \<Rightarrow> nat \<Rightarrow> main_phase" where
  "accepted_at p n = (case p of NULL \<Rightarrow> Loop_Check | Ptr c \<Rightarrow> Registering c n)"

text \<open>\<open>pthread_join\<close> waits: it can return once the thread has ended.\<close>

definition joinable :: "nat set \<Rightarrow> pthreads \<Rightarrow> pthreads" where
  "joinable E T = T\<lparr>ends := (\<lambda>tid. tid \<in> E)\<rparr>"

inductive system_step ::
  "libc \<Rightarrow> stdio \<Rightarrow> kernel_api \<Rightarrow> (nat \<Rightarrow> user_bufs) \<Rightarrow> sock_api \<Rightarrow> pthreads \<Rightarrow> nat \<Rightarrow> nat \<Rightarrow> (nat \<Rightarrow> byte list list) \<Rightarrow>
    system \<Rightarrow> history \<Rightarrow> system \<Rightarrow> bool"
  for L io K U A T m v lines_of s where
  thread: "who s c = Some t \<Longrightarrow> thread_step L io K U c (core m s) ev z \<Longrightarrow>
    system_step L io K U A T m v lines_of s (map (\<lambda>e. (client t, snd e)) ev) (with_core z s)"
| finish: "sphases s c = Some Finished \<Longrightarrow> who s c = Some t \<Longrightarrow> ctxs (mst (ms s)) (arg_ctx t) = Some e \<Longrightarrow>
    connection (payload e) = Ptr d \<Longrightarrow> conns (process s) d = Some conn \<Longrightarrow>
    tcp_connection_destroy (Ptr d) (process s) = Some p \<Longrightarrow>
    system_step L io K U A T m v lines_of s []
      ((with_mst ((mst (ms s))\<lparr>mp := p, ctxs := (ctxs (mst (ms s)))(arg_ctx t \<mapsto> e\<lparr>payload := (payload e)\<lparr>connection := NULL\<rparr>\<rparr>)\<rparr>) s)
        \<lparr>sphases := (sphases s)(c := None), who := (who s)(c := None), ended := insert (self t) (ended s),
         got := (got s)(client t \<mapsto> outbox (pnet (process s)) (socket conn))\<rparr>)"
| signal: "\<not> exit_flag s \<Longrightarrow> system_step L io K U A T m v lines_of s [] (s\<lparr>exit_flag := signal_handler 15 (exit_flag s)\<rparr>)"
| go_on: "main_at s = Loop_Check \<Longrightarrow> \<not> exit_flag s \<Longrightarrow> system_step L io K U A T m v lines_of s [] (s\<lparr>main_at := Accepting\<rparr>)"
| stop: "main_at s = Loop_Check \<Longrightarrow> exit_flag s \<Longrightarrow> system_step L io K U A T m v lines_of s [] (s\<lparr>main_at := Closing_Server\<rparr>)"
| accept: "main_at s = Accepting \<Longrightarrow> deliverable (open_socks (pnet (process s))) ev \<Longrightarrow>
    tcp_server_accept_connection L A (Ptr v) (server_view (offer ev (client_events (lines_of (arrived s))) (ms s))) = Some (p, w) \<Longrightarrow>
    system_step L io K U A T m v lines_of s []
      (s\<lparr>ms := with_server w (offer ev (client_events (lines_of (arrived s))) (ms s)), main_at := accepted_at p (arrived s),
         arrived := (if p = NULL then arrived s else Suc (arrived s))\<rparr>)"
| register: "main_at s = Registering c n \<Longrightarrow>
    connection_manager_register_connection L T (Ptr m) (Ptr c) (mst (ms s)) = Some (True, x) \<Longrightarrow>
    managers x m = Some mgr \<Longrightarrow> SLIST_FIRST (connection_ctx_list mgr) = Ptr a \<Longrightarrow>
    system_step L io K U A T m v lines_of s []
      ((with_mst x s)\<lparr>main_at := Loop_Check, sphases := (sphases s)(c \<mapsto> Receiving),
         who := (who s)(c \<mapsto> \<lparr>arg_ctx = a, self = last (started x), client = n\<rparr>)\<rparr>)"
| register_fails: "main_at s = Registering c n \<Longrightarrow>
    connection_manager_register_connection L T (Ptr m) (Ptr c) (mst (ms s)) = Some (False, x) \<Longrightarrow>
    system_step L io K U A T m v lines_of s [] ((with_mst x s)\<lparr>main_at := Loop_Check\<rparr>)"
| close_server: "main_at s = Closing_Server \<Longrightarrow> tcp_server_destroy (Ptr v) (server_view (ms s)) = Some w \<Longrightarrow>
    system_step L io K U A T m v lines_of s [] (s\<lparr>ms := with_server w (ms s), main_at := Stopping\<rparr>)"
| set_flag: "main_at s = Stopping \<Longrightarrow> managers (mst (ms s)) m = Some mgr \<Longrightarrow>
    system_step L io K U A T m v lines_of s []
      ((with_mst ((mst (ms s))\<lparr>managers := (managers (mst (ms s)))(m \<mapsto> mgr\<lparr>close_connections := True\<rparr>)\<rparr>) s)\<lparr>main_at := Joining\<rparr>)"
| join: "main_at s = Joining \<Longrightarrow> destroy_round (joinable (ended s) T) m (mst (ms s)) = Some x \<Longrightarrow>
    system_step L io K U A T m v lines_of s [] (with_mst x s)"
| joined_all: "main_at s = Joining \<Longrightarrow> managers (mst (ms s)) m = Some mgr \<Longrightarrow> SLIST_EMPTY (connection_ctx_list mgr) \<Longrightarrow>
    system_step L io K U A T m v lines_of s [] (s\<lparr>main_at := Freeing\<rparr>)"
| free: "main_at s = Freeing \<Longrightarrow> managers (mst (ms s)) m = Some mgr \<Longrightarrow> cfree (filename mgr) (pheap (process s)) = Some h \<Longrightarrow>
    system_step L io K U A T m v lines_of s []
      ((with_mst ((mst (ms s))\<lparr>mp := (process s)\<lparr>pheap := h\<rparr>, managers := (managers (mst (ms s)))(m := None)\<rparr>) s)\<lparr>main_at := Returned\<rparr>)"

text \<open>A run collects the lines in the order in which they are handled, by the number of the client.\<close>

inductive system_run ::
  "libc \<Rightarrow> stdio \<Rightarrow> kernel_api \<Rightarrow> (nat \<Rightarrow> user_bufs) \<Rightarrow> sock_api \<Rightarrow> pthreads \<Rightarrow> nat \<Rightarrow> nat \<Rightarrow> (nat \<Rightarrow> byte list list) \<Rightarrow>
    system \<Rightarrow> nat \<Rightarrow> history \<Rightarrow> system \<Rightarrow> bool"
  for L io K U A T m v lines_of s0 where
  begin_system: "system_run L io K U A T m v lines_of s0 0 [] s0"
| system_move: "system_run L io K U A T m v lines_of s0 n H s \<Longrightarrow> system_step L io K U A T m v lines_of s ev s' \<Longrightarrow>
    system_run L io K U A T m v lines_of s0 (Suc n) (H @ ev) s'"

subsection \<open>What a step of a thread may change\<close>

text \<open>The socket and the address string of a connection never change while it exists.\<close>

definition conn_key :: "pstate \<Rightarrow> nat \<Rightarrow> (cint \<times> ptr) option" where
  "conn_key p c = map_option (\<lambda>k. (socket k, client_address k)) (conns p c)"

text \<open>A thread allocates its message, releases it, or leaves the heap alone.\<close>

definition heap_moves :: "heap \<Rightarrow> ptr \<Rightarrow> heap \<Rightarrow> ptr \<Rightarrow> bool" where
  "heap_moves h p h' q \<longleftrightarrow> q = p \<and> dom h' = dom h \<or>
     (\<exists>a. p = NULL \<and> q = Ptr a \<and> h a = None \<and> dom h' = insert a (dom h)) \<or>
     (\<exists>a. p = Ptr a \<and> q = NULL \<and> dom h' = dom h - {a})"

text \<open>What belongs to other connections stays as it is.\<close>

definition same_elsewhere :: "nat \<Rightarrow> pstate \<Rightarrow> pstate \<Rightarrow> bool" where
  "same_elsewhere c p q \<longleftrightarrow> (\<forall>b. b \<noteq> c \<longrightarrow> conns q b = conns p b) \<and>
     (\<forall>fd. (\<forall>k. conns p c = Some k \<longrightarrow> socket k \<noteq> fd) \<longrightarrow>
        inbox (pnet q) fd = inbox (pnet p) fd \<and> outbox (pnet q) fd = outbox (pnet p) fd)"

lemma same_elsewhere_heap [simp]: "conns q = conns p \<Longrightarrow> pnet q = pnet p \<Longrightarrow> same_elsewhere c p q"
  by (simp add: same_elsewhere_def)

definition thread_moves :: "nat \<Rightarrow> server \<Rightarrow> history \<Rightarrow> server \<Rightarrow> bool" where
  "thread_moves c s ev z \<longleftrightarrow> (\<exists>ph ph'. phases s c = Some ph \<and> phases z = (phases s)(c \<mapsto> ph') \<and>
     heap_moves (pheap (proc s)) (message_of ph) (pheap (proc z)) (message_of ph')) \<and>
     same_elsewhere c (proc s) (proc z) \<and> conn_key (proc z) = conn_key (proc s) \<and> open_socks (pnet (proc z)) = open_socks (pnet (proc s)) \<and>
     close_flag z = close_flag s \<and> (\<forall>e\<in>set ev. fst e = c)"

lemma heap_moves_refl [simp]: "heap_moves h p h p"
  by (simp add: heap_moves_def)

lemma conn_key_close [simp]: "conns p c = Some conn \<Longrightarrow> conn_key (p\<lparr>pnet := w, conns := (conns p)(c \<mapsto> conn\<lparr>is_open := b\<rparr>)\<rparr>) = conn_key p"
  by (auto simp: conn_key_def)

lemma thread_moves_at:
  assumes "phases s c = Some ph" and "heap_moves (pheap (proc s)) (message_of ph) (pheap (proc z)) (message_of ph')"
    and "same_elsewhere c (proc s) (proc z)" and "conn_key (proc z) = conn_key (proc s)"
    and "open_socks (pnet (proc z)) = open_socks (pnet (proc s))"
    and "close_flag z = close_flag s" and "phases z = phases s" and "\<forall>e\<in>set ev. fst e = c"
  shows "thread_moves c s ev (at c ph' z)"
  using assms by (auto simp: thread_moves_def at_def)

lemma thread_moves_quiet:
  assumes "phases s c = Some ph" and "message_of ph' = message_of ph" and "proc z = proc s"
    and "close_flag z = close_flag s" and "phases z = phases s" and "\<forall>e\<in>set ev. fst e = c"
  shows "thread_moves c s ev (at c ph' z)"
  by (rule thread_moves_at [OF assms(1)]) (simp_all add: assms)

lemma thread_step_moves:
  assumes env: "server_env L io K U F" and C: "clients_ok K C (dom (phases s))" and inv: "server_inv K F C l0 H s"
    and st: "thread_step L io K U c s ev z"
  shows "thread_moves c s ev z"
  using st
proof cases
  case (leave b)
  show ?thesis unfolding leave(1,2) by (rule thread_moves_quiet [OF leave(3)]) simp_all
next
  case (receive msg p)
  obtain r p' conn evs where r: "tcp_connection_receive_message L (Ptr c) newline (proc s) = Some (r, p')" "conns (proc s) c = Some conn"
    "case r of Received msg \<Rightarrow> \<exists>a bs. msg = Ptr a \<and> pheap (proc s) a = None \<and>
         p' = (proc s)\<lparr>pnet := took (socket conn) evs (pnet (proc s)), pheap := (pheap (proc s))(a \<mapsto> bs)\<rparr>
     | Not_Received \<Rightarrow> p' = (proc s)\<lparr>pnet := took (socket conn) evs (pnet (proc s)), conns := (conns (proc s))(c \<mapsto> conn\<lparr>is_open := False\<rparr>)\<rparr>
     | Assert_Failed \<Rightarrow> False"
    using receiving_state [OF env C inv receive(3,4)] by blast
  have "r = Received msg" "p' = p" using r(1) receive(6) by (simp_all only: option.inject prod.inject)
  then obtain a bs where "msg = Ptr a" "pheap (proc s) a = None"
      "p = (proc s)\<lparr>pnet := took (socket conn) evs (pnet (proc s)), pheap := (pheap (proc s))(a \<mapsto> bs)\<rparr>"
    using r(3) by auto
  then show ?thesis
    unfolding receive(1,2) using r(2)
    by (intro thread_moves_at [OF receive(3)]) (auto simp: conn_key_def took_def heap_moves_def same_elsewhere_def)
next
  case (receive_nothing p)
  obtain r p' conn evs where r: "tcp_connection_receive_message L (Ptr c) newline (proc s) = Some (r, p')" "conns (proc s) c = Some conn"
    "case r of Received msg \<Rightarrow> \<exists>a bs. msg = Ptr a \<and> pheap (proc s) a = None \<and>
         p' = (proc s)\<lparr>pnet := took (socket conn) evs (pnet (proc s)), pheap := (pheap (proc s))(a \<mapsto> bs)\<rparr>
     | Not_Received \<Rightarrow> p' = (proc s)\<lparr>pnet := took (socket conn) evs (pnet (proc s)), conns := (conns (proc s))(c \<mapsto> conn\<lparr>is_open := False\<rparr>)\<rparr>
     | Assert_Failed \<Rightarrow> False"
    using receiving_state [OF env C inv receive_nothing(3,4)] by blast
  have "r = Not_Received" "p' = p" using r(1) receive_nothing(6) by (simp_all only: option.inject prod.inject)
  then have "p = (proc s)\<lparr>pnet := took (socket conn) evs (pnet (proc s)), conns := (conns (proc s))(c \<mapsto> conn\<lparr>is_open := False\<rparr>)\<rparr>"
    using r(3) by auto
  then show ?thesis
    unfolding receive_nothing(1,2) using r(2)
    by (intro thread_moves_at [OF receive_nothing(3)]) (auto simp: took_def same_elsewhere_def)
next
  case (fopen msg fd d)
  show ?thesis unfolding fopen(1,2) by (rule thread_moves_quiet [OF fopen(3)]) simp_all
next
  case (fopen_fails msg d)
  then show ?thesis using step_fopen [OF inv] by fastforce
next
  case (lock msg filp)
  show ?thesis unfolding lock(1,2) by (rule thread_moves_quiet [OF lock(3)]) simp_all
next
  case (handle msg filp r fd)
  show ?thesis unfolding handle(1,2) by (rule thread_moves_quiet [OF handle(3)]) (simp_all split: if_splits)
next
  case (send msg filp ob b fd p)
  obtain n where p: "p = (proc s)\<lparr>pnet := sent_net (sock C c) (device_rest \<lparr>dfile = filp, dk = dev s\<rparr>) n (pnet (proc s))\<rparr>"
    using sending [OF env inv send(3)] send(4) by auto
  obtain conn where "conns (proc s) c = Some conn" "socket conn = sock C c"
    using server_invD(5) [OF inv send(3)] by (auto simp: thread_ok_def progress_def)
  with p show ?thesis unfolding send(1,2)
    by (intro thread_moves_at [OF send(3)]) (auto simp: conn_key_def fun_eq_iff sent_net_def same_elsewhere_def)
next
  case (unlock msg filp ob)
  show ?thesis unfolding unlock(1,2) by (rule thread_moves_quiet [OF unlock(3)]) simp_all
next
  case (close msg filp ob h d)
  obtain a where "msg = Ptr a" "h = (pheap (proc s))(a := None)"
    using server_invD(5) [OF inv close(3)] close(4) by (auto simp: thread_ok_def cfree_Some)
  then show ?thesis unfolding close(1,2) by (intro thread_moves_at [OF close(3)]) (auto simp: conn_key_def heap_moves_def)
qed

subsection \<open>Ownership\<close>

text \<open>Every element of a set has exactly one owner, and nothing else is owned.\<close>

definition owned_once :: "'a set \<Rightarrow> ('o \<Rightarrow> 'a \<Rightarrow> bool) \<Rightarrow> bool" where
  "owned_once S owns \<longleftrightarrow> (\<forall>a. a \<in> S \<longleftrightarrow> (\<exists>r. owns r a)) \<and> (\<forall>r q a. owns r a \<longrightarrow> owns q a \<longrightarrow> r = q)"

lemma owned_once_add:
  assumes o: "owned_once S owns" and "a \<notin> S" and e: "\<And>q b. owns' q b \<longleftrightarrow> owns q b \<or> q = r \<and> b = a"
  shows "owned_once (insert a S) owns'"
proof -
  have "\<not> owns q a" for q using o assms(2) unfolding owned_once_def by blast
  then show ?thesis using o unfolding owned_once_def e by blast
qed

lemma owned_once_remove:
  assumes o: "owned_once S owns" and "owns r a" and e: "\<And>q b. owns' q b \<longleftrightarrow> owns q b \<and> b \<noteq> a"
  shows "owned_once (S - {a}) owns'"
  using o unfolding owned_once_def e by blast

lemma owned_onceD:
  assumes "owned_once S owns" and "owns r a"
  shows "a \<in> S" and "owns q a \<Longrightarrow> q = r"
  using assms unfolding owned_once_def by blast+

lemma owned_once_cong: "S' = S \<Longrightarrow> owns' = owns \<Longrightarrow> owned_once S owns \<Longrightarrow> owned_once S' owns'"
  by simp

subsection \<open>The invariants\<close>

lemma with_mst_simps [simp]:
  "mst (ms (with_mst x s)) = x" "msrv (ms (with_mst x s)) = msrv (ms s)" "sdev (with_mst x s) = sdev s"
  "sholder (with_mst x s) = sholder s" "sphases (with_mst x s) = sphases s" "who (with_mst x s) = who s"
  "ended (with_mst x s) = ended s" "exit_flag (with_mst x s) = exit_flag s" "main_at (with_mst x s) = main_at s"
  "arrived (with_mst x s) = arrived s" "got (with_mst x s) = got s"
  by (simp_all add: with_mst_def)

lemma with_core_simps [simp]:
  "mst (ms (with_core z s)) = (mst (ms s))\<lparr>mp := proc z\<rparr>" "msrv (ms (with_core z s)) = msrv (ms s)" "sdev (with_core z s) = dev z"
  "sholder (with_core z s) = holder z" "sphases (with_core z s) = phases z" "who (with_core z s) = who s"
  "ended (with_core z s) = ended s" "exit_flag (with_core z s) = exit_flag s" "main_at (with_core z s) = main_at s"
  "arrived (with_core z s) = arrived s" "got (with_core z s) = got s"
  by (simp_all add: with_core_def)

lemma core_simps [simp]:
  "proc (core m s) = process s" "dev (core m s) = sdev s" "holder (core m s) = sholder s" "phases (core m s) = sphases s"
  "close_flag (core m s) = closing_flag m s"
  by (simp_all add: core_def)

text \<open>Heap blocks belong to the manager (its file name), to a connection (the address string) or to a thread (its
  message); sockets to the server handle or to a connection.\<close>

datatype block_owner = File_Name | Address_Of nat | Message_Of nat

fun owns_block :: "nat \<Rightarrow> system \<Rightarrow> block_owner \<Rightarrow> nat \<Rightarrow> bool" where
  "owns_block f s File_Name a \<longleftrightarrow> main_at s \<noteq> Returned \<and> a = f"
| "owns_block f s (Address_Of c) a \<longleftrightarrow> (\<exists>fd. conn_key (process s) c = Some (fd, Ptr a))"
| "owns_block f s (Message_Of c) a \<longleftrightarrow> (\<exists>ph. sphases s c = Some ph \<and> message_of ph = Ptr a)"

datatype sock_owner = Listener | Client_Of nat

fun owns_sock :: "nat \<Rightarrow> system \<Rightarrow> sock_owner \<Rightarrow> cint \<Rightarrow> bool" where
  "owns_sock v s Listener fd \<longleftrightarrow> map_option socketfd (msrv (ms s) v) = Some fd"
| "owns_sock v s (Client_Of c) fd \<longleftrightarrow> (\<exists>q. conn_key (process s) c = Some (fd, q))"

definition resources_ok :: "nat \<Rightarrow> nat \<Rightarrow> system \<Rightarrow> bool" where
  "resources_ok f v s \<longleftrightarrow> owned_once (dom (pheap (process s))) (owns_block f s) \<and>
     owned_once (set (open_socks (pnet (process s)))) (owns_sock v s) \<and>
     distinct (open_socks (pnet (process s))) \<and> - 1 \<notin> set (open_socks (pnet (process s))) \<and>
     (\<forall>c fd q. conn_key (process s) c = Some (fd, q) \<longrightarrow> q \<noteq> NULL)"

definition pending_conn :: "system \<Rightarrow> nat set" where
  "pending_conn s = (case main_at s of Registering c n \<Rightarrow> {c} | _ \<Rightarrow> {})"

abbreviation leaving :: "system \<Rightarrow> bool" where
  "leaving s \<equiv> main_at s \<in> {Closing_Server, Stopping, Joining, Freeing, Returned}"

abbreviation stopped :: "system \<Rightarrow> bool" where
  "stopped s \<equiv> main_at s \<in> {Joining, Freeing, Returned}"

text \<open>The threads, their contexts and the manager's list.\<close>

definition threads_ok :: "nat \<Rightarrow> system \<Rightarrow> bool" where
  "threads_ok m s \<longleftrightarrow> dom (who s) = dom (sphases s) \<and>
     dom (conns (process s)) = dom (sphases s) \<union> pending_conn s \<and> pending_conn s \<inter> dom (sphases s) = {} \<and>
     (\<forall>c t. who s c = Some t \<longrightarrow> self t \<notin> ended s \<and>
        map_option payload (ctxs (mst (ms s)) (arg_ctx t)) = Some \<lparr>manager = Ptr m, connection = Ptr c, thread = self t\<rparr>) \<and>
     (\<forall>c d t u. who s c = Some t \<longrightarrow> who s d = Some u \<longrightarrow> self t = self u \<longrightarrow> c = d) \<and>
     set (started (mst (ms s))) = ended s \<union> self ` ran (who s) \<and>
     distinct (started (mst (ms s))) \<and> set (joined (mst (ms s))) \<subseteq> ended s"

definition manager_ok :: "nat \<Rightarrow> nat \<Rightarrow> nat \<Rightarrow> system \<Rightarrow> bool" where
  "manager_ok m f v s \<longleftrightarrow>
     (if main_at s = Returned
      then managers (mst (ms s)) m = None \<and> ctxs (mst (ms s)) = Map.empty \<and> joined (mst (ms s)) = rev (started (mst (ms s)))
      else map_option filename (managers (mst (ms s)) m) = Some (Ptr f) \<and>
        (\<exists>tids. manager_rep m {} (mst (ms s)) tids \<and> joined (mst (ms s)) @ tids = rev (started (mst (ms s))) \<and>
          (main_at s = Freeing \<longrightarrow> tids = []) \<and> (\<not> stopped s \<longrightarrow> joined (mst (ms s)) = []))) \<and>
     (closing_flag m s \<longleftrightarrow> main_at s \<in> {Joining, Freeing}) \<and>
     (msrv (ms s) v = None \<longleftrightarrow> stopped s \<or> main_at s = Stopping) \<and> (leaving s \<longrightarrow> exit_flag s)"

text \<open>Every client accepted so far is being served, waits to be registered, or has been served.\<close>

definition clients_known :: "system \<Rightarrow> bool" where
  "clients_known s \<longleftrightarrow>
     (\<forall>c t. who s c = Some t \<longrightarrow> client t < arrived s \<and> got s (client t) = None \<and> (\<forall>d. main_at s \<noteq> Registering d (client t))) \<and>
     (\<forall>c d t u. who s c = Some t \<longrightarrow> who s d = Some u \<longrightarrow> client t = client u \<longrightarrow> c = d) \<and>
     (\<forall>n. got s n \<noteq> None \<longrightarrow> n < arrived s) \<and>
     (\<forall>c n. main_at s = Registering c n \<longrightarrow> n < arrived s \<and> got s n = None) \<and>
     (\<forall>n < arrived s. got s n \<noteq> None \<or> (\<exists>c t. who s c = Some t \<and> client t = n) \<or> (\<exists>c. main_at s = Registering c n))"

end
