(* ===== verification/System_Invariant.thy ===== *)
theory System_Invariant
  imports Server_System
begin

text \<open>
  The steps of the whole server keep the ownership of memory, sockets and contexts: what each call of
  \<open>main\<close> and each end of a thread does to the process, and the invariant \<open>system_owns\<close>.
\<close>

subsection \<open>What the calls of \<open>main\<close> do\<close>

lemma accept_outcome:
  assumes L: "libc_ok L" and v: "servers x v = Some srv" and e: "accepts x = [ev]" and d: "deliverable used ev"
    and r: "tcp_server_accept_connection L A (Ptr v) x = Some (p, w)"
  shows "servers w = servers x" and "p = NULL \<Longrightarrow> sp w = sp x"
    and "p = Ptr c \<Longrightarrow> \<exists>fd addr a str. ev = Accepted fd addr \<and> fd \<notin> set used \<and> fd \<noteq> - 1 \<and> conns (sp x) c = None \<and> pheap (sp x) a = None \<and>
      sp w = (sp x)\<lparr>pnet := (pnet (sp x))\<lparr>open_socks := fd # open_socks (pnet (sp x))\<rparr>, pheap := (pheap (sp x))(a \<mapsto> str),
        conns := (conns (sp x))(c \<mapsto> \<lparr>socket = fd, client_address = Ptr a, is_open = True\<rparr>)\<rparr>"
proof -
  have "servers w = servers x \<and> (p = NULL \<longrightarrow> sp w = sp x) \<and>
    (\<forall>c. p = Ptr c \<longrightarrow> (\<exists>fd addr a str. ev = Accepted fd addr \<and> fd \<notin> set used \<and> fd \<noteq> - 1 \<and> conns (sp x) c = None \<and> pheap (sp x) a = None \<and>
      sp w = (sp x)\<lparr>pnet := (pnet (sp x))\<lparr>open_socks := fd # open_socks (pnet (sp x))\<rparr>, pheap := (pheap (sp x))(a \<mapsto> str),
        conns := (conns (sp x))(c \<mapsto> \<lparr>socket = fd, client_address = Ptr a, is_open = True\<rparr>)\<rparr>))"
  proof (cases ev)
    case Accept_Error
    then show ?thesis using v e r by auto
  next
    case (Accepted fd addr)
    have fd: "fd \<notin> set used" "fd \<noteq> - 1" and fam: "2 \<le> length addr" "sa_family (sockaddr_of addr) = 2"
      using d Accepted sockaddr_of_simps(2) [of addr] by (auto simp: ipv4_event_def)
    let ?x1 = "set_net (new_sock fd (pnet (sp x))) (x\<lparr>accepts := []\<rparr>)"
    let ?str = "ntop A (take 4 (drop 4 (sockaddr_of addr)))"
    obtain p1 q where pq: "tcp_connection_create L fd ?str (sp ?x1) = (p1, q)" by fastforce
    have acc: "(p, w) = (if p1 = NULL then (NULL, set_net (close_sock fd (pnet q)) (?x1\<lparr>sp := q\<rparr>)) else (p1, ?x1\<lparr>sp := q\<rparr>))"
      using r v e Accepted pq fam inet_ntop_sockaddr [OF fam(1), of A] by (simp add: Let_def split: if_splits)
    note res = tcp_connection_create_result [OF L pq]
    show ?thesis
    proof (cases p1)
      case NULL
      then have "q = sp ?x1" using res by simp
      then have "sp (set_net (close_sock fd (pnet q)) (?x1\<lparr>sp := q\<rparr>)) = sp x"
        using fd(2) by (simp add: set_net_def new_sock_def close_sock_def)
      then show ?thesis using acc NULL by simp
    next
      case (Ptr c)
      obtain a where a: "malloc_struct L (dom (conns (sp ?x1))) = Ptr c" "cmalloc L (length ?str + 1) (pheap (sp ?x1)) = Ptr a"
          "q = (sp ?x1)\<lparr>pheap := (pheap (sp ?x1))(a \<mapsto> ?str @ [nul]), conns := (conns (sp ?x1))(c \<mapsto> \<lparr>socket = fd, client_address = Ptr a, is_open = True\<rparr>)\<rparr>"
        using pq Ptr by (auto simp: tcp_connection_create_def strdup_def Let_def split: ptr.splits if_splits)
      have "conns (sp x) c = None" "pheap (sp x) a = None"
        using libc_okD(3) [OF L a(1)] libc_okD(1) [OF L a(2)] by (auto simp: set_net_def)
      then show ?thesis using acc Ptr a(3) fd Accepted by (auto simp: set_net_def new_sock_def)
    qed
  qed
  then show "servers w = servers x" and "p = NULL \<Longrightarrow> sp w = sp x"
    and "p = Ptr c \<Longrightarrow> \<exists>fd addr a str. ev = Accepted fd addr \<and> fd \<notin> set used \<and> fd \<noteq> - 1 \<and> conns (sp x) c = None \<and> pheap (sp x) a = None \<and>
      sp w = (sp x)\<lparr>pnet := (pnet (sp x))\<lparr>open_socks := fd # open_socks (pnet (sp x))\<rparr>, pheap := (pheap (sp x))(a \<mapsto> str),
        conns := (conns (sp x))(c \<mapsto> \<lparr>socket = fd, client_address = Ptr a, is_open = True\<rparr>)\<rparr>"
    by auto
qed

lemma register_outcome:
  assumes L: "libc_ok L" and rep: "manager_rep m {} x tids"
    and r: "connection_manager_register_connection L T (Ptr m) conn x = Some (True, y)"
  shows "\<exists>tid a mgr head. pthread_create T (started x) = Some tid \<and> a \<notin> dom (ctxs x) \<and> managers x m = Some mgr \<and>
    managers y = (managers x)(m \<mapsto> mgr\<lparr>connection_ctx_list := head\<rparr>) \<and> SLIST_FIRST head = Ptr a \<and>
    (\<exists>q. ctxs y = (ctxs x)(a \<mapsto> \<lparr>payload = \<lparr>manager = Ptr m, connection = conn, thread = tid\<rparr>, sle_next = q\<rparr>)) \<and>
    started y = started x @ [tid] \<and> joined y = joined x \<and> mp y = mp x \<and> manager_rep m {} y (tid # tids)"
proof -
  obtain a where a: "malloc_struct L (dom (ctxs x)) = Ptr a"
    using r by (auto simp: connection_manager_register_connection_def split: ptr.splits)
  then have na: "a \<notin> dom (ctxs x)" using libc_okD(3) [OF L] by blast
  obtain tid where tid: "pthread_create T (started x) = Some tid"
    using r a by (auto simp: connection_manager_register_connection_def Let_def split: option.splits)
  obtain mgr where mgr: "managers x m = Some mgr" using rep by (auto simp: manager_rep_def)
  let ?e = "\<lparr>payload = \<lparr>manager = Ptr m, connection = conn, thread = tid\<rparr>, sle_next = NULL\<rparr>"
  have ins: "SLIST_INSERT_HEAD (connection_ctx_list mgr) (Ptr a) ((ctxs x)(a \<mapsto> ?e)) =
      Some ((connection_ctx_list mgr)\<lparr>slh_first := Ptr a\<rparr>, (ctxs x)(a \<mapsto> ?e\<lparr>sle_next := SLIST_FIRST (connection_ctx_list mgr)\<rparr>))"
    by (simp add: SLIST_INSERT_HEAD_def)
  have y: "y = x\<lparr>ctxs := (ctxs x)(a \<mapsto> ?e\<lparr>sle_next := SLIST_FIRST (connection_ctx_list mgr)\<rparr>),
      managers := (managers x)(m \<mapsto> mgr\<lparr>connection_ctx_list := (connection_ctx_list mgr)\<lparr>slh_first := Ptr a\<rparr>\<rparr>), started := started x @ [tid]\<rparr>"
    using r a tid mgr ins by (simp add: connection_manager_register_connection_def Let_def)
  obtain y' where "connection_manager_register_connection L T (Ptr m) conn x = Some (True, y')" "manager_rep m {} y' (tid # tids)"
    using register_starts [OF rep a na tid] by blast
  then have "manager_rep m {} y (tid # tids)" using r by simp
  then show ?thesis
    using tid na mgr by (intro exI [of _ tid] exI [of _ a] exI [of _ mgr] exI [of _ "(connection_ctx_list mgr)\<lparr>slh_first := Ptr a\<rparr>"])
      (auto simp: y SLIST_FIRST_def)
qed

lemma join_outcome:
  assumes rep: "manager_rep m {} x tids" and r: "destroy_round T m x = Some y"
  shows "\<exists>tid rest c mgr head. tids = tid # rest \<and> ends T tid \<and> tid_at (ctxs x) c = tid \<and> managers x m = Some mgr \<and>
    managers y = (managers x)(m \<mapsto> mgr\<lparr>connection_ctx_list := head\<rparr>) \<and> c \<in> dom (ctxs x) \<and> ctxs y = (ctxs x)(c := None) \<and>
    started y = started x \<and> joined y = joined x @ [tid] \<and> mp y = mp x \<and> manager_rep m {} y rest"
proof (cases tids)
  case Nil
  then have "destroy_round T m x = None"
    using rep by (auto simp: destroy_round_def manager_rep_def split: bind_splits)
  with r show ?thesis by simp
next
  case (Cons tid rest)
  obtain mgr c e cs where c: "managers x m = Some mgr" "SLIST_FIRST (connection_ctx_list mgr) = Ptr c" "ctxs x c = Some e"
      "thread (payload e) = tid"
    using rep unfolding Cons by (rule manager_rep_ConsE)
  have tid: "ends T tid" using r c by (auto simp: destroy_round_def pthread_join_def split: if_splits)
  obtain y' where "destroy_round T m x = Some y'" "manager_rep m {} y' rest" "joined y' = joined x @ [tid]" "same_manager m x y'"
    using destroy_round_rep [OF rep [unfolded Cons] tid] by blast
  then have y: "manager_rep m {} y rest" "joined y = joined x @ [tid]" "started y = started x" "mp y = mp x"
    using r by (simp_all add: same_manager_def)
  have "\<exists>head. managers y = (managers x)(m \<mapsto> mgr\<lparr>connection_ctx_list := head\<rparr>) \<and> ctxs y = (ctxs x)(c := None)"
    using r c tid by (auto simp: destroy_round_def pthread_join_def split: bind_splits)
  then show ?thesis
    using Cons tid c y by (auto simp: tid_at_def intro!: exI [of _ c])
qed

subsection \<open>Memory and sockets\<close>

lemma resources_same:
  assumes "resources_ok f v s" and "dom (pheap (process s')) = dom (pheap (process s))" and "conn_key (process s') = conn_key (process s)"
    and "open_socks (pnet (process s')) = open_socks (pnet (process s))" and "main_at s' = Returned \<longleftrightarrow> main_at s = Returned"
    and "\<And>c a. (\<exists>ph. sphases s' c = Some ph \<and> message_of ph = Ptr a) \<longleftrightarrow> (\<exists>ph. sphases s c = Some ph \<and> message_of ph = Ptr a)"
    and "map_option socketfd (msrv (ms s') v) = map_option socketfd (msrv (ms s) v)"
  shows "resources_ok f v s'"
proof -
  have "owns_block f s' r a = owns_block f s r a" for r a
    by (cases r) (simp_all add: assms(3,5,6))
  then have b: "owns_block f s' = owns_block f s" by (intro ext)
  have "owns_sock v s' r a = owns_sock v s r a" for r a
    by (cases r) (simp_all add: assms(3,7))
  then have k: "owns_sock v s' = owns_sock v s" by (intro ext)
  show ?thesis using assms(1) by (simp add: resources_ok_def b k assms(2,3,4))
qed

lemma resourcesD:
  assumes "resources_ok f v s"
  shows "owned_once (dom (pheap (process s))) (owns_block f s)" "owned_once (set (open_socks (pnet (process s)))) (owns_sock v s)"
    "distinct (open_socks (pnet (process s)))" "- 1 \<notin> set (open_socks (pnet (process s)))"
    "conn_key (process s) c = Some (fd, q) \<Longrightarrow> q \<noteq> NULL"
  using assms unfolding resources_ok_def by blast+

lemma conn_key_dom: "conn_key p c = None \<longleftrightarrow> conns p c = None"
  by (simp add: conn_key_def)

lemma conn_key_SomeD: "conn_key p c = Some (fd, q) \<Longrightarrow> \<exists>k. conns p c = Some k \<and> socket k = fd \<and> client_address k = q"
  by (auto simp: conn_key_def)

lemma conn_key_Some: "conns p c = Some k \<Longrightarrow> conn_key p c = Some (socket k, client_address k)"
  by (simp add: conn_key_def)

lemma conn_key_upd [simp]:
  "conn_key (p\<lparr>pheap := h\<rparr>) = conn_key p" "conn_key (p\<lparr>pnet := w\<rparr>) = conn_key p"
  "conn_key (p\<lparr>conns := (conns p)(c := x)\<rparr>) = (conn_key p)(c := map_option (\<lambda>k. (socket k, client_address k)) x)"
  by (auto simp: conn_key_def fun_eq_iff)

lemma resources_thread:
  assumes R: "resources_ok f v s" and mv: "thread_moves c (core m s) ev z"
  shows "resources_ok f v (with_core z s)"
proof -
  let ?s = "with_core z s"
  obtain ph ph' where ph: "sphases s c = Some ph" "phases z = (sphases s)(c \<mapsto> ph')"
      and hm: "heap_moves (pheap (process s)) (message_of ph) (pheap (proc z)) (message_of ph')"
    using mv by (auto simp: thread_moves_def)
  have key: "conn_key (proc z) = conn_key (process s)" and os: "open_socks (pnet (proc z)) = open_socks (pnet (process s))"
    using mv by (auto simp: thread_moves_def)
  have k: "owns_sock v ?s = owns_sock v s"
  proof (intro ext)
    fix r fd
    show "owns_sock v ?s r fd = owns_sock v s r fd" by (cases r) (simp_all add: key)
  qed
  have b: "owns_block f ?s q a \<longleftrightarrow> (if q = Message_Of c then message_of ph' = Ptr a else owns_block f s q a)" for q a
    by (cases q) (auto simp: key ph)
  have old: "owns_block f s (Message_Of c) a \<longleftrightarrow> message_of ph = Ptr a" for a by (simp add: ph(1))
  have "owned_once (dom (pheap (proc z))) (owns_block f ?s)"
    using hm unfolding heap_moves_def
  proof (elim disjE exE conjE)
    assume same: "message_of ph' = message_of ph" "dom (pheap (proc z)) = dom (pheap (process s))"
    have "owns_block f ?s = owns_block f s" by (intro ext) (auto simp: b same(1) ph(1))
    then show ?thesis using resourcesD(1) [OF R] same(2) by simp
  next
    fix a
    assume n: "message_of ph = NULL" "message_of ph' = Ptr a" "pheap (process s) a = None"
      "dom (pheap (proc z)) = insert a (dom (pheap (process s)))"
    have "owns_block f ?s q x \<longleftrightarrow> owns_block f s q x \<or> q = Message_Of c \<and> x = a" for q x
      using n(1,2) old [of x] by (auto simp: b)
    then show ?thesis unfolding n(4) by (intro owned_once_add [OF resourcesD(1) [OF R]]) (use n(3) in auto)
  next
    fix a
    assume n: "message_of ph = Ptr a" "message_of ph' = NULL" "dom (pheap (proc z)) = dom (pheap (process s)) - {a}"
    have o: "owns_block f s (Message_Of c) a" using n(1) old by simp
    have "owns_block f ?s q x \<longleftrightarrow> owns_block f s q x \<and> x \<noteq> a" for q x
      using n(1,2) old [of x] owned_onceD(2) [OF resourcesD(1) [OF R] o, of q] by (auto simp: b)
    then show ?thesis unfolding n(3) by (rule owned_once_remove [OF resourcesD(1) [OF R] o])
  qed
  then show ?thesis using R by (simp add: resources_ok_def k key os)
qed

text \<open>The end of a thread releases its connection.\<close>

lemma resources_finish:
  assumes R: "resources_ok f v s" and c: "sphases s c = Some Finished" and conn: "conns (process s) c = Some conn"
    and d: "tcp_connection_destroy (Ptr c) (process s) = Some p"
    and s': "process s' = p" "sphases s' = (sphases s)(c := None)" "main_at s' = main_at s" "msrv (ms s') = msrv (ms s)"
  shows "resources_ok f v s'"
proof -
  have key: "conn_key (process s) c = Some (socket conn, client_address conn)" using conn by (rule conn_key_Some)
  obtain a where a: "client_address conn = Ptr a" using resourcesD(5) [OF R key] by (cases "client_address conn") auto
  have oa: "owns_block f s (Address_Of c) a" using key a by simp
  have os: "owns_sock v s (Client_Of c) (socket conn)" using key by simp
  have p: "p = (process s)\<lparr>pnet := close_sock (socket conn) (pnet (process s)), pheap := (pheap (process s))(a := None),
      conns := (conns (process s))(c := None)\<rparr>"
    using d conn a by (auto simp: Let_def split: option.splits bind_splits)
  have k': "conn_key p = (conn_key (process s))(c := None)"
    by (simp add: p conn_key_def fun_eq_iff)
  have b: "owns_block f s' q x \<longleftrightarrow> owns_block f s q x \<and> x \<noteq> a" for q x
  proof (cases "q = Address_Of c")
    case True
    then show ?thesis using key a by (auto simp: s' k')
  next
    case False
    have "x \<noteq> a" if "owns_block f s q x" using owned_onceD(2) [OF resourcesD(1) [OF R] oa, of q] that False by auto
    moreover have "owns_block f s' q x \<longleftrightarrow> owns_block f s q x" using False c by (cases q) (auto simp: s' k')
    ultimately show ?thesis by blast
  qed
  have n: "owns_sock v s' q x \<longleftrightarrow> owns_sock v s q x \<and> x \<noteq> socket conn" for q x
  proof (cases "q = Client_Of c")
    case True
    then show ?thesis using key by (auto simp: s' k')
  next
    case False
    have "x \<noteq> socket conn" if "owns_sock v s q x" using owned_onceD(2) [OF resourcesD(2) [OF R] os, of q] that False by auto
    moreover have "owns_sock v s' q x \<longleftrightarrow> owns_sock v s q x" using False by (cases q) (auto simp: s' k')
    ultimately show ?thesis by blast
  qed
  have "dom (pheap p) = dom (pheap (process s)) - {a}" "open_socks (pnet p) = remove1 (socket conn) (open_socks (pnet (process s)))"
    by (auto simp: p close_sock_def)
  moreover have "owned_once (dom (pheap (process s)) - {a}) (owns_block f s')"
    by (rule owned_once_remove [OF resourcesD(1) [OF R] oa b])
  moreover have "owned_once (set (open_socks (pnet (process s))) - {socket conn}) (owns_sock v s')"
    by (rule owned_once_remove [OF resourcesD(2) [OF R] os n])
  ultimately show ?thesis
    using R k' by (auto simp: resources_ok_def s' set_remove1_eq dest: notin_set_remove1)
qed

lemma new_stream_socks [simp]: "open_socks (new_stream ev evs w) = open_socks w" "send_plan (new_stream ev evs w) = send_plan w"
  by (cases ev; simp)+

lemma offer_simps [simp]:
  "mp (mst (offer ev evs x)) = (mp (mst x))\<lparr>pnet := new_stream ev evs (pnet (mp (mst x)))\<rparr>" "msrv (offer ev evs x) = msrv x"
  "ctxs (mst (offer ev evs x)) = ctxs (mst x)" "managers (mst (offer ev evs x)) = managers (mst x)"
  "started (mst (offer ev evs x)) = started (mst x)" "joined (mst (offer ev evs x)) = joined (mst x)" "maccepts (offer ev evs x) = [ev]"
  by (simp_all add: offer_def)

lemma resources_accepted:
  assumes R: "resources_ok f v s" and main: "main_at s = Accepting" and fd: "fd \<notin> set (open_socks (pnet (process s)))" "fd \<noteq> - 1"
    and new: "conns (process s) c = None" "pheap (process s) a = None"
    and s': "process s' = (process s)\<lparr>pnet := w\<lparr>open_socks := fd # open_socks (pnet (process s))\<rparr>, pheap := (pheap (process s))(a \<mapsto> str),
        conns := (conns (process s))(c \<mapsto> \<lparr>socket = fd, client_address = Ptr a, is_open = True\<rparr>)\<rparr>"
      "sphases s' = sphases s" "main_at s' \<noteq> Returned" "msrv (ms s') = msrv (ms s)"
  shows "resources_ok f v s'"
proof -
  have k: "conn_key (process s) c = None" using new(1) by (simp add: conn_key_dom)
  have k': "conn_key (process s') = (conn_key (process s))(c \<mapsto> (fd, Ptr a))"
    by (simp add: s'(1) conn_key_def fun_eq_iff)
  have b: "owns_block f s' q x \<longleftrightarrow> owns_block f s q x \<or> q = Address_Of c \<and> x = a" for q x
    using k main s'(2,3) by (cases q) (auto simp: k')
  have n: "owns_sock v s' q x \<longleftrightarrow> owns_sock v s q x \<or> q = Client_Of c \<and> x = fd" for q x
    using k s'(4) by (cases q) (auto simp: k')
  have "owned_once (insert a (dom (pheap (process s)))) (owns_block f s')"
    by (rule owned_once_add [OF resourcesD(1) [OF R] _ b]) (use new(2) in auto)
  moreover have "owned_once (insert fd (set (open_socks (pnet (process s))))) (owns_sock v s')"
    by (rule owned_once_add [OF resourcesD(2) [OF R] fd(1) n])
  ultimately show ?thesis
    using R k' fd by (auto simp: resources_ok_def s'(1))
qed

lemma resources_close_server:
  assumes R: "resources_ok f v s" and srv: "msrv (ms s) v = Some srv"
    and s': "process s' = (process s)\<lparr>pnet := close_sock (socketfd srv) (pnet (process s))\<rparr>" "sphases s' = sphases s"
      "main_at s' = Returned \<longleftrightarrow> main_at s = Returned" "msrv (ms s') v = None"
  shows "resources_ok f v s'"
proof -
  have o: "owns_sock v s Listener (socketfd srv)" using srv by simp
  have n: "owns_sock v s' q x \<longleftrightarrow> owns_sock v s q x \<and> x \<noteq> socketfd srv" for q x
    using owned_onceD(2) [OF resourcesD(2) [OF R] o, of q] srv s' by (cases q) auto
  have "owned_once (set (open_socks (pnet (process s))) - {socketfd srv}) (owns_sock v s')"
    by (rule owned_once_remove [OF resourcesD(2) [OF R] o n])
  moreover have "owns_block f s' q x = owns_block f s q x" for q x
    using s' by (cases q) simp_all
  then have "owns_block f s' = owns_block f s" by (intro ext)
  ultimately show ?thesis
    using R by (auto simp: resources_ok_def s'(1) close_sock_def set_remove1_eq dest: notin_set_remove1)
qed

lemma resources_freed:
  assumes R: "resources_ok f v s" and main: "main_at s = Freeing"
    and s': "process s' = (process s)\<lparr>pheap := (pheap (process s))(f := None)\<rparr>" "sphases s' = sphases s"
      "main_at s' = Returned" "msrv (ms s') = msrv (ms s)"
  shows "resources_ok f v s'"
proof -
  have o: "owns_block f s File_Name f" using main by simp
  have b: "owns_block f s' q x \<longleftrightarrow> owns_block f s q x \<and> x \<noteq> f" for q x
    using owned_onceD(2) [OF resourcesD(1) [OF R] o, of q] s' main by (cases q) auto
  have "owned_once (dom (pheap (process s)) - {f}) (owns_block f s')"
    by (rule owned_once_remove [OF resourcesD(1) [OF R] o b])
  moreover have "dom (pheap (process s')) = dom (pheap (process s)) - {f}" by (auto simp: s'(1))
  moreover have "owns_sock v s' q x = owns_sock v s q x" for q x
    using s' by (cases q) simp_all
  then have "owns_sock v s' = owns_sock v s" by (intro ext)
  ultimately show ?thesis using R by (simp add: resources_ok_def s'(1))
qed

end
