(* ===== verification/System_Threads.thy ===== *)
theory System_Threads
  imports System_Invariant
begin

text \<open>
  The steps of the whole server keep track of its threads: each has a context of its own on the
  manager's list, an identifier of its own and a connection of its own, and the manager, the server
  handle and the signal agree with where \<open>main\<close> is.
\<close>

subsection \<open>Threads and contexts\<close>

lemma threads_okD:
  assumes "threads_ok m s"
  shows "dom (who s) = dom (sphases s)" "dom (conns (process s)) = dom (sphases s) \<union> pending_conn s" "pending_conn s \<inter> dom (sphases s) = {}"
    "who s c = Some t \<Longrightarrow> self t \<notin> ended s"
    "who s c = Some t \<Longrightarrow> map_option payload (ctxs (mst (ms s)) (arg_ctx t)) = Some \<lparr>manager = Ptr m, connection = Ptr c, thread = self t\<rparr>"
    "who s c = Some t \<Longrightarrow> who s d = Some u \<Longrightarrow> self t = self u \<Longrightarrow> c = d"
    "set (started (mst (ms s))) = ended s \<union> self ` ran (who s)"
    "distinct (started (mst (ms s)))" "set (joined (mst (ms s))) \<subseteq> ended s"
proof -
  have T: "dom (who s) = dom (sphases s) \<and> dom (conns (process s)) = dom (sphases s) \<union> pending_conn s \<and>
      pending_conn s \<inter> dom (sphases s) = {} \<and> set (started (mst (ms s))) = ended s \<union> self ` ran (who s) \<and>
      distinct (started (mst (ms s))) \<and> set (joined (mst (ms s))) \<subseteq> ended s"
    using assms unfolding threads_ok_def by (elim conjE) (intro conjI; assumption)
  then show "dom (who s) = dom (sphases s)" "dom (conns (process s)) = dom (sphases s) \<union> pending_conn s" "pending_conn s \<inter> dom (sphases s) = {}"
    "set (started (mst (ms s))) = ended s \<union> self ` ran (who s)" "distinct (started (mst (ms s)))" "set (joined (mst (ms s))) \<subseteq> ended s"
    by simp_all
  have all: "\<forall>c t. who s c = Some t \<longrightarrow> self t \<notin> ended s \<and>
      map_option payload (ctxs (mst (ms s)) (arg_ctx t)) = Some \<lparr>manager = Ptr m, connection = Ptr c, thread = self t\<rparr>"
    "\<forall>c d t u. who s c = Some t \<longrightarrow> who s d = Some u \<longrightarrow> self t = self u \<longrightarrow> c = d"
    using assms unfolding threads_ok_def by blast+
  show "who s c = Some t \<Longrightarrow> self t \<notin> ended s"
    "who s c = Some t \<Longrightarrow> map_option payload (ctxs (mst (ms s)) (arg_ctx t)) = Some \<lparr>manager = Ptr m, connection = Ptr c, thread = self t\<rparr>"
    using all(1) by blast+
  show "who s c = Some t \<Longrightarrow> who s d = Some u \<Longrightarrow> self t = self u \<Longrightarrow> c = d"
    by (rule all(2) [rule_format])
qed

lemma threads_same:
  assumes "threads_ok m s" and "who s' = who s" and "dom (sphases s') = dom (sphases s)" and "ended s' = ended s"
    and "dom (conns (process s')) = dom (sphases s') \<union> pending_conn s'" and "pending_conn s' \<inter> dom (sphases s') = {}"
    and "ctxs (mst (ms s')) = ctxs (mst (ms s))" and "started (mst (ms s')) = started (mst (ms s))" and "joined (mst (ms s')) = joined (mst (ms s))"
  shows "threads_ok m s'"
proof -
  note D = threads_okD [OF assms(1)]
  have "dom (who s) = dom (sphases s')" using assms(3) D(1) by simp
  then show ?thesis
    using assms(1,5,6) unfolding threads_ok_def assms(2,4,7,8,9) by (elim conjE) (intro conjI; assumption)
qed

lemma threads_dom:
  assumes "threads_ok m s"
  shows "who s c = Some t \<Longrightarrow> \<exists>ph. sphases s c = Some ph" "sphases s c = Some ph \<Longrightarrow> \<exists>t. who s c = Some t"
proof -
  have d: "c \<in> dom (who s) \<longleftrightarrow> c \<in> dom (sphases s)" by (simp add: threads_okD(1) [OF assms])
  show "who s c = Some t \<Longrightarrow> \<exists>ph. sphases s c = Some ph" "sphases s c = Some ph \<Longrightarrow> \<exists>t. who s c = Some t"
    using d by blast+
qed

text \<open>The context of a thread belongs to it alone.\<close>

lemma arg_ctx_inj:
  assumes "threads_ok m s" and "who s c = Some t" and "who s d = Some u" and "arg_ctx t = arg_ctx u"
  shows "c = d"
proof -
  have "Some \<lparr>manager = Ptr m, connection = Ptr c, thread = self t\<rparr> = Some \<lparr>manager = Ptr m, connection = Ptr d, thread = self u\<rparr>"
    using threads_okD(5) [OF assms(1,2)] threads_okD(5) [OF assms(1,3)] assms(4) by simp
  then show ?thesis by simp
qed

lemma threads_finite:
  assumes "threads_ok m s"
  shows "finite (dom (who s))"
proof -
  have "self ` ran (who s) \<subseteq> set (started (mst (ms s)))" using threads_okD(7) [OF assms] by blast
  then have "finite (self ` ran (who s))" by (rule finite_subset) simp
  moreover have "(\<lambda>c. self (the (who s c))) ` dom (who s) \<subseteq> self ` ran (who s)" by (auto intro!: imageI ranI)
  ultimately have "finite ((\<lambda>c. self (the (who s c))) ` dom (who s))" by (rule finite_subset [rotated])
  moreover have "inj_on (\<lambda>c. self (the (who s c))) (dom (who s))"
  proof (rule inj_onI)
    fix c d
    assume cd: "c \<in> dom (who s)" "d \<in> dom (who s)" "self (the (who s c)) = self (the (who s d))"
    then obtain t u where "who s c = Some t" "who s d = Some u" by blast
    with cd(3) show "c = d" using threads_okD(6) [OF assms] by simp
  qed
  ultimately show ?thesis by (rule finite_imageD)
qed

lemma threads_thread:
  assumes T: "threads_ok m s" and mv: "thread_moves c (core m s) ev z"
  shows "threads_ok m (with_core z s)"
proof -
  obtain ph ph' where ph: "sphases s c = Some ph" "phases z = (sphases s)(c \<mapsto> ph')" using mv by (auto simp: thread_moves_def)
  have d: "dom (phases z) = dom (sphases s)" using ph by auto
  have "conn_key (proc z) = conn_key (process s)" using mv by (auto simp: thread_moves_def)
  then have "conns (proc z) b = None \<longleftrightarrow> conns (process s) b = None" for b
    using conn_key_dom [of "proc z" b] conn_key_dom [of "process s" b] by simp
  then have "dom (conns (proc z)) = dom (conns (process s))" by (auto simp: dom_def)
  moreover have "pending_conn (with_core z s) = pending_conn s" by (simp add: pending_conn_def)
  ultimately show ?thesis
    by (intro threads_same [OF T]) (simp_all add: d threads_okD [OF T])
qed

lemma threads_finish:
  assumes T: "threads_ok m s" and c: "who s c = Some t" "ctxs (mst (ms s)) (arg_ctx t) = Some e"
    and s': "who s' = (who s)(c := None)" "sphases s' = (sphases s)(c := None)" "ended s' = insert (self t) (ended s)"
      "conns (process s') = (conns (process s))(c := None)" "main_at s' = main_at s"
      "ctxs (mst (ms s')) = (ctxs (mst (ms s)))(arg_ctx t \<mapsto> e')"
      "started (mst (ms s')) = started (mst (ms s))" "joined (mst (ms s')) = joined (mst (ms s))"
  shows "threads_ok m s'"
proof -
  note D = threads_okD [OF T]
  have p: "pending_conn s' = pending_conn s" by (simp add: pending_conn_def s'(5))
  obtain ph where ph: "sphases s c = Some ph" using threads_dom(1) [OF T c(1)] by blast
  then have np: "c \<notin> pending_conn s" using D(3) by auto
  have other: "who s d = Some u \<and> d \<noteq> c" if "who s' d = Some u" for d u
    using that by (auto simp: s'(1) split: if_splits)
  have live: "self ` ran (who s') = self ` ran (who s) - {self t}"
  proof (intro set_eqI iffI)
    fix x
    assume "x \<in> self ` ran (who s')"
    then obtain d u where "who s' d = Some u" "x = self u" by (auto simp: ran_def)
    then show "x \<in> self ` ran (who s) - {self t}"
      using other [of d u] D(6) [OF c(1), of d u] by (auto intro: ranI)
  next
    fix x
    assume "x \<in> self ` ran (who s) - {self t}"
    then obtain d u where u: "who s d = Some u" "x = self u" "x \<noteq> self t" by (auto simp: ran_def)
    then have "who s' d = Some u" using c(1) by (auto simp: s'(1))
    with u(2) show "x \<in> self ` ran (who s')" by (auto intro: ranI)
  qed
  show ?thesis
    unfolding threads_ok_def
  proof (intro conjI allI impI)
    show "dom (who s') = dom (sphases s')" by (simp add: s'(1,2) D(1))
    show "dom (conns (process s')) = dom (sphases s') \<union> pending_conn s'" using np by (auto simp: s'(2,4) D(2) p)
    show "pending_conn s' \<inter> dom (sphases s') = {}" using D(3) by (auto simp: s'(2) p)
    show "self u \<notin> ended s'" if "who s' d = Some u" for d u
      using other [OF that] D(4) [of d u] D(6) [OF c(1), of d u] by (auto simp: s'(3))
    show "map_option payload (ctxs (mst (ms s')) (arg_ctx u)) = Some \<lparr>manager = Ptr m, connection = Ptr d, thread = self u\<rparr>"
      if "who s' d = Some u" for d u
      using other [OF that] D(5) [of d u] arg_ctx_inj [OF T c(1), of d u] by (auto simp: s'(6))
    show "d = b" if "who s' d = Some u" "who s' b = Some w" "self u = self w" for d b u w
      using other [OF that(1)] other [OF that(2)] D(6) [of d u b w] that(3) by blast
    show "set (started (mst (ms s'))) = ended s' \<union> self ` ran (who s')"
      using ranI [of "who s", OF c(1)] unfolding live s'(3,7) D(7) by blast
    show "distinct (started (mst (ms s')))" by (simp add: s'(7) D(8))
    show "set (joined (mst (ms s'))) \<subseteq> ended s'" using D(9) by (auto simp: s'(3,8))
  qed
qed

lemma threads_accepted:
  assumes T: "threads_ok m s" and main: "main_at s = Accepting" "main_at s' = Registering c n" and new: "conns (process s) c = None"
    and s': "who s' = who s" "sphases s' = sphases s" "ended s' = ended s" "conns (process s') = (conns (process s))(c \<mapsto> k)"
      "ctxs (mst (ms s')) = ctxs (mst (ms s))" "started (mst (ms s')) = started (mst (ms s))" "joined (mst (ms s')) = joined (mst (ms s))"
  shows "threads_ok m s'"
proof -
  note D = threads_okD [OF T]
  have p: "pending_conn s = {}" "pending_conn s' = {c}" by (simp_all add: pending_conn_def main)
  have "c \<notin> dom (sphases s)" using D(2) new by (auto simp: p(1))
  then show ?thesis
    by (intro threads_same [OF T]) (use D(2) in \<open>simp_all add: s' p\<close>)
qed

lemma threads_registered:
  assumes T: "threads_ok m s" and main: "main_at s = Registering c n" "main_at s' = Loop_Check" and tid: "tid \<notin> set (started (mst (ms s)))"
    and a: "a \<notin> dom (ctxs (mst (ms s)))"
    and s': "who s' = (who s)(c \<mapsto> \<lparr>arg_ctx = a, self = tid, client = n\<rparr>)" "sphases s' = (sphases s)(c \<mapsto> ph)" "ended s' = ended s"
      "conns (process s') = conns (process s)"
      "ctxs (mst (ms s')) = (ctxs (mst (ms s)))(a \<mapsto> \<lparr>payload = \<lparr>manager = Ptr m, connection = Ptr c, thread = tid\<rparr>, sle_next = q\<rparr>)"
      "started (mst (ms s')) = started (mst (ms s)) @ [tid]" "joined (mst (ms s')) = joined (mst (ms s))"
  shows "threads_ok m s'"
proof -
  note D = threads_okD [OF T]
  have p: "pending_conn s = {c}" "pending_conn s' = {}" by (simp_all add: pending_conn_def main)
  have nc: "c \<notin> dom (sphases s)" using D(3) by (simp add: p)
  then have nw: "who s c = None" using D(1) by blast
  have nt: "tid \<notin> ended s" "\<And>d u. who s d = Some u \<Longrightarrow> self u \<noteq> tid" using tid unfolding D(7) by (auto intro: ranI)
  have w: "who s' d = Some u \<longleftrightarrow> (if d = c then u = \<lparr>arg_ctx = a, self = tid, client = n\<rparr> else who s d = Some u)" for d u
    by (auto simp: s'(1))
  have na: "arg_ctx u \<noteq> a" if "who s d = Some u" for d u
    using D(5) [OF that] a by (auto simp: domIff)
  have live: "self ` ran (who s') = insert tid (self ` ran (who s))"
    using nw by (simp add: s'(1))
  show ?thesis
    unfolding threads_ok_def
  proof (intro conjI allI impI)
    show "dom (who s') = dom (sphases s')" by (simp add: s'(1,2) D(1))
    show "dom (conns (process s')) = dom (sphases s') \<union> pending_conn s'" by (auto simp: s'(2,4) D(2) p)
    show "pending_conn s' \<inter> dom (sphases s') = {}" by (simp add: p)
    show "self u \<notin> ended s'" if "who s' d = Some u" for d u
      using that nt(1) D(4) [of d u] unfolding w s'(3) by (auto split: if_splits)
    show "map_option payload (ctxs (mst (ms s')) (arg_ctx u)) = Some \<lparr>manager = Ptr m, connection = Ptr d, thread = self u\<rparr>"
      if "who s' d = Some u" for d u
      using that D(5) [of d u] na [of d u] unfolding w s'(5) by (auto split: if_splits)
    show "d = b" if "who s' d = Some u" "who s' b = Some x" "self u = self x" for d b u x
      using that D(6) [of d u b x] nt(2) [of d u] nt(2) [of b x] unfolding w by (auto split: if_splits)
    show "set (started (mst (ms s'))) = ended s' \<union> self ` ran (who s')"
      unfolding live s'(3,6) by (auto simp: D(7))
    show "distinct (started (mst (ms s')))" using tid by (simp add: s'(6) D(8))
    show "set (joined (mst (ms s'))) \<subseteq> ended s'" using D(9) by (simp add: s'(3,7))
  qed
qed

lemma threads_joined:
  assumes T: "threads_ok m s" and c: "tid_at (ctxs (mst (ms s))) a = tid" "a \<in> dom (ctxs (mst (ms s)))" "tid \<in> ended s"
    and s': "who s' = who s" "sphases s' = sphases s" "ended s' = ended s" "conns (process s') = conns (process s)" "main_at s' = main_at s"
      "ctxs (mst (ms s')) = (ctxs (mst (ms s)))(a := None)" "started (mst (ms s')) = started (mst (ms s))"
      "joined (mst (ms s')) = joined (mst (ms s)) @ [tid]"
  shows "threads_ok m s'"
proof -
  note D = threads_okD [OF T]
  have na: "arg_ctx u \<noteq> a" if "who s d = Some u" for d u
    using D(5) [OF that] D(4) [OF that] c by (auto simp: tid_at_def)
  have p: "pending_conn s' = pending_conn s" by (simp add: pending_conn_def s'(5))
  show ?thesis
    using T na c(3) unfolding threads_ok_def p s' by (auto simp del: map_option_eq_Some)
qed

subsection \<open>The manager\<close>

lemma closing_flag_Some: "managers (mst (ms s)) m = Some mgr \<Longrightarrow> closing_flag m s = close_connections mgr"
  by (simp add: closing_flag_def)

text \<open>The manager as long as it exists, with the threads on its list.\<close>

definition manager_with :: "nat \<Rightarrow> nat \<Rightarrow> nat \<Rightarrow> system \<Rightarrow> connection_manager \<Rightarrow> nat list \<Rightarrow> bool" where
  "manager_with m f v s mgr tids \<longleftrightarrow> managers (mst (ms s)) m = Some mgr \<and> filename mgr = Ptr f \<and> manager_rep m {} (mst (ms s)) tids \<and>
     joined (mst (ms s)) @ tids = rev (started (mst (ms s))) \<and> (main_at s = Freeing \<longrightarrow> tids = []) \<and> (\<not> stopped s \<longrightarrow> joined (mst (ms s)) = []) \<and>
     (close_connections mgr \<longleftrightarrow> main_at s \<in> {Joining, Freeing}) \<and> (msrv (ms s) v = None \<longleftrightarrow> stopped s \<or> main_at s = Stopping) \<and>
     (leaving s \<longrightarrow> exit_flag s)"

lemma manager_withD:
  assumes "manager_with m f v s mgr tids"
  shows "managers (mst (ms s)) m = Some mgr" "filename mgr = Ptr f" "manager_rep m {} (mst (ms s)) tids"
    "joined (mst (ms s)) @ tids = rev (started (mst (ms s)))" "main_at s = Freeing \<longrightarrow> tids = []" "\<not> stopped s \<longrightarrow> joined (mst (ms s)) = []"
    "close_connections mgr \<longleftrightarrow> main_at s \<in> {Joining, Freeing}" "msrv (ms s) v = None \<longleftrightarrow> stopped s \<or> main_at s = Stopping"
    "leaving s \<longrightarrow> exit_flag s"
  using assms unfolding manager_with_def by blast+

lemma manager_okI:
  assumes "main_at s \<noteq> Returned" and "managers (mst (ms s)) m = Some mgr" and "filename mgr = Ptr f" and "manager_rep m {} (mst (ms s)) tids"
    and "joined (mst (ms s)) @ tids = rev (started (mst (ms s)))" and "main_at s = Freeing \<Longrightarrow> tids = []" and "\<not> stopped s \<Longrightarrow> joined (mst (ms s)) = []"
    and "close_connections mgr \<longleftrightarrow> main_at s \<in> {Joining, Freeing}" and "msrv (ms s) v = None \<longleftrightarrow> stopped s \<or> main_at s = Stopping"
    and "leaving s \<Longrightarrow> exit_flag s"
  shows "manager_ok m f v s"
  unfolding manager_ok_def closing_flag_Some [of s, OF assms(2)] using assms by auto

lemma manager_okE:
  assumes "manager_ok m f v s" and "main_at s \<noteq> Returned"
  obtains mgr tids where "manager_with m f v s mgr tids"
proof -
  obtain mgr tids where "managers (mst (ms s)) m = Some mgr" "filename mgr = Ptr f" "manager_rep m {} (mst (ms s)) tids"
      "joined (mst (ms s)) @ tids = rev (started (mst (ms s)))" "main_at s = Freeing \<longrightarrow> tids = []" "\<not> stopped s \<longrightarrow> joined (mst (ms s)) = []"
    using assms unfolding manager_ok_def by auto
  then have "manager_with m f v s mgr tids"
    using assms closing_flag_Some [of s m mgr] by (auto simp: manager_with_def manager_ok_def)
  then show thesis by (rule that)
qed

lemma leaving_flag: "manager_ok m f v s \<Longrightarrow> leaving s \<Longrightarrow> exit_flag s"
  by (simp only: manager_ok_def)

text \<open>Steps that leave the manager and the server handle alone.\<close>

abbreviation early :: "main_phase \<Rightarrow> bool" where
  "early ph \<equiv> ph \<notin> {Stopping, Joining, Freeing, Returned}"

lemma manager_same:
  assumes M: "manager_ok m f v s" and same: "managers (mst (ms s')) = managers (mst (ms s))" "ctxs (mst (ms s')) = ctxs (mst (ms s))"
      "started (mst (ms s')) = started (mst (ms s))" "joined (mst (ms s')) = joined (mst (ms s))" "msrv (ms s') v = None \<longleftrightarrow> msrv (ms s) v = None"
    and main: "main_at s' = main_at s \<or> early (main_at s) \<and> early (main_at s')" and "leaving s' \<Longrightarrow> exit_flag s'"
  shows "manager_ok m f v s'"
proof (cases "main_at s = Returned")
  case True
  then have "main_at s' = Returned" using main by simp
  then show ?thesis using M True assms(8) unfolding manager_ok_def closing_flag_def same by simp
next
  case False
  obtain mgr tids where MW: "manager_with m f v s mgr tids"
    by (rule manager_okE [OF M False])
  note r = manager_withD [OF MW] and rep = manager_rep_cong [of "mst (ms s')" "mst (ms s)", OF same(2,1)]
  show ?thesis
  proof (cases "main_at s' = main_at s")
    case True
    show ?thesis
      using r False assms(8) by (intro manager_okI [of s' m mgr f tids v]) (simp_all add: same rep True)
  next
    case False
    then have e: "main_at s \<notin> {Stopping, Joining, Freeing, Returned}" "main_at s' \<notin> {Stopping, Joining, Freeing, Returned}" using main by simp_all
    then show ?thesis
      using r assms(8) by (intro manager_okI [of s' m mgr f tids v]) (simp_all add: same rep)
  qed
qed

lemma manager_finish:
  assumes M: "manager_ok m f v s" and e: "ctxs (mst (ms s)) a = Some e" "thread (payload e') = thread (payload e)" "sle_next e' = sle_next e"
    and same: "managers (mst (ms s')) = managers (mst (ms s))" "ctxs (mst (ms s')) = (ctxs (mst (ms s)))(a \<mapsto> e')"
      "started (mst (ms s')) = started (mst (ms s))" "joined (mst (ms s')) = joined (mst (ms s))" "msrv (ms s') = msrv (ms s)"
      "main_at s' = main_at s" "exit_flag s' = exit_flag s"
  shows "manager_ok m f v s'"
proof -
  have "main_at s \<noteq> Returned" using M e(1) by (auto simp: manager_ok_def)
  obtain mgr tids where MW: "manager_with m f v s mgr tids"
    by (rule manager_okE [OF M \<open>main_at s \<noteq> Returned\<close>])
  note r = manager_withD [OF MW]
  have "manager_rep m {} (mst (ms s')) tids"
    by (rule manager_rep_ctx [OF r(3) e same(2,1)])
  then show ?thesis
    using r \<open>main_at s \<noteq> Returned\<close>
    by (intro manager_okI [of s' m mgr f tids v]) (auto simp: same)
qed

subsection \<open>Clients\<close>

lemma clients_knownD:
  assumes "clients_known s"
  shows "who s c = Some t \<Longrightarrow> client t < arrived s" "who s c = Some t \<Longrightarrow> got s (client t) = None"
    "who s c = Some t \<Longrightarrow> main_at s \<noteq> Registering d (client t)"
    "who s c = Some t \<Longrightarrow> who s d = Some u \<Longrightarrow> client t = client u \<Longrightarrow> c = d"
    "got s n = Some b \<Longrightarrow> n < arrived s" "main_at s = Registering c n \<Longrightarrow> n < arrived s" "main_at s = Registering c n \<Longrightarrow> got s n = None"
    "n < arrived s \<Longrightarrow> got s n \<noteq> None \<or> (\<exists>c t. who s c = Some t \<and> client t = n) \<or> (\<exists>c. main_at s = Registering c n)"
  using assms unfolding clients_known_def by auto

lemma clients_same:
  assumes "clients_known s" and "who s' = who s" and "arrived s' = arrived s" and "got s' = got s"
    and "\<And>c n. main_at s' = Registering c n \<longleftrightarrow> main_at s = Registering c n"
  shows "clients_known s'"
  using assms(1) unfolding clients_known_def assms(2-4) assms(5) .

lemma clients_finish:
  assumes C: "clients_known s" and c: "who s c = Some t"
    and s': "who s' = (who s)(c := None)" "arrived s' = arrived s" "got s' = (got s)(client t \<mapsto> b)" "main_at s' = main_at s"
  shows "clients_known s'"
proof -
  note D = clients_knownD [OF C]
  have w: "who s' d = Some u \<longleftrightarrow> d \<noteq> c \<and> who s d = Some u" for d u by (simp add: s'(1))
  have other: "client u \<noteq> client t" if "d \<noteq> c" "who s d = Some u" for d u
    using D(4) [OF c that(2)] that(1) by auto
  have "got s' n \<noteq> None \<or> (\<exists>d u. who s' d = Some u \<and> client u = n) \<or> (\<exists>d. main_at s' = Registering d n)" if n: "n < arrived s'" for n
  proof (cases "n = client t")
    case False
    consider "got s n \<noteq> None" | d u where "who s d = Some u" "client u = n" | d where "main_at s = Registering d n"
      using D(8) [OF n [unfolded s'(2)]] by blast
    then show ?thesis
    proof cases
      case (2 d u)
      then have "who s' d = Some u" using False c by (auto simp: w)
      then show ?thesis using 2(2) by blast
    qed (use False in \<open>simp_all add: s'(3,4)\<close>)
  qed (simp add: s'(3))
  moreover have "client u < arrived s \<and> (d \<noteq> c \<longrightarrow> got s' (client u) = None) \<and> (\<forall>b. main_at s' \<noteq> Registering b (client u))" if "who s d = Some u" for d u
    using D(1-3) [OF that] other [of d u] that by (simp add: s'(3,4))
  moreover have "\<forall>d n. main_at s = Registering d n \<longrightarrow> n < arrived s \<and> got s' n = None"
    using D(6,7) D(3) [OF c] by (auto simp: s'(3))
  moreover have "\<forall>n. got s' n \<noteq> None \<longrightarrow> n < arrived s"
    using D(5) D(1) [OF c] by (auto simp: s'(3))
  moreover have "\<forall>d b t u. who s' d = Some t \<longrightarrow> who s' b = Some u \<longrightarrow> client t = client u \<longrightarrow> d = b"
    using D(4) unfolding w by blast
  ultimately show ?thesis
    unfolding clients_known_def by (auto simp: w s'(2,4))
qed

lemma clients_accepted_next:
  assumes C: "clients_known s" and main: "main_at s = Accepting" "main_at s' = Registering c (arrived s)"
    and s': "who s' = who s" "arrived s' = Suc (arrived s)" "got s' = got s"
  shows "clients_known s'"
proof -
  note D = clients_knownD [OF C]
  have l: "client t < arrived s" if "who s d = Some t" for d t by (rule D(1) [OF that])
  have g: "got s (arrived s) = None" using D(5) [of "arrived s"] by (cases "got s (arrived s)") auto
  have "got s' n \<noteq> None \<or> (\<exists>d u. who s' d = Some u \<and> client u = n) \<or> (\<exists>d. main_at s' = Registering d n)" if "n < arrived s'" for n
    using D(8) [of n] that by (cases "n = arrived s") (auto simp: s' main)
  moreover have "\<forall>d t. who s d = Some t \<longrightarrow> client t < Suc (arrived s) \<and> arrived s \<noteq> client t \<and> got s (client t) = None"
    using l D(2) by fastforce
  moreover have "n < Suc (arrived s)" if "got s n = Some b" for n b using D(5) [OF that] by simp
  ultimately show ?thesis
    unfolding clients_known_def s' main using D(4) g by auto
qed

lemma clients_registered:
  assumes C: "clients_known s" and main: "main_at s = Registering c n" "main_at s' = Loop_Check" and new: "who s c = None"
    and s': "who s' = (who s)(c \<mapsto> t)" "client t = n" "arrived s' = arrived s" "got s' = got s"
  shows "clients_known s'"
proof -
  note D = clients_knownD [OF C]
  have w: "who s' d = Some u \<longleftrightarrow> (if d = c then u = t else who s d = Some u)" for d u by (auto simp: s'(1))
  have other: "n \<noteq> client u" if "who s d = Some u" for d u using D(3) [OF that] main(1) by auto
  have "got s' k \<noteq> None \<or> (\<exists>d u. who s' d = Some u \<and> client u = k)" if k: "k < arrived s'" for k
  proof (cases "k = n")
    case True
    then show ?thesis using w [of c t] s'(2) by auto
  next
    case False
    then consider "got s k \<noteq> None" | d u where "who s d = Some u" "client u = k"
      using D(8) [OF k [unfolded s'(3)]] main(1) False by auto
    then show ?thesis
    proof cases
      case 2
      then have "who s' d = Some u" using new by (auto simp: w)
      then show ?thesis using 2(2) by blast
    qed (simp add: s'(4))
  qed
  then show ?thesis
    unfolding clients_known_def
    using D(1,2,4,5) D(6,7) [OF main(1)] other other [THEN not_sym] by (simp add: w s'(2,3,4) main(2)) blast
qed

subsection \<open>Every step keeps the ownership\<close>

definition system_owns :: "nat \<Rightarrow> nat \<Rightarrow> nat \<Rightarrow> system \<Rightarrow> bool" where
  "system_owns m f v s \<longleftrightarrow> resources_ok f v s \<and> threads_ok m s \<and> manager_ok m f v s \<and> clients_known s"

lemma system_ownsI: "resources_ok f v s \<Longrightarrow> threads_ok m s \<Longrightarrow> manager_ok m f v s \<Longrightarrow> clients_known s \<Longrightarrow> system_owns m f v s"
  by (simp add: system_owns_def)

lemma system_ownsD:
  assumes "system_owns m f v s"
  shows "resources_ok f v s" "threads_ok m s" "manager_ok m f v s" "clients_known s"
  using assms by (simp_all add: system_owns_def)

text \<open>A thread can always be started, with an identifier of its own.\<close>

definition threads_available :: "pthreads \<Rightarrow> bool" where
  "threads_available T \<longleftrightarrow> (\<forall>ts. \<exists>tid. pthread_create T ts = Some tid \<and> tid \<notin> set ts)"

lemma server_exists:
  assumes "manager_ok m f v s" and "early (main_at s)"
  obtains srv where "msrv (ms s) v = Some srv"
proof -
  have "main_at s \<noteq> Returned" using assms(2) by simp
  then obtain mgr tids where "manager_with m f v s mgr tids" using manager_okE [OF assms(1)] by blast
  from manager_withD(8) [OF this] show thesis using assms(2) that by (cases "msrv (ms s) v") auto
qed

lemma manager_exists:
  assumes "manager_ok m f v s" and "managers (mst (ms s)) m = Some mgr"
  shows "main_at s \<noteq> Returned"
  using assms by (auto simp: manager_ok_def)

text \<open>The steps of \<open>main\<close> that accept and register.\<close>

lemma owns_accept:
  assumes L: "libc_ok L" and O: "system_owns m f v s" and main: "main_at s = Accepting"
    and d: "deliverable (open_socks (pnet (process s))) ev"
    and r: "tcp_server_accept_connection L A (Ptr v) (server_view (offer ev evs (ms s))) = Some (p, w)"
  shows "system_owns m f v (s\<lparr>ms := with_server w (offer ev evs (ms s)), main_at := accepted_at p (arrived s),
    arrived := (if p = NULL then arrived s else Suc (arrived s))\<rparr>)" (is "system_owns m f v ?s")
proof -
  note O = system_ownsD [OF O]
  obtain srv where srv: "msrv (ms s) v = Some srv" using server_exists [OF O(3)] main by auto
  let ?x = "server_view (offer ev evs (ms s))"
  have x: "servers ?x v = Some srv" "accepts ?x = [ev]" using srv by simp_all
  note out = accept_outcome [OF L x d r]
  show ?thesis
  proof (cases p)
    case NULL
    then have w: "sp w = mp (mst (offer ev evs (ms s)))" using out(2) by simp
    have os: "open_socks (new_stream ev evs (pnet (process s))) = open_socks (pnet (process s))" by (cases ev) simp_all
    show ?thesis
    proof (intro system_ownsI)
      have "conn_key (process ?s) = conn_key (process s)" by (simp add: w conn_key_def fun_eq_iff)
      then show "resources_ok f v ?s"
        by (intro resources_same [OF O(1)]) (simp_all add: w NULL main accepted_at_def os out(1))
      show "threads_ok m ?s"
        by (intro threads_same [OF O(2)]) (use threads_okD(2) [OF O(2)] in \<open>simp_all add: w NULL main accepted_at_def pending_conn_def\<close>)
      show "manager_ok m f v ?s"
        by (intro manager_same [OF O(3)]) (simp_all add: NULL main accepted_at_def out(1))
      show "clients_known ?s"
        by (intro clients_same [OF O(4)]) (simp_all add: NULL main accepted_at_def)
    qed
  next
    case (Ptr c)
    obtain fd addr a str where ev: "ev = Accepted fd addr" "fd \<notin> set (open_socks (pnet (process s)))" "fd \<noteq> - 1"
      and new: "conns (process s) c = None" "pheap (process s) a = None"
      and w: "sp w = (sp ?x)\<lparr>pnet := (pnet (sp ?x))\<lparr>open_socks := fd # open_socks (pnet (sp ?x))\<rparr>, pheap := (pheap (sp ?x))(a \<mapsto> str),
        conns := (conns (sp ?x))(c \<mapsto> \<lparr>socket = fd, client_address = Ptr a, is_open = True\<rparr>)\<rparr>"
      using out(3) [OF Ptr] by auto
    have p: "process ?s = (process s)\<lparr>pnet := (new_stream ev evs (pnet (process s)))\<lparr>open_socks := fd # open_socks (pnet (process s))\<rparr>,
        pheap := (pheap (process s))(a \<mapsto> str), conns := (conns (process s))(c \<mapsto> \<lparr>socket = fd, client_address = Ptr a, is_open = True\<rparr>)\<rparr>"
      by (simp add: w offer_def ev(1))
    show ?thesis
    proof (intro system_ownsI)
      show "resources_ok f v ?s"
        by (rule resources_accepted [OF O(1) _ ev(2,3) new p]) (simp_all add: main Ptr accepted_at_def out(1))
      show "threads_ok m ?s"
        by (rule threads_accepted [OF O(2) main _ new(1), where k = "\<lparr>socket = fd, client_address = Ptr a, is_open = True\<rparr>" and n = "arrived s"]) (simp_all add: w Ptr accepted_at_def)
      show "manager_ok m f v ?s"
        by (intro manager_same [OF O(3)]) (simp_all add: Ptr main accepted_at_def out(1))
      show "clients_known ?s"
        by (rule clients_accepted_next [OF O(4) main]) (simp_all add: Ptr accepted_at_def)
    qed
  qed
qed

lemma owns_register:
  assumes L: "libc_ok L" and T: "threads_available T" and O: "system_owns m f v s" and main: "main_at s = Registering c n"
    and r: "connection_manager_register_connection L T (Ptr m) (Ptr c) (mst (ms s)) = Some (b, x)"
  shows b and "managers x m = Some mgr \<Longrightarrow> SLIST_FIRST (connection_ctx_list mgr) = Ptr a \<Longrightarrow>
    system_owns m f v ((with_mst x s)\<lparr>main_at := Loop_Check, sphases := (sphases s)(c \<mapsto> Receiving),
      who := (who s)(c \<mapsto> \<lparr>arg_ctx = a, self = last (started x), client = n\<rparr>)\<rparr>)"
proof -
  note O = system_ownsD [OF O]
  obtain mgr0 tids where MW: "manager_with m f v s mgr0 tids"
    by (rule manager_okE [OF O(3)]) (simp add: main)
  note M = manager_withD [OF MW]
  note rep = M(3) and mgr0 = M(1,2)
  obtain tid where tid: "pthread_create T (started (mst (ms s))) = Some tid" "tid \<notin> set (started (mst (ms s)))"
    using T unfolding threads_available_def by blast
  show b: b
    using r tid(1) by (auto simp: connection_manager_register_connection_def Let_def split: ptr.splits bind_splits prod.splits)
  assume head: "managers x m = Some mgr" "SLIST_FIRST (connection_ctx_list mgr) = Ptr a"
  let ?s = "(with_mst x s)\<lparr>main_at := Loop_Check, sphases := (sphases s)(c \<mapsto> Receiving),
      who := (who s)(c \<mapsto> \<lparr>arg_ctx = a, self = last (started x), client = n\<rparr>)\<rparr>"
  have "connection_manager_register_connection L T (Ptr m) (Ptr c) (mst (ms s)) = Some (True, x)" using r b by simp
  from register_outcome [OF L rep this] obtain tid' a' mgr' hd q where R: "pthread_create T (started (mst (ms s))) = Some tid'"
      "a' \<notin> dom (ctxs (mst (ms s)))" "managers (mst (ms s)) m = Some mgr'" "managers x = (managers (mst (ms s)))(m \<mapsto> mgr'\<lparr>connection_ctx_list := hd\<rparr>)"
      "SLIST_FIRST hd = Ptr a'" "ctxs x = (ctxs (mst (ms s)))(a' \<mapsto> \<lparr>payload = \<lparr>manager = Ptr m, connection = Ptr c, thread = tid'\<rparr>, sle_next = q\<rparr>)"
      "started x = started (mst (ms s)) @ [tid']" "joined x = joined (mst (ms s))" "mp x = process s" "manager_rep m {} x (tid' # tids)"
    by blast
  have eq: "tid' = tid" "a' = a" "mgr' = mgr0" using R(1,3,4,5) tid(1) mgr0(1) head by auto
  note new = R(2) [unfolded eq] and mgrs = R(4) [unfolded eq] and ctx = R(6) [unfolded eq] and same = R(7-9) [unfolded eq] and rep' = R(10) [unfolded eq]
  have pend: "pending_conn s = {c}" by (simp add: pending_conn_def main)
  then have nc: "sphases s c = None" "who s c = None" using threads_okD(1,3) [OF O(2)] by auto
  show "system_owns m f v ?s"
  proof (intro system_ownsI)
    show "resources_ok f v ?s"
      by (rule resources_same [OF O(1)]) (use nc(1) in \<open>auto simp: same main\<close>)
    show "threads_ok m ?s"
      by (rule threads_registered [OF O(2) main _ tid(2) new]) (simp_all add: same ctx)
    show "clients_known ?s"
      by (rule clients_registered [OF O(4) main _ nc(2), where t = "\<lparr>arg_ctx = a, self = last (started x), client = n\<rparr>"]) simp_all
    show "manager_ok m f v ?s"
      by (intro manager_okI [of ?s m "mgr0\<lparr>connection_ctx_list := hd\<rparr>" f "tid # tids" v])
        (use mgr0 M main rep' in \<open>auto simp: mgrs same\<close>)
  qed
qed

text \<open>The steps of the shutdown.\<close>

lemma owns_finish:
  assumes O: "system_owns m f v s" and c: "sphases s c = Some Finished" "who s c = Some t"
    and e: "ctxs (mst (ms s)) (arg_ctx t) = Some e" "connection (payload e) = Ptr d" and conn: "conns (process s) d = Some conn"
    and p: "tcp_connection_destroy (Ptr d) (process s) = Some p"
  shows "d = c" and "system_owns m f v
      ((with_mst ((mst (ms s))\<lparr>mp := p, ctxs := (ctxs (mst (ms s)))(arg_ctx t \<mapsto> e\<lparr>payload := (payload e)\<lparr>connection := NULL\<rparr>\<rparr>)\<rparr>) s)
        \<lparr>sphases := (sphases s)(c := None), who := (who s)(c := None), ended := insert (self t) (ended s), got := (got s)(client t \<mapsto> b)\<rparr>)"
    (is "system_owns m f v ?s")
proof -
  note O = system_ownsD [OF O]
  show d: "d = c" using threads_okD(5) [OF O(2) c(2)] e by simp
  have k: "conns p = (conns (process s))(c := None)" using p by (auto simp: d Let_def split: bind_splits)
  show "system_owns m f v ?s"
  proof (intro system_ownsI)
    show "resources_ok f v ?s"
      by (rule resources_finish [OF O(1) c(1) conn [unfolded d] p [unfolded d]]) simp_all
    show "threads_ok m ?s"
      by (rule threads_finish [OF O(2) c(2) e(1), where e' = "e\<lparr>payload := (payload e)\<lparr>connection := NULL\<rparr>\<rparr>"]) (simp_all add: k)
    show "manager_ok m f v ?s"
      by (rule manager_finish [OF O(3) e(1), where e' = "e\<lparr>payload := (payload e)\<lparr>connection := NULL\<rparr>\<rparr>"]) simp_all
    show "clients_known ?s"
      by (rule clients_finish [OF O(4) c(2), where b = b]) simp_all
  qed
qed

lemma owns_close_server:
  assumes O: "system_owns m f v s" and main: "main_at s = Closing_Server" and w: "tcp_server_destroy (Ptr v) (server_view (ms s)) = Some w"
  shows "system_owns m f v (s\<lparr>ms := with_server w (ms s), main_at := Stopping\<rparr>)" (is "system_owns m f v ?s")
proof -
  note O = system_ownsD [OF O]
  obtain srv where srv: "msrv (ms s) v = Some srv" using server_exists [OF O(3)] main by auto
  then have w: "sp w = (process s)\<lparr>pnet := close_sock (socketfd srv) (pnet (process s))\<rparr>" "servers w = (msrv (ms s))(v := None)"
    using w by (auto simp: set_net_def)
  obtain mgr tids where MW: "manager_with m f v s mgr tids"
    by (rule manager_okE [OF O(3)]) (simp add: main)
  note M = manager_withD [OF MW]
  have rep: "manager_rep m {} (mst (ms ?s)) tids" using M(3) manager_rep_cong [of "mst (ms ?s)" "mst (ms s)"] by simp
  show ?thesis
  proof (intro system_ownsI)
    show "resources_ok f v ?s"
      by (rule resources_close_server [OF O(1) srv]) (simp_all add: w main)
    show "threads_ok m ?s"
      by (intro threads_same [OF O(2)]) (use threads_okD(2) [OF O(2)] in \<open>simp_all add: w main pending_conn_def\<close>)
    show "manager_ok m f v ?s"
      by (rule manager_okI [of ?s m mgr f tids v]) (use M main rep in \<open>simp_all add: w\<close>)
    show "clients_known ?s"
      by (rule clients_same [OF O(4)]) (simp_all add: main)
  qed
qed

lemma owns_set_flag:
  assumes O: "system_owns m f v s" and main: "main_at s = Stopping" and mgr: "managers (mst (ms s)) m = Some mgr"
  shows "system_owns m f v
    ((with_mst ((mst (ms s))\<lparr>managers := (managers (mst (ms s)))(m \<mapsto> mgr\<lparr>close_connections := True\<rparr>)\<rparr>) s)\<lparr>main_at := Joining\<rparr>)" (is "system_owns m f v ?s")
proof -
  note O = system_ownsD [OF O]
  obtain mgr' tids where MW: "manager_with m f v s mgr' tids"
    by (rule manager_okE [OF O(3)]) (simp add: main)
  note M = manager_withD [OF MW]
  have f: "filename mgr = Ptr f" using M(1,2) mgr by simp
  have rep: "manager_rep m {} (mst (ms ?s)) tids" using manager_rep_flag [OF M(3) mgr, of True] by simp
  show ?thesis
  proof (intro system_ownsI)
    show "resources_ok f v ?s"
      by (rule resources_same [OF O(1)]) (simp_all add: main)
    show "threads_ok m ?s"
      by (intro threads_same [OF O(2)]) (use threads_okD(2) [OF O(2)] in \<open>simp_all add: main pending_conn_def\<close>)
    show "manager_ok m f v ?s"
      by (rule manager_okI [of ?s m "mgr\<lparr>close_connections := True\<rparr>" f tids v]) (use f M(4,6,8,9) main rep in simp_all)
    show "clients_known ?s"
      by (rule clients_same [OF O(4)]) (simp_all add: main)
  qed
qed

lemma owns_join:
  assumes O: "system_owns m f v s" and main: "main_at s = Joining" and x: "destroy_round (joinable (ended s) T) m (mst (ms s)) = Some x"
  shows "system_owns m f v (with_mst x s)" (is "system_owns m f v ?s")
proof -
  note O = system_ownsD [OF O]
  obtain mgr tids where MW: "manager_with m f v s mgr tids"
    by (rule manager_okE [OF O(3)]) (simp add: main)
  note M = manager_withD [OF MW]
  from join_outcome [OF M(3) x] obtain tid rest c mgr' hd where
    R: "tids = tid # rest" "ends (joinable (ended s) T) tid" "tid_at (ctxs (mst (ms s))) c = tid" "managers (mst (ms s)) m = Some mgr'"
      "managers x = (managers (mst (ms s)))(m \<mapsto> mgr'\<lparr>connection_ctx_list := hd\<rparr>)" "c \<in> dom (ctxs (mst (ms s)))"
      "ctxs x = (ctxs (mst (ms s)))(c := None)" "started x = started (mst (ms s))" "joined x = joined (mst (ms s)) @ [tid]"
      "mp x = process s" "manager_rep m {} x rest"
    by blast
  have tid: "tid \<in> ended s" using R(2) by (simp add: joinable_def)
  have mgr: "mgr' = mgr" using R(4) M(1) by simp
  show ?thesis
  proof (intro system_ownsI)
    show "resources_ok f v ?s"
      by (rule resources_same [OF O(1)]) (simp_all add: R(10))
    show "threads_ok m ?s"
      by (rule threads_joined [OF O(2) R(3,6) tid]) (simp_all add: R(7-10))
    show "manager_ok m f v ?s"
      by (rule manager_okI [of ?s m "mgr\<lparr>connection_ctx_list := hd\<rparr>" f rest v]) (use M R main in \<open>simp_all add: mgr\<close>)
    show "clients_known ?s"
      by (rule clients_same [OF O(4)]) (simp_all add: main)
  qed
qed

lemma owns_joined_all:
  assumes O: "system_owns m f v s" and main: "main_at s = Joining" and mgr: "managers (mst (ms s)) m = Some mgr"
    and e: "SLIST_EMPTY (connection_ctx_list mgr)"
  shows "system_owns m f v (s\<lparr>main_at := Freeing\<rparr>)" (is "system_owns m f v ?s")
proof -
  note O = system_ownsD [OF O]
  obtain mgr' tids where MW: "manager_with m f v s mgr' tids"
    by (rule manager_okE [OF O(3)]) (simp add: main)
  note M = manager_withD [OF MW]
  have "tids = []"
    using M(3) mgr e unfolding manager_rep_def by (auto simp: SLIST_EMPTY_def SLIST_FIRST_def)
  then show ?thesis
    using M main O(2) by (intro system_ownsI resources_same [OF O(1)] threads_same [OF O(2)] clients_same [OF O(4)] manager_okI [of ?s m mgr' f tids v])
      (simp_all add: pending_conn_def threads_okD(2) [OF O(2)])
qed

text \<open>When all threads are joined no thread is left.\<close>

lemma no_threads:
  assumes O: "system_owns m f v s" and main: "main_at s \<in> {Freeing, Returned}"
  shows "who s = Map.empty" "sphases s = Map.empty" "conns (process s) = Map.empty" "ctxs (mst (ms s)) = Map.empty"
proof -
  note O = system_ownsD [OF O]
  show c: "ctxs (mst (ms s)) = Map.empty"
  proof (cases "main_at s = Returned")
    case True
    then show ?thesis using O(3) by (simp add: manager_ok_def)
  next
    case False
    then have "manager_rep m {} (mst (ms s)) []" using main O(3) unfolding manager_ok_def by auto
    then have "dom (ctxs (mst (ms s))) = {}" by (auto simp: manager_rep_def)
    then show ?thesis by simp
  qed
  have "who s b = None" for b
    using threads_okD(5) [OF O(2), of b] c by (cases "who s b") auto
  then show w: "who s = Map.empty" by (intro ext)
  then show p: "sphases s = Map.empty" using threads_okD(1) [OF O(2)] by (simp flip: dom_eq_empty_conv)
  have "pending_conn s = {}" using main by (auto simp: pending_conn_def)
  then show "conns (process s) = Map.empty" using threads_okD(2) [OF O(2)] p by simp
qed

lemma owns_free:
  assumes O: "system_owns m f v s" and main: "main_at s = Freeing" and mgr: "managers (mst (ms s)) m = Some mgr"
    and h: "cfree (filename mgr) (pheap (process s)) = Some h"
  shows "system_owns m f v
    ((with_mst ((mst (ms s))\<lparr>mp := (process s)\<lparr>pheap := h\<rparr>, managers := (managers (mst (ms s)))(m := None)\<rparr>) s)\<lparr>main_at := Returned\<rparr>)"
    (is "system_owns m f v ?s")
proof -
  note N = no_threads [OF O] and O = system_ownsD [OF O]
  obtain mgr' tids where MW: "manager_with m f v s mgr' tids"
    by (rule manager_okE [OF O(3)]) (simp add: main)
  note M = manager_withD [OF MW]
  have h: "h = (pheap (process s))(f := None)" using h M(1,2) mgr by (auto simp: cfree_Some)
  show ?thesis
  proof (intro system_ownsI)
    show "resources_ok f v ?s"
      by (rule resources_freed [OF O(1) main]) (simp_all add: h)
    show "threads_ok m ?s"
      by (intro threads_same [OF O(2)]) (use threads_okD(2) [OF O(2)] in \<open>simp_all add: main pending_conn_def\<close>)
    show "manager_ok m f v ?s"
      using M N main by (simp add: manager_ok_def closing_flag_def)
    show "clients_known ?s"
      by (rule clients_same [OF O(4)]) (simp_all add: main)
  qed
qed

text \<open>All together.\<close>

lemma owns_step:
  assumes L: "libc_ok L" and T: "threads_available T" and O: "system_owns m f v s" and st: "system_step L io K U A T m v lines_of s ev s'"
    and mv: "\<And>c ev z. thread_step L io K U c (core m s) ev z \<Longrightarrow> thread_moves c (core m s) ev z"
  shows "system_owns m f v s'"
  using st
proof cases
  case (thread c t e z)
  note mv = mv [OF thread(4)] and O = system_ownsD [OF O]
  show ?thesis
    unfolding thread(2) using leaving_flag [OF O(3)]
    by (intro system_ownsI resources_thread [OF O(1) mv] threads_thread [OF O(2) mv] manager_same [OF O(3)] clients_same [OF O(4)]) simp_all
next
  case (finish c t e d conn p)
  show ?thesis unfolding finish(2) by (rule owns_finish(2) [OF O finish(3-8)])
next
  case signal
  note O = system_ownsD [OF O]
  show ?thesis
    unfolding signal(2) using threads_okD(2,3) [OF O(2)]
    by (intro system_ownsI resources_same [OF O(1)] threads_same [OF O(2)] manager_same [OF O(3)] clients_same [OF O(4)])
      (simp_all add: pending_conn_def signal_handler_def)
next
  case go_on
  note O = system_ownsD [OF O]
  show ?thesis
    unfolding go_on(2) using go_on(3) threads_okD(2,3) [OF O(2)]
    by (intro system_ownsI resources_same [OF O(1)] threads_same [OF O(2)] manager_same [OF O(3)] clients_same [OF O(4)])
      (simp_all add: pending_conn_def)
next
  case stop
  note O = system_ownsD [OF O]
  show ?thesis
    unfolding stop(2) using stop(3,4) threads_okD(2,3) [OF O(2)]
    by (intro system_ownsI resources_same [OF O(1)] threads_same [OF O(2)] manager_same [OF O(3)] clients_same [OF O(4)])
      (simp_all add: pending_conn_def)
next
  case (accept e p w)
  show ?thesis unfolding accept(2) by (rule owns_accept [OF L O accept(3-5)])
next
  case (register c n x mgr a)
  show ?thesis unfolding register(2) by (rule owns_register(2) [OF L T O register(3-6)])
next
  case (register_fails c n x)
  then show ?thesis using owns_register(1) [OF L T O register_fails(3,4)] by simp
next
  case (close_server w)
  show ?thesis unfolding close_server(2) by (rule owns_close_server [OF O close_server(3,4)])
next
  case (set_flag mgr)
  show ?thesis unfolding set_flag(2) by (rule owns_set_flag [OF O set_flag(3,4)])
next
  case (join x)
  show ?thesis unfolding join(2) by (rule owns_join [OF O join(3,4)])
next
  case (joined_all mgr)
  show ?thesis unfolding joined_all(2) by (rule owns_joined_all [OF O joined_all(3-5)])
next
  case (free mgr h)
  show ?thesis unfolding free(2) by (rule owns_free [OF O free(3-5)])
qed

end
