(* ===== verification/System_Service.thy ===== *)
theory System_Service
  imports System_Threads
begin

text \<open>
  What the clients of the whole server get: the invariant \<open>served\<close>, by which the history of handled
  lines explains the device and every answer, while connections come and go and their
  addresses are used again. The history names clients by their number; the invariant of
  \<open>Server_Threads\<close> names threads by the address of their connection, and \<open>rename_keys\<close> leads from one to the
  other.
\<close>

subsection \<open>Renaming the clients of a history\<close>

definition rename_keys :: "(nat \<Rightarrow> nat) \<Rightarrow> history \<Rightarrow> history" where
  "rename_keys k H = map (\<lambda>e. (k (fst e), snd e)) H"

lemma rename_keys_simps [simp]:
  "rename_keys k [] = []" "rename_keys k (e # H) = (k (fst e), snd e) # rename_keys k H" "rename_keys k (H @ H') = rename_keys k H @ rename_keys k H'"
  by (simp_all add: rename_keys_def)

lemma replay_rename_log: "snd (replay (rename_keys k H) l) = snd (replay H l)"
proof (induction H arbitrary: l)
  case (Cons e H)
  then show ?case by (cases e) (simp add: case_prod_beta Let_def)
qed simp

lemma replay_rename_answers: "(\<And>x. k x = c \<longleftrightarrow> x = n) \<Longrightarrow> fst (replay (rename_keys k H) l) c = fst (replay H l) n"
proof (induction H arbitrary: l)
  case (Cons e H)
  have "k (fst e) = c \<longleftrightarrow> fst e = n" by (rule Cons.prems)
  then show ?case using Cons.IH [OF Cons.prems] by (cases e; cases "fst e = n") (auto simp: case_prod_beta Let_def)
qed simp

lemma handled_rename: "(\<And>x. k x = c \<longleftrightarrow> x = n) \<Longrightarrow> handled c (rename_keys k H) = handled n H"
  by (induction H) auto

lemma replay_no_answer: "n \<notin> fst ` set H \<Longrightarrow> fst (replay H l) n = []"
proof (induction H arbitrary: l)
  case (Cons e H)
  then show ?case by (cases e) (auto simp: case_prod_beta Let_def)
qed simp

lemma replay_other: "n \<notin> fst ` set H' \<Longrightarrow> fst (replay (H @ H') l) n = fst (replay H l) n"
proof (induction H arbitrary: l)
  case Nil
  then show ?case by (simp add: replay_no_answer)
next
  case (Cons e H)
  then show ?case by (cases e) (auto simp: case_prod_beta Let_def)
qed

lemma handled_none: "n \<notin> fst ` set H \<Longrightarrow> handled n H = []"
  by (auto simp: filter_empty_conv image_iff)

subsection \<open>Frames\<close>

text \<open>What the invariant says of a thread holds again in a state that looks the same to it.\<close>

definition looks_same :: "clients \<Rightarrow> view \<Rightarrow> clients \<Rightarrow> view \<Rightarrow> nat \<Rightarrow> bool" where
  "looks_same C v C' v' c \<longleftrightarrow> (v' = v \<or> v' = v\<lparr>vclose := True\<rparr>) \<and> sock C' c = sock C c \<and> lines C' c = lines C c \<and> earlier C' c = earlier C c"

lemma thread_ok_looks_same:
  assumes "thread_ok C c v h k ph" and "looks_same C v C' v' c"
  shows "thread_ok C' c v' h k ph"
proof -
  have "progress C' c w now rest = progress C c w now rest" for w now rest
    using assms(2) by (simp add: progress_def looks_same_def)
  then have "thread_ok C' c v h k ph" using assms(1) unfolding thread_ok_def by presburger
  moreover from this have "thread_ok C' c (v\<lparr>vclose := True\<rparr>) h k ph" by (auto simp: thread_ok_def)
  ultimately show ?thesis using assms(2) by (auto simp: looks_same_def)
qed

lemma server_inv_frame:
  assumes inv: "server_inv K F C l0 H s" and same: "dev s' = dev s" "holder s' = holder s" "snd (replay H' l0) = snd (replay H l0)"
    and proc: "whole_sends (pnet (proc s'))" "finite (dom (pheap (proc s')))"
    and hold: "\<And>c. holder s = Some c \<Longrightarrow> phases s' c \<noteq> None"
    and thr: "\<And>c ph. phases s' c = Some ph \<Longrightarrow>
      phases s c = Some ph \<and> looks_same C (view_of C l0 H s c) C' (view_of C' l0 H' s' c) c \<and>
        (\<forall>a. message_of ph = Ptr a \<longrightarrow> pheap (proc s') a = pheap (proc s) a) \<or>
      message_of ph = NULL \<and> thread_ok C' c (view_of C' l0 H' s' c) (pheap (proc s')) (dev s') ph"
  shows "server_inv K F C' l0 H' s'"
proof -
  have "thread_ok C' c (view_of C' l0 H' s' c) (pheap (proc s')) (dev s') ph" if "phases s' c = Some ph" for c ph
    using thr [OF that]
  proof (elim disjE conjE)
    assume old: "phases s c = Some ph" and l: "looks_same C (view_of C l0 H s c) C' (view_of C' l0 H' s' c) c"
      and h: "\<forall>a. message_of ph = Ptr a \<longrightarrow> pheap (proc s') a = pheap (proc s) a"
    show ?thesis
      by (rule thread_ok_frame [OF thread_ok_looks_same [OF server_invD(5) [OF inv old] l]]) (simp_all add: h same(1))
  qed
  moreover have "c = d" if "phases s' c = Some p" "phases s' d = Some q" "message_of p = Ptr a" "message_of q = Ptr a" for c d p q a
    using thr [OF that(1)] thr [OF that(2)] that(3,4) inv unfolding server_inv_def by (metis ptr.distinct(1))
  ultimately show ?thesis
    using inv proc hold unfolding server_inv_def same by blast
qed

subsection \<open>The invariant\<close>

text \<open>The clients as the connection threads see them.\<close>

definition client_view :: "(nat \<Rightarrow> byte list list) \<Rightarrow> system \<Rightarrow> clients" where
  "client_view lines_of s = \<lparr>sock = (\<lambda>c. case conns (process s) c of None \<Rightarrow> 0 | Some k \<Rightarrow> socket k),
     lines = (\<lambda>c. case who s c of None \<Rightarrow> [] | Some t \<Rightarrow> lines_of (client t)), earlier = (\<lambda>c. [])\<rparr>"

definition keyed :: "system \<Rightarrow> (nat \<Rightarrow> nat) \<Rightarrow> bool" where
  "keyed s k \<longleftrightarrow> (\<forall>c t n. who s c = Some t \<longrightarrow> (k n = c \<longleftrightarrow> n = client t))"

definition threads_serve :: "kernel_api \<Rightarrow> nat set \<Rightarrow> (nat \<Rightarrow> byte list list) \<Rightarrow> nat \<Rightarrow> log_state \<Rightarrow> history \<Rightarrow> system \<Rightarrow> bool" where
  "threads_serve K F lines_of m l0 H s \<longleftrightarrow> (\<exists>k. keyed s k \<and> server_inv K F (client_view lines_of s) l0 (rename_keys k H) (core m s))"

text \<open>A client that waits to be registered has sent everything and got nothing.\<close>

definition waiting_fresh :: "(nat \<Rightarrow> byte list list) \<Rightarrow> history \<Rightarrow> system \<Rightarrow> bool" where
  "waiting_fresh lines_of H s \<longleftrightarrow> (\<forall>c n. main_at s = Registering c n \<longrightarrow> n \<notin> fst ` set H \<and>
     (\<exists>conn. conns (process s) c = Some conn \<and> is_open conn \<and> inbox (pnet (process s)) (socket conn) = client_events (lines_of n) \<and>
        outbox (pnet (process s)) (socket conn) = []))"

text \<open>A client whose connection is closed has got exactly the answers to its lines, or to the first of them if
  the server was being stopped.\<close>

definition answered :: "(nat \<Rightarrow> byte list list) \<Rightarrow> log_state \<Rightarrow> history \<Rightarrow> system \<Rightarrow> bool" where
  "answered lines_of l0 H s \<longleftrightarrow> (\<forall>n b. got s n = Some b \<longrightarrow> b = fst (replay H l0) n \<and>
     (\<exists>later. map line_text (lines_of n) = handled n H @ later \<and> (\<not> stopped s \<longrightarrow> later = [])))"

definition served :: "kernel_api \<Rightarrow> nat set \<Rightarrow> (nat \<Rightarrow> byte list list) \<Rightarrow> nat \<Rightarrow> log_state \<Rightarrow> history \<Rightarrow> system \<Rightarrow> bool" where
  "served K F lines_of m l0 H s \<longleftrightarrow> threads_serve K F lines_of m l0 H s \<and> waiting_fresh lines_of H s \<and> answered lines_of l0 H s \<and>
     (\<forall>e\<in>set H. fst e < arrived s)"

lemma keyed_view:
  assumes "keyed s k" and "who s c = Some t"
  shows "handled c (rename_keys k H) = handled (client t) H" "fst (replay (rename_keys k H) l) c = fst (replay H l) (client t)"
  using assms by (auto simp: keyed_def intro!: handled_rename replay_rename_answers)

lemma client_view_simps [simp]:
  "conns (process s) c = Some k \<Longrightarrow> sock (client_view lines_of s) c = socket k"
  "who s c = Some t \<Longrightarrow> lines (client_view lines_of s) c = lines_of (client t)" "earlier (client_view lines_of s) c = []"
  by (simp_all add: client_view_def)

text \<open>The clients are as \<open>Server_Threads\<close> wants them: different sockets, and lines within the limits.\<close>

definition lines_fit :: "kernel_api \<Rightarrow> (nat \<Rightarrow> byte list list) \<Rightarrow> bool" where
  "lines_fit K lines_of \<longleftrightarrow> (\<forall>n. \<forall>x\<in>set (lines_of n).
     newline \<notin> set x \<and> decode_ioctl_command (line_text x) \<noteq> None \<and> length x + 1 \<le> device_limit K)"

lemma thread_conn:
  assumes "threads_ok m s" and "who s c = Some t"
  shows "\<exists>k. conns (process s) c = Some k"
proof -
  have "c \<in> dom (conns (process s))" using threads_okD(1,2) [OF assms(1)] assms(2) by blast
  then show ?thesis by blast
qed

lemma clients_fit:
  assumes "lines_fit K lines_of" and O: "system_owns m f v s"
  shows "clients_ok K (client_view lines_of s) (dom (sphases s))"
  unfolding clients_ok_def
proof (intro conjI ballI inj_onI)
  note O = system_ownsD [OF O]
  fix c d
  assume cd: "c \<in> dom (sphases s)" "d \<in> dom (sphases s)" "sock (client_view lines_of s) c = sock (client_view lines_of s) d"
  then obtain j k where k: "conns (process s) c = Some j" "conns (process s) d = Some k"
    using threads_okD(2) [OF O(2)] by blast
  then have "owns_sock v s (Client_Of c) (socket j)" "owns_sock v s (Client_Of d) (socket j)"
    using cd(3) by (auto simp: conn_key_Some)
  then have "Client_Of d = Client_Of c" using owned_onceD(2) [OF resourcesD(2) [OF O(1)]] by blast
  then show "c = d" by simp
next
  fix c x
  assume c: "c \<in> dom (sphases s)" and x: "x \<in> set (lines (client_view lines_of s) c)"
  then obtain t where "who s c = Some t" using threads_dom(2) [OF system_ownsD(2) [OF O]] by blast
  with x assms(1) show "newline \<notin> set x" "decode_ioctl_command (line_text x) \<noteq> None" "length x + 1 \<le> device_limit K"
    by (auto simp: lines_fit_def simp del: not_None_eq)
qed

subsection \<open>Steps that leave the running threads alone\<close>

lemma keyed_sub: "keyed s k \<Longrightarrow> (\<And>c t. who s' c = Some t \<Longrightarrow> who s c = Some t) \<Longrightarrow> keyed s' k"
  by (simp add: keyed_def)

text \<open>What a running thread can see.\<close>

definition seen_same :: "nat \<Rightarrow> system \<Rightarrow> system \<Rightarrow> nat \<Rightarrow> phase \<Rightarrow> bool" where
  "seen_same m s s' c ph \<longleftrightarrow> sphases s c = Some ph \<and> who s' c = who s c \<and> conns (process s') c = conns (process s) c \<and>
     (\<forall>k. conns (process s) c = Some k \<longrightarrow> inbox (pnet (process s')) (socket k) = inbox (pnet (process s)) (socket k) \<and>
        outbox (pnet (process s')) (socket k) = outbox (pnet (process s)) (socket k)) \<and>
     (closing_flag m s \<longrightarrow> closing_flag m s') \<and> (\<forall>a. message_of ph = Ptr a \<longrightarrow> pheap (process s') a = pheap (process s) a)"

lemma seen_looks_same:
  assumes inv: "server_inv K F (client_view lines_of s) l0 H (core m s)" and g: "seen_same m s s' c ph" and h: "sholder s' = sholder s"
    and e: "handled c H' = handled c H" "fst (replay H' l0) c = fst (replay H l0) c"
  shows "looks_same (client_view lines_of s) (view_of (client_view lines_of s) l0 H (core m s) c)
    (client_view lines_of s') (view_of (client_view lines_of s') l0 H' (core m s') c) c"
proof -
  have ph: "phases (core m s) c = Some ph" using g by (simp add: seen_same_def)
  obtain k where k: "conns (process s) c = Some k"
    using server_invD(5) [OF inv ph] by (auto simp: thread_ok_def progress_def)
  have c: "sock (client_view lines_of s') c = sock (client_view lines_of s) c" "lines (client_view lines_of s') c = lines (client_view lines_of s) c"
    using g by (simp_all add: client_view_def seen_same_def)
  have v: "view_of (client_view lines_of s') l0 H' (core m s') c =
      (view_of (client_view lines_of s) l0 H (core m s) c)\<lparr>vclose := closing_flag m s'\<rparr>"
    using g k h by (simp add: view_of_def c seen_same_def e)
  have "closing_flag m s \<longrightarrow> closing_flag m s'" using g by (simp add: seen_same_def)
  then have "closing_flag m s' = closing_flag m s \<or> closing_flag m s'" by blast
  then show ?thesis unfolding looks_same_def v by (auto simp: c view_of_def)
qed

lemma threads_serve_frame:
  assumes S: "threads_serve K F lines_of m l0 H s" and same: "sdev s' = sdev s" "sholder s' = sholder s"
    and proc: "whole_sends (pnet (process s'))" "finite (dom (pheap (process s')))"
    and who: "\<And>c t. who s' c = Some t \<Longrightarrow> who s c = Some t" and hold: "\<And>c. sholder s = Some c \<Longrightarrow> sphases s' c \<noteq> None"
    and thr: "\<And>c ph. sphases s' c = Some ph \<Longrightarrow> seen_same m s s' c ph"
  shows "threads_serve K F lines_of m l0 H s'"
proof -
  obtain k where k: "keyed s k" and inv: "server_inv K F (client_view lines_of s) l0 (rename_keys k H) (core m s)"
    using S by (auto simp: threads_serve_def)
  have "server_inv K F (client_view lines_of s') l0 (rename_keys k H) (core m s')"
    by (rule server_inv_frame [OF inv])
      (use same proc hold thr seen_looks_same [OF inv thr same(2)] in \<open>auto simp: seen_same_def\<close>)
  moreover have "keyed s' k" using k who by (rule keyed_sub)
  ultimately show ?thesis by (auto simp: threads_serve_def)
qed

lemma threads_serve_proc:
  assumes "threads_serve K F lines_of m l0 H s"
  shows "whole_sends (pnet (process s))" "finite (dom (pheap (process s)))" "dev_inv K F (sdev s)" "log_of (sdev s) = snd (replay H l0)"
  using assms replay_rename_log by (auto simp: threads_serve_def server_inv_def)

lemma holder_phase: "threads_serve K F lines_of m l0 H s \<Longrightarrow> sholder s = Some c \<Longrightarrow> sphases s c \<noteq> None"
  by (auto simp: threads_serve_def server_inv_def)

text \<open>Steps of \<open>main\<close> and the signal, which touch neither the process nor the threads.\<close>

lemma served_quiet:
  assumes S: "served K F lines_of m l0 H s"
    and same: "sdev s' = sdev s" "sholder s' = sholder s" "sphases s' = sphases s" "who s' = who s" "got s' = got s" "arrived s' = arrived s"
      "pheap (process s') = pheap (process s)" "conns (process s') = conns (process s)"
      "inbox (pnet (process s')) = inbox (pnet (process s))" "outbox (pnet (process s')) = outbox (pnet (process s))"
      "send_plan (pnet (process s')) = send_plan (pnet (process s))"
    and flag: "closing_flag m s \<Longrightarrow> closing_flag m s'" and stop: "stopped s \<Longrightarrow> stopped s'"
    and main: "\<And>c n. main_at s' = Registering c n \<Longrightarrow> main_at s = Registering c n"
  shows "served K F lines_of m l0 H s'"
proof -
  have S: "threads_serve K F lines_of m l0 H s" "waiting_fresh lines_of H s" "answered lines_of l0 H s" "\<forall>e\<in>set H. fst e < arrived s"
    using S by (simp_all add: served_def)
  note P = threads_serve_proc [OF S(1)]
  have "threads_serve K F lines_of m l0 H s'"
    by (rule threads_serve_frame [OF S(1)])
      (use same P flag holder_phase [OF S(1)] in \<open>auto simp: seen_same_def whole_sends_def\<close>)
  moreover have "waiting_fresh lines_of H s'"
    using S(2) main by (simp add: waiting_fresh_def same)
  moreover have "answered lines_of l0 H s'"
    using S(3) stop unfolding answered_def same by blast
  ultimately show ?thesis using S(4) by (simp add: served_def same)
qed

subsection \<open>Steps of the threads\<close>

lemma served_thread:
  assumes env: "server_env L io K U F" and fit: "lines_fit K lines_of" and l0: "pending l0 = []"
    and O: "system_owns m f v s" and S: "served K F lines_of m l0 H s"
    and t: "who s c = Some t" and st: "thread_step L io K U c (core m s) ev z"
  shows "thread_moves c (core m s) ev z" and "served K F lines_of m l0 (H @ map (\<lambda>e. (client t, snd e)) ev) (with_core z s)"
proof -
  note C = clients_fit [OF fit O] and O = system_ownsD [OF O]
  have S: "threads_serve K F lines_of m l0 H s" "waiting_fresh lines_of H s" "answered lines_of l0 H s" "\<forall>e\<in>set H. fst e < arrived s"
    using S by (simp_all add: served_def)
  obtain k where k: "keyed s k" and inv: "server_inv K F (client_view lines_of s) l0 (rename_keys k H) (core m s)"
    using S(1) by (auto simp: threads_serve_def)
  have C: "clients_ok K (client_view lines_of s) (dom (phases (core m s)))" using C by simp
  show mv: "thread_moves c (core m s) ev z" by (rule thread_step_moves [OF env C inv st])
  have inv': "server_inv K F (client_view lines_of s) l0 (rename_keys k H @ ev) z"
    by (rule thread_step_inv(1) [OF env C l0 inv st])
  let ?ev = "map (\<lambda>e. (client t, snd e)) ev" and ?s = "with_core z s"
  have key: "conn_key (proc z) = conn_key (process s)" and cl: "close_flag z = closing_flag m s" and own: "\<forall>e\<in>set ev. fst e = c"
    and else: "same_elsewhere c (process s) (proc z)"
    using mv by (auto simp: thread_moves_def)
  have "(case conns (proc z) d of None \<Rightarrow> 0 | Some k \<Rightarrow> socket k) = (case conns (process s) d of None \<Rightarrow> 0 | Some k \<Rightarrow> socket k)" for d
    using fun_cong [OF key, of d] by (cases "conns (proc z) d"; cases "conns (process s) d") (auto simp: conn_key_def)
  then have view: "client_view lines_of ?s = client_view lines_of s" by (simp add: client_view_def)
  have core: "core m ?s = z"
    using cl by (simp add: core_def closing_flag_def)
  have "k (client t) = c" using k t by (simp add: keyed_def)
  then have ev: "rename_keys k ?ev = ev" using own by (auto simp: rename_keys_def o_def intro!: map_idI)
  have keys: "n \<notin> fst ` set ?ev" if "n \<noteq> client t" for n using that by auto
  have "threads_serve K F lines_of m l0 (H @ ?ev) ?s"
    using inv' k unfolding threads_serve_def by (intro exI [of _ k]) (simp add: view core ev keyed_def)
  moreover have "waiting_fresh lines_of (H @ ?ev) ?s"
    unfolding waiting_fresh_def
  proof (intro allI impI)
    fix d n
    assume "main_at ?s = Registering d n"
    then have main: "main_at s = Registering d n" by simp
    then obtain conn where conn: "n \<notin> fst ` set H" "conns (process s) d = Some conn" "is_open conn"
        "inbox (pnet (process s)) (socket conn) = client_events (lines_of n)" "outbox (pnet (process s)) (socket conn) = []"
      using S(2) unfolding waiting_fresh_def by blast
    have n: "n \<noteq> client t" using clients_knownD(3) [OF O(4) t] main by auto
    have "pending_conn s = {d}" using main by (simp add: pending_conn_def)
    then have d: "d \<noteq> c" using threads_okD(1,3) [OF O(2)] t by auto
    have "socket j \<noteq> socket conn" if "conns (process s) c = Some j" for j
    proof
      assume "socket j = socket conn"
      then have "owns_sock v s (Client_Of c) (socket conn)" "owns_sock v s (Client_Of d) (socket conn)"
        using that conn(2) by (auto simp: conn_key_Some)
      then have "Client_Of d = Client_Of c" using owned_onceD(2) [OF resourcesD(2) [OF O(1)]] by blast
      with d show False by simp
    qed
    then have "conns (proc z) d = Some conn" "inbox (pnet (proc z)) (socket conn) = client_events (lines_of n)"
        "outbox (pnet (proc z)) (socket conn) = []"
      using else d conn unfolding same_elsewhere_def by auto
    then show "n \<notin> fst ` set (H @ ?ev) \<and> (\<exists>conn. conns (process ?s) d = Some conn \<and> is_open conn \<and>
        inbox (pnet (process ?s)) (socket conn) = client_events (lines_of n) \<and> outbox (pnet (process ?s)) (socket conn) = [])"
      using conn(1,3) keys [OF n] by auto
  qed
  moreover have "answered lines_of l0 (H @ ?ev) ?s"
    unfolding answered_def
  proof (intro allI impI)
    fix n b
    assume "got ?s n = Some b"
    then have g: "got s n = Some b" by simp
    then have "n \<notin> fst ` set ?ev" using keys clients_knownD(2) [OF O(4) t] by auto
    moreover from this have "handled n (H @ ?ev) = handled n H" using handled_none [of n ?ev] by simp
    ultimately show "b = fst (replay (H @ ?ev) l0) n \<and>
        (\<exists>later. map line_text (lines_of n) = handled n (H @ ?ev) @ later \<and> (\<not> stopped ?s \<longrightarrow> later = []))"
      using S(3) g unfolding answered_def by (auto simp: replay_other)
  qed
  moreover have "\<forall>e\<in>set (H @ ?ev). fst e < arrived ?s"
    using S(4) clients_knownD(1) [OF O(4) t] by auto
  ultimately show "served K F lines_of m l0 (H @ ?ev) ?s" by (simp only: served_def)
qed

text \<open>The end of a thread: its client has got its answers.\<close>

lemma served_finish:
  assumes O: "system_owns m f v s" and S: "served K F lines_of m l0 H s"
    and c: "sphases s c = Some Finished" "who s c = Some t" and conn: "conns (process s) c = Some conn"
    and p: "tcp_connection_destroy (Ptr c) (process s) = Some p"
    and s': "process s' = p" "managers (mst (ms s')) = managers (mst (ms s))" "sphases s' = (sphases s)(c := None)" "who s' = (who s)(c := None)"
      "sdev s' = sdev s" "sholder s' = sholder s" "main_at s' = main_at s" "arrived s' = arrived s"
      "got s' = (got s)(client t \<mapsto> outbox (pnet (process s)) (socket conn))"
  shows "served K F lines_of m l0 H s'"
proof -
  note O = system_ownsD [OF O]
  have S: "threads_serve K F lines_of m l0 H s" "waiting_fresh lines_of H s" "answered lines_of l0 H s" "\<forall>e\<in>set H. fst e < arrived s"
    using S by (simp_all add: served_def)
  note P = threads_serve_proc [OF S(1)]
  obtain k where k: "keyed s k" and inv: "server_inv K F (client_view lines_of s) l0 (rename_keys k H) (core m s)"
    using S(1) by (auto simp: threads_serve_def)
  have key: "conn_key (process s) c = Some (socket conn, client_address conn)" using conn by (rule conn_key_Some)
  obtain a where a: "client_address conn = Ptr a" using resourcesD(5) [OF O(1) key] by (cases "client_address conn") auto
  have p: "p = (process s)\<lparr>pnet := close_sock (socket conn) (pnet (process s)), pheap := (pheap (process s))(a := None),
      conns := (conns (process s))(c := None)\<rparr>"
    using p conn a by (auto simp: Let_def split: option.splits bind_splits)
  have flag: "closing_flag m s' = closing_flag m s" by (simp add: closing_flag_def s'(2))
  have ph: "phases (core m s) c = Some Finished" using c(1) by simp
  obtain now rest where pr: "progress (client_view lines_of s) c (view_of (client_view lines_of s) l0 (rename_keys k H) (core m s) c) now rest"
      "now = []" "rest = []" and nohold: "sholder s \<noteq> Some c"
      and cl: "\<not> closing_flag m s \<Longrightarrow> \<not> is_open conn"
    using server_invD(5) [OF inv ph] conn by (auto simp: thread_ok_def)
  obtain todo where todo: "map line_text (lines_of (client t)) = handled (client t) H @ map line_text todo"
      "is_open conn \<or> todo = []" and ans: "fst (replay H l0) (client t) = outbox (pnet (process s)) (socket conn)"
    using pr keyed_view [OF k c(2)] conn c(2) by (auto simp: progress_def view_of_def split: if_splits)
  have thr: "threads_serve K F lines_of m l0 H s'"
  proof (rule threads_serve_frame [OF S(1) s'(5,6)])
    show "whole_sends (pnet (process s'))" "finite (dom (pheap (process s')))"
      using P(1,2) by (simp_all add: s'(1) p close_sock_def whole_sends_def)
    show "sphases s' d \<noteq> None" if "sholder s = Some d" for d
      using holder_phase [OF S(1) that] that nohold by (auto simp: s'(3))
    show "who s d = Some u" if "who s' d = Some u" for d u using that by (simp add: s'(4) split: if_splits)
    show "seen_same m s s' d q" if "sphases s' d = Some q" for d q
    proof -
      have d: "d \<noteq> c" "sphases s d = Some q" using that by (simp_all add: s'(3) split: if_splits)
      have "message_of q \<noteq> Ptr a"
      proof
        assume "message_of q = Ptr a"
        then have "owns_block f s (Message_Of d) a" "owns_block f s (Address_Of c) a" using d(2) key a by auto
        then have "Message_Of d = Address_Of c" using owned_onceD(2) [OF resourcesD(1) [OF O(1)]] by blast
        then show False by simp
      qed
      then show ?thesis
        using d by (auto simp: seen_same_def s'(1,4) flag p close_sock_def)
    qed
  qed
  moreover have "waiting_fresh lines_of H s'"
    unfolding waiting_fresh_def s'(7)
  proof (intro allI impI)
    fix d n
    assume main: "main_at s = Registering d n"
    have "pending_conn s = {d}" using main by (simp add: pending_conn_def)
    then have "d \<noteq> c" using threads_okD(3) [OF O(2)] c(1) by auto
    then show "n \<notin> fst ` set H \<and> (\<exists>conn. conns (process s') d = Some conn \<and> is_open conn \<and>
        inbox (pnet (process s')) (socket conn) = client_events (lines_of n) \<and> outbox (pnet (process s')) (socket conn) = [])"
      using S(2) main unfolding waiting_fresh_def by (simp add: s'(1) p close_sock_def)
  qed
  moreover have "\<not> stopped s \<longrightarrow> todo = []"
    using O(3) todo(2) cl unfolding manager_ok_def by auto
  then have "answered lines_of l0 H s'"
    using S(3) todo(1) ans unfolding answered_def s'(7,9) by auto
  ultimately show ?thesis using S(4) by (simp only: served_def s'(8))
qed

subsection \<open>Accepting and registering\<close>

text \<open>A new stream on an unused descriptor is invisible to the running threads.\<close>

lemma new_stream_other:
  assumes "deliverable used ev" and "fd \<in> set used"
  shows "inbox (new_stream ev evs w) fd = inbox w fd" "outbox (new_stream ev evs w) fd = outbox w fd"
  using assms by (cases ev; auto)+

lemma conn_sock_open:
  assumes "resources_ok f v s" and "conns (process s) c = Some k"
  shows "socket k \<in> set (open_socks (pnet (process s)))"
proof -
  have "owns_sock v s (Client_Of c) (socket k)" using assms(2) by (auto simp: conn_key_Some)
  then show ?thesis by (rule owned_onceD(1) [OF resourcesD(2) [OF assms(1)]])
qed

lemma message_alloc:
  assumes "resources_ok f v s" and "sphases s c = Some ph" and "message_of ph = Ptr a"
  shows "pheap (process s) a \<noteq> None"
proof -
  have "owns_block f s (Message_Of c) a" using assms(2,3) by simp
  then have "a \<in> dom (pheap (process s))" by (rule owned_onceD(1) [OF resourcesD(1) [OF assms(1)]])
  then show ?thesis by blast
qed

lemma served_accept:
  assumes L: "libc_ok L" and O: "system_owns m f v s" and S: "served K F lines_of m l0 H s" and main: "main_at s = Accepting"
    and d: "deliverable (open_socks (pnet (process s))) ev"
    and r: "tcp_server_accept_connection L A (Ptr v) (server_view (offer ev (client_events (lines_of (arrived s))) (ms s))) = Some (p, w)"
  shows "served K F lines_of m l0 H (s\<lparr>ms := with_server w (offer ev (client_events (lines_of (arrived s))) (ms s)),
    main_at := accepted_at p (arrived s), arrived := (if p = NULL then arrived s else Suc (arrived s))\<rparr>)" (is "served K F lines_of m l0 H ?s")
proof -
  note O = system_ownsD [OF O]
  let ?evs = "client_events (lines_of (arrived s))"
  have S: "threads_serve K F lines_of m l0 H s" "waiting_fresh lines_of H s" "answered lines_of l0 H s" "\<forall>e\<in>set H. fst e < arrived s"
    using S by (simp_all add: served_def)
  note P = threads_serve_proc [OF S(1)]
  obtain srv where srv: "msrv (ms s) v = Some srv" using server_exists [OF O(3)] main by auto
  let ?x = "server_view (offer ev ?evs (ms s))"
  have x: "servers ?x v = Some srv" "accepts ?x = [ev]" using srv by simp_all
  note out = accept_outcome [OF L x d r]
  have flag: "closing_flag m ?s = closing_flag m s" by (simp add: closing_flag_def)
  have ans: "answered lines_of l0 H ?s" using S(3) main unfolding answered_def by auto
  have hist: "\<forall>e\<in>set H. fst e < arrived ?s" using S(4) by auto
  have nH: "arrived s \<notin> fst ` set H" using S(4) by auto
  show ?thesis
  proof (cases p)
    case NULL
    then have w: "sp w = mp (mst (offer ev ?evs (ms s)))" using out(2) by simp
    have "threads_serve K F lines_of m l0 H ?s"
    proof (rule threads_serve_frame [OF S(1)])
      show "seen_same m s ?s c ph" if "sphases ?s c = Some ph" for c ph
        using that new_stream_other [OF d conn_sock_open [OF O(1)]] by (auto simp: seen_same_def w flag)
    qed (use P holder_phase [OF S(1)] in \<open>auto simp: w whole_sends_def\<close>)
    moreover have "waiting_fresh lines_of H ?s" by (simp add: waiting_fresh_def NULL accepted_at_def)
    ultimately show ?thesis using ans hist by (simp only: served_def)
  next
    case (Ptr c)
    obtain fd addr a str where ev: "ev = Accepted fd addr" "fd \<notin> set (open_socks (pnet (process s)))" "fd \<noteq> - 1"
      and new: "conns (process s) c = None" "pheap (process s) a = None"
      and w: "sp w = (sp ?x)\<lparr>pnet := (pnet (sp ?x))\<lparr>open_socks := fd # open_socks (pnet (sp ?x))\<rparr>, pheap := (pheap (sp ?x))(a \<mapsto> str),
        conns := (conns (sp ?x))(c \<mapsto> \<lparr>socket = fd, client_address = Ptr a, is_open = True\<rparr>)\<rparr>"
      using out(3) [OF Ptr] by auto
    have nc: "sphases s c = None"
      using new(1) threads_okD(2) [OF O(2)] by (metis UnI1 domIff)
    have "threads_serve K F lines_of m l0 H ?s"
    proof (rule threads_serve_frame [OF S(1)])
      show "seen_same m s ?s b ph" if "sphases ?s b = Some ph" for b ph
      proof -
        have b: "sphases s b = Some ph" "b \<noteq> c" using that nc by auto
        show ?thesis
          using b new_stream_other [OF d conn_sock_open [OF O(1)]] message_alloc [OF O(1) b(1)] new(2)
          by (auto simp: seen_same_def w flag)
      qed
    qed (use P holder_phase [OF S(1)] in \<open>auto simp: w whole_sends_def\<close>)
    moreover have "waiting_fresh lines_of H ?s"
      using nH by (simp add: waiting_fresh_def Ptr accepted_at_def w ev(1))
    ultimately show ?thesis using ans hist by (simp only: served_def)
  qed
qed

text \<open>The new thread gets its connection's address as its name; whoever had that name before is gone.\<close>

lemma fresh_key:
  assumes k: "keyed s k" and fin: "finite (dom (who s))" and c: "who s c = None" and n: "\<And>d t. who s d = Some t \<Longrightarrow> client t \<noteq> n"
  shows "\<exists>k'. keyed s k' \<and> (\<forall>x. k' x = c \<longleftrightarrow> x = n)"
proof -
  obtain d where d: "d \<notin> insert c (dom (who s))"
    using ex_new_if_finite [of "insert c (dom (who s))"] fin by auto
  let ?k = "\<lambda>x. if x = n then c else if k x = c then d else k x"
  have "keyed s ?k"
    unfolding keyed_def
  proof (intro allI impI)
    fix b t x
    assume b: "who s b = Some t"
    then have "b \<noteq> c" "b \<noteq> d" using c d by auto
    moreover have "k x = b \<longleftrightarrow> x = client t" using k b by (simp add: keyed_def)
    ultimately show "?k x = b \<longleftrightarrow> x = client t" using n [OF b] by auto
  qed
  moreover have "\<forall>x. ?k x = c \<longleftrightarrow> x = n" using d by auto
  ultimately show ?thesis by blast
qed

lemma served_register:
  assumes O: "system_owns m f v s" and S: "served K F lines_of m l0 H s" and main: "main_at s = Registering c n"
    and s': "process s' = process s" "closing_flag m s' = closing_flag m s" "sdev s' = sdev s" "sholder s' = sholder s" "main_at s' = Loop_Check"
      "sphases s' = (sphases s)(c \<mapsto> Receiving)" "who s' = (who s)(c \<mapsto> t)" "client t = n" "got s' = got s" "arrived s' = arrived s"
  shows "served K F lines_of m l0 H s'"
proof -
  note O = system_ownsD [OF O]
  have S: "threads_serve K F lines_of m l0 H s" "waiting_fresh lines_of H s" "answered lines_of l0 H s" "\<forall>e\<in>set H. fst e < arrived s"
    using S by (simp_all add: served_def)
  note P = threads_serve_proc [OF S(1)]
  obtain k where k: "keyed s k" and inv: "server_inv K F (client_view lines_of s) l0 (rename_keys k H) (core m s)"
    using S(1) by (auto simp: threads_serve_def)
  obtain conn where conn: "n \<notin> fst ` set H" "conns (process s) c = Some conn" "is_open conn"
      "inbox (pnet (process s)) (socket conn) = client_events (lines_of n)" "outbox (pnet (process s)) (socket conn) = []"
    using S(2) main unfolding waiting_fresh_def by blast
  have "pending_conn s = {c}" using main by (simp add: pending_conn_def)
  then have nc: "sphases s c = None" "who s c = None" using threads_okD(1,3) [OF O(2)] by auto
  have other: "client u \<noteq> n" if "who s d = Some u" for d u using clients_knownD(3) [OF O(4) that] main by auto
  obtain k' where k': "keyed s k'" "\<And>x. k' x = c \<longleftrightarrow> x = n"
    using fresh_key [OF k threads_finite [OF O(2)] nc(2)] other by blast
  have key': "keyed s' k'" using k' by (auto simp: keyed_def s'(7,8))
  have "sholder s \<noteq> Some c" using holder_phase [OF S(1)] nc(1) by auto
  then have new: "thread_ok (client_view lines_of s') c (view_of (client_view lines_of s') l0 (rename_keys k' H) (core m s') c)
      (pheap (process s')) (sdev s') Receiving"
    using conn keyed_view(1) [OF key', of c t H] keyed_view(2) [OF key', of c t H l0] handled_none [OF conn(1)] replay_no_answer [OF conn(1)]
    by (auto simp: thread_ok_def progress_def view_of_def s' client_view_def)
  have "server_inv K F (client_view lines_of s') l0 (rename_keys k' H) (core m s')"
  proof (rule server_inv_frame [OF inv])
    fix d ph
    assume "phases (core m s') d = Some ph"
    then have d: "(if d = c then ph = Receiving else sphases s d = Some ph)" by (auto simp: s'(6) split: if_splits)
    show "phases (core m s) d = Some ph \<and> looks_same (client_view lines_of s) (view_of (client_view lines_of s) l0 (rename_keys k H) (core m s) d)
        (client_view lines_of s') (view_of (client_view lines_of s') l0 (rename_keys k' H) (core m s') d) d \<and>
        (\<forall>a. message_of ph = Ptr a \<longrightarrow> pheap (proc (core m s')) a = pheap (proc (core m s)) a) \<or>
      message_of ph = NULL \<and> thread_ok (client_view lines_of s') d (view_of (client_view lines_of s') l0 (rename_keys k' H) (core m s') d)
        (pheap (proc (core m s'))) (dev (core m s')) ph"
    proof (cases "d = c")
      case True
      then show ?thesis using new d by simp
    next
      case False
      then have ph: "sphases s d = Some ph" using d by simp
      then obtain u where u: "who s d = Some u" using threads_dom(2) [OF O(2)] by blast
      have "seen_same m s s' d ph" using ph False by (simp add: seen_same_def s')
      from seen_looks_same [OF inv this s'(4), of "rename_keys k' H"]
      show ?thesis using ph keyed_view [OF k u] keyed_view [OF k'(1) u] by (simp add: s'(1))
    qed
  qed (use P holder_phase [OF S(1)] in \<open>auto simp: s' replay_rename_log\<close>)
  then have "threads_serve K F lines_of m l0 H s'" using key' by (auto simp: threads_serve_def)
  moreover have "waiting_fresh lines_of H s'" by (simp add: waiting_fresh_def s'(5))
  moreover have "answered lines_of l0 H s'" using S(3) main unfolding answered_def s'(5,9) by auto
  ultimately show ?thesis using S(4) by (simp only: served_def s'(10))
qed

subsection \<open>Every step\<close>

lemma served_step:
  assumes env: "server_env L io K U F" and fit: "lines_fit K lines_of" and T: "threads_available T" and l0: "pending l0 = []"
    and O: "system_owns m f v s" and S: "served K F lines_of m l0 H s" and st: "system_step L io K U A T m v lines_of s ev s'"
  shows "system_owns m f v s'" and "served K F lines_of m l0 (H @ ev) s'"
proof -
  note L = server_envD(1) [OF env]
  have who: "\<exists>t. who s c = Some t" if "thread_step L io K U c (core m s) ev z" for c ev z
  proof -
    have "sphases s c \<noteq> None" using that by cases simp_all
    then show ?thesis using threads_dom(2) [OF system_ownsD(2) [OF O]] by blast
  qed
  show "system_owns m f v s'"
  proof (rule owns_step [OF L T O st])
    fix c ev z
    assume c: "thread_step L io K U c (core m s) ev z"
    then obtain t where "who s c = Some t" using who by blast
    from served_thread(1) [OF env fit l0 O S this c] show "thread_moves c (core m s) ev z" .
  qed
  show "served K F lines_of m l0 (H @ ev) s'"
    using st
  proof cases
    case (thread c t e z)
    show ?thesis unfolding thread(1,2) by (rule served_thread(2) [OF env fit l0 O S thread(3,4)])
  next
    case (finish c t e d conn p)
    note d = owns_finish(1) [OF O finish(3-8)]
    show ?thesis
      unfolding finish(1,2) append_Nil2
      by (rule served_finish [OF O S finish(3,4) finish(7,8) [unfolded d]]) simp_all
  next
    case (accept e p w)
    show ?thesis unfolding accept(1,2) append_Nil2 by (rule served_accept [OF L O S accept(3-5)])
  next
    case (register c n x mgr a)
    obtain mgr0 tids where MW: "manager_with m f v s mgr0 tids"
      by (rule manager_okE [OF system_ownsD(3) [OF O]]) (simp add: register(3))
    note out = register_outcome [OF L manager_withD(3) [OF MW] register(4)]
    have "mp x = process s" "closing_flag m (with_mst x s) = closing_flag m s"
      using out by (auto simp: closing_flag_def)
    then show ?thesis
      unfolding register(1,2) append_Nil2
      by (intro served_register [OF O S register(3), where t = "\<lparr>arg_ctx = a, self = last (started x), client = n\<rparr>"]) (simp_all add: closing_flag_def)
  next
    case (register_fails c n x)
    then show ?thesis using owns_register(1) [OF L T O register_fails(3,4)] by simp
  next
    case (close_server w)
    then obtain srv where "msrv (ms s) v = Some srv" using server_exists [OF system_ownsD(3) [OF O]] by auto
    then have "sp w = (process s)\<lparr>pnet := close_sock (socketfd srv) (pnet (process s))\<rparr>" using close_server(4) by (auto simp: set_net_def)
    then show ?thesis
      unfolding close_server(1,2) append_Nil2
      by (intro served_quiet [OF S]) (simp_all add: close_server(3) closing_flag_def close_sock_def)
  next
    case (join x)
    obtain mgr0 tids where MW: "manager_with m f v s mgr0 tids"
      by (rule manager_okE [OF system_ownsD(3) [OF O]]) (simp add: join(3))
    note out = join_outcome [OF manager_withD(3) [OF MW] join(4)]
    have "mp x = process s" "closing_flag m (with_mst x s) = closing_flag m s"
      using out by (auto simp: closing_flag_def)
    then show ?thesis
      unfolding join(1,2) append_Nil2 by (intro served_quiet [OF S]) simp_all
  next
    case (free mgr h)
    have N: "sphases s = Map.empty" "who s = Map.empty" using no_threads [OF O] free(3) by simp_all
    have S': "threads_serve K F lines_of m l0 H s" "answered lines_of l0 H s" "\<forall>e\<in>set H. fst e < arrived s"
      using S by (simp_all add: served_def)
    note P = threads_serve_proc [OF S'(1)]
    obtain a where h: "filename mgr = Ptr a \<and> h = (pheap (process s))(a := None) \<or> h = pheap (process s)" using free(5) by (cases "filename mgr") (auto split: option.splits)
    have "threads_serve K F lines_of m l0 H s'"
      unfolding free(2)
      by (rule threads_serve_frame [OF S'(1)]) (use P N h holder_phase [OF S'(1)] in auto)
    then show ?thesis
      using S'(2,3) free(3) unfolding free(1,2) by (simp add: served_def waiting_fresh_def answered_def)
  qed (use S in \<open>auto intro!: served_quiet [OF S] simp: closing_flag_def signal_handler_def\<close>)
qed

lemma system_run_inv:
  assumes env: "server_env L io K U F" and fit: "lines_fit K lines_of" and T: "threads_available T" and l0: "pending l0 = []"
    and start: "system_owns m f v s0" "served K F lines_of m l0 H0 s0"
  shows "system_run L io K U A T m v lines_of s0 n H s \<Longrightarrow> system_owns m f v s \<and> served K F lines_of m l0 (H0 @ H) s"
proof (induction rule: system_run.induct)
  case begin_system
  then show ?case using start by simp
next
  case (system_move n H s ev s')
  then show ?case using served_step [OF env fit T l0] by (metis append_assoc)
qed

end
