(* ===== verification/Whole_Server.thy ===== *)
theory Whole_Server
  imports System_Service
begin

text \<open>
  The properties of the whole server, from the calls with which \<open>main\<close> starts (\<open>start_up\<close>) over the accept loop to
  its return, with any number of clients coming and going: what the clients get, who owns what,
  and how the server shuts down.
\<close>

subsection \<open>Starting\<close>

definition boot :: "main_state \<Rightarrow> kstate \<Rightarrow> system" where
  "boot x k = \<lparr>ms = x, sdev = k, sholder = None, sphases = Map.empty, who = Map.empty, ended = {}, exit_flag = False,
     main_at = Loop_Check, arrived = 0, got = Map.empty\<rparr>"

text \<open>A process that has not done anything yet.\<close>

definition fresh_process :: "main_state \<Rightarrow> bool" where
  "fresh_process x \<longleftrightarrow> pheap (mp (mst x)) = Map.empty \<and> conns (mp (mst x)) = Map.empty \<and> open_socks (pnet (mp (mst x))) = [] \<and>
     whole_sends (pnet (mp (mst x))) \<and> ctxs (mst x) = Map.empty \<and> managers (mst x) = Map.empty \<and> started (mst x) = [] \<and>
     joined (mst x) = [] \<and> msrv x = Map.empty"

definition server_started :: "libc \<Rightarrow> sock_api \<Rightarrow> kernel_api \<Rightarrow> nat set \<Rightarrow> main_state \<Rightarrow> kstate \<Rightarrow> nat \<Rightarrow> nat \<Rightarrow> system \<Rightarrow> bool" where
  "server_started L A K F x k m v s0 \<longleftrightarrow> fresh_process x \<and> dev_inv K F k \<and> pending (log_of k) = [] \<and>
     (\<exists>y. start_up L A x = Some (Inr (Ptr v, Ptr m, y)) \<and> s0 = boot y k)"

lemma manager_create_shape:
  assumes L: "libc_ok L" and r: "connection_manager_create L fname x = Some (Ptr m, y)"
  shows "\<exists>a. pheap (mp x) a = None \<and> dom (pheap (mp y)) = insert a (dom (pheap (mp x))) \<and> ctxs y = ctxs x \<and> started y = started x \<and> joined y = joined x \<and>
    pnet (mp y) = pnet (mp x) \<and> conns (mp y) = conns (mp x) \<and>
    managers y = (managers x)(m \<mapsto> \<lparr>filename = Ptr a, file_mutex = Unlocked, close_connections = False, connection_ctx_list = \<lparr>slh_first = NULL\<rparr>\<rparr>)"
proof -
  obtain str h where al: "malloc L (length fname + 1) (pheap (mp x)) = (str, h)" by fastforce
  obtain m' h' where r': "malloc_struct L (dom (managers x)) = Ptr m'" "store_bytes str 0 (fname @ [nul]) h = Some h'"
      "m = m'" "y = x\<lparr>mp := (mp x)\<lparr>pheap := h'\<rparr>,
            managers := (managers x)(m \<mapsto> \<lparr>filename = str, file_mutex = Unlocked, close_connections = False,
              connection_ctx_list = SLIST_INIT \<lparr>slh_first = NULL\<rparr>\<rparr>)\<rparr>"
    using r al by (auto simp: connection_manager_create_def split: ptr.splits bind_splits)
  have null: "store_bytes NULL i (bs @ [b]) z = None" for i bs b z by (cases bs) simp_all
  obtain a where a: "cmalloc L (length fname + 1) (pheap (mp x)) = Ptr a" "str = Ptr a" "h = (pheap (mp x))(a \<mapsto> replicate (length fname + 1) (junk_byte L))"
    using al r'(2) null [of 0 fname nul] by (cases "cmalloc L (length fname + 1) (pheap (mp x))") (auto simp: malloc_def alloc_def split: if_splits)
  have "pheap (mp x) a = None" using libc_okD(1) [OF L a(1)] by simp
  moreover have "dom h' = insert a (dom (pheap (mp x)))" using store_bytes_dom [OF r'(2)] a(3) by simp
  ultimately show ?thesis by (intro exI [of _ a]) (simp add: r'(4) a(2) SLIST_INIT_def)
qed

lemma server_create_shape:
  assumes L: "libc_ok L" and o: "socks x = []" and r: "tcp_server_create L A p x = Some (Ptr v, y)"
  shows "\<exists>fd. fd \<noteq> - 1 \<and> sp y = (sp x)\<lparr>pnet := (pnet (sp x))\<lparr>open_socks := [fd]\<rparr>\<rparr> \<and> servers y = (servers x)(v \<mapsto> \<lparr>socketfd = fd, port = p\<rparr>)"
proof -
  obtain res where res: "getaddrinfo A p = Inr res" using r by (auto simp: tcp_server_create_def split: sum.splits)
  have "create_loop L A p res x = Some (Ptr v, y)" using r res by (simp add: tcp_server_create_def)
  then obtain it where it: "find (usable A (socks x)) res = Some it"
      "y = (set_net (new_sock (sys_socket A it (socks x)) (pnet (sp x))) x)\<lparr>servers := (servers x)(v \<mapsto> \<lparr>socketfd = sys_socket A it (socks x), port = p\<rparr>)\<rparr>"
    using create_loop_spec [of x L A p res] o by (auto split: option.splits ptr.splits)
  then have "usable A (socks x) it" by (auto simp: find_Some_iff)
  then have "sys_socket A it (socks x) \<noteq> - 1" by (simp add: usable_def)
  with it(2) o show ?thesis by (auto simp: set_net_def new_sock_def)
qed

lemma started_shape:
  assumes L: "libc_ok L" and x: "fresh_process x" and r: "start_up L A x = Some (Inr (Ptr v, Ptr m, y))"
  shows "\<exists>a fd mgr. fd \<noteq> - 1 \<and> dom (pheap (mp (mst y))) = {a} \<and> conns (mp (mst y)) = Map.empty \<and> open_socks (pnet (mp (mst y))) = [fd] \<and>
    whole_sends (pnet (mp (mst y))) \<and> ctxs (mst y) = Map.empty \<and> started (mst y) = [] \<and> joined (mst y) = [] \<and>
    map_option socketfd (msrv y v) = Some fd \<and> managers (mst y) m = Some mgr \<and> filename mgr = Ptr a \<and> \<not> close_connections mgr \<and>
    SLIST_FIRST (connection_ctx_list mgr) = NULL"
proof -
  note x = x [unfolded fresh_process_def]
  obtain q m1 where q: "connection_manager_create L TARGET_FILENAME (mst x) = Some (q, m1)"
    using r by (auto simp: start_up_def split: bind_splits)
  obtain p w where w: "tcp_server_create L A ''9000'' (server_view (x\<lparr>mst := m1\<rparr>)) = Some (p, w)"
    using r q by (auto simp: start_up_def Let_def split: bind_splits)
  have e: "q = Ptr m" "p = Ptr v" "y = with_server w (x\<lparr>mst := m1\<rparr>)"
    using r q w by (auto simp: start_up_def Let_def split: bind_splits if_splits)
  obtain a where a: "dom (pheap (mp m1)) = {a}" "ctxs m1 = Map.empty" "started m1 = []" "joined m1 = []" "pnet (mp m1) = pnet (mp (mst x))"
      "conns (mp m1) = Map.empty" "managers m1 m = Some \<lparr>filename = Ptr a, file_mutex = Unlocked, close_connections = False, connection_ctx_list = \<lparr>slh_first = NULL\<rparr>\<rparr>"
    using manager_create_shape [OF L q [unfolded e(1)]] x by auto
  obtain fd where fd: "fd \<noteq> - 1" "sp w = (mp m1)\<lparr>pnet := (pnet (mp m1))\<lparr>open_socks := [fd]\<rparr>\<rparr>" "map_option socketfd (servers w v) = Some fd"
    using server_create_shape [OF L _ w [unfolded e(2)]] x a(5) by auto
  show ?thesis
    by (rule exI [of _ a], rule exI [of _ fd],
        rule exI [of _ "\<lparr>filename = Ptr a, file_mutex = Unlocked, close_connections = False, connection_ctx_list = \<lparr>slh_first = NULL\<rparr>\<rparr>"])
      (use x a fd in \<open>simp add: e(3) SLIST_FIRST_def whole_sends_def\<close>)
qed

lemma started_inv:
  assumes L: "libc_ok L" and st: "server_started L A K F x k m v s0"
  shows "\<exists>f. system_owns m f v s0 \<and> served K F lines_of m (log_of k) [] s0"
proof -
  obtain y where y: "fresh_process x" "start_up L A x = Some (Inr (Ptr v, Ptr m, y))" "s0 = boot y k" "dev_inv K F k"
    using st by (auto simp: server_started_def)
  obtain a fd mgr where S: "fd \<noteq> - 1" "dom (pheap (mp (mst y))) = {a}" "conns (mp (mst y)) = Map.empty" "open_socks (pnet (mp (mst y))) = [fd]"
    "whole_sends (pnet (mp (mst y)))" "ctxs (mst y) = Map.empty" "started (mst y) = []" "joined (mst y) = []"
    "map_option socketfd (msrv y v) = Some fd" "managers (mst y) m = Some mgr" "filename mgr = Ptr a" "\<not> close_connections mgr"
    "SLIST_FIRST (connection_ctx_list mgr) = NULL"
    using started_shape [OF L y(1,2)] by blast
  have key: "conn_key (process s0) c = None" for c by (simp add: conn_key_dom y(3) boot_def S(3))
  have b: "owns_block a s0 r c \<longleftrightarrow> r = File_Name \<and> c = a" for r c
    using key by (cases r) (auto simp: y(3) boot_def)
  have n: "owns_sock v s0 r c \<longleftrightarrow> r = Listener \<and> c = fd" for r c
    using key S(9) by (cases r) (auto simp: y(3) boot_def)
  have "resources_ok a v s0"
    unfolding resources_ok_def owned_once_def b n using S key by (auto simp: y(3) boot_def)
  moreover have "threads_ok m s0"
    by (simp add: threads_ok_def y(3) boot_def S pending_conn_def)
  moreover have "manager_rep m {} (mst (ms s0)) []"
    by (auto simp: manager_rep_def y(3) boot_def S)
  then have "manager_ok m a v s0"
    using S by (intro manager_okI [of s0 m mgr a "[]" v]) (auto simp: y(3) boot_def)
  moreover have "clients_known s0" by (simp add: clients_known_def y(3) boot_def)
  moreover have "served K F lines_of m (log_of k) [] s0"
  proof -
    have "server_inv K F (client_view lines_of s0) (log_of k) (rename_keys id []) (core m s0)"
      using y(4) S(2,5) by (simp add: server_inv_def y(3) boot_def)
    then have "threads_serve K F lines_of m (log_of k) [] s0"
      unfolding threads_serve_def by (intro exI [of _ id]) (simp add: keyed_def y(3) boot_def)
    then show ?thesis by (simp add: served_def waiting_fresh_def answered_def y(3) boot_def)
  qed
  ultimately show ?thesis by (blast intro: system_ownsI)
qed

text \<open>What holds in every reachable state.\<close>

definition system_env :: "libc \<Rightarrow> stdio \<Rightarrow> kernel_api \<Rightarrow> (nat \<Rightarrow> user_bufs) \<Rightarrow> nat set \<Rightarrow> pthreads \<Rightarrow> (nat \<Rightarrow> byte list list) \<Rightarrow> bool" where
  "system_env L io K U F T lines_of \<longleftrightarrow> server_env L io K U F \<and> threads_available T \<and> lines_fit K lines_of"

lemma system_reachable:
  assumes env: "system_env L io K U F T lines_of" and st: "server_started L A K F x k m v s0"
    and run: "system_run L io K U A T m v lines_of s0 n H s"
  obtains f where "system_owns m f v s" "served K F lines_of m (log_of k) H s"
proof -
  have e: "server_env L io K U F" "threads_available T" "lines_fit K lines_of" using env by (simp_all add: system_env_def)
  have l0: "pending (log_of k) = []" using st by (simp add: server_started_def)
  obtain f where f: "system_owns m f v s0" "served K F lines_of m (log_of k) [] s0"
    using started_inv [OF server_envD(1) [OF e(1)] st] by blast
  from system_run_inv [OF e(1,3,2) l0 f run] show thesis using that [of f] by simp
qed

subsection \<open>The shutdown ends\<close>

text \<open>Once \<open>main\<close> has left the accept loop every step brings the return nearer: the work of each thread, the
  contexts still to be joined, and the statements of \<open>main\<close> still to come.\<close>

fun main_rank :: "main_phase \<Rightarrow> nat" where
  "main_rank Closing_Server = 4"
| "main_rank Stopping = 3"
| "main_rank Joining = 2"
| "main_rank Freeing = 1"
| "main_rank ph = 0"

definition client_work :: "(nat \<Rightarrow> byte list list) \<Rightarrow> history \<Rightarrow> system \<Rightarrow> nat \<Rightarrow> nat" where
  "client_work lines_of H s c = (case (who s c, sphases s c) of
     (Some t, Some ph) \<Rightarrow> 8 * (length (lines_of (client t)) - length (handled (client t) H)) +
       rank (map_option is_open (conns (process s) c) = Some True) ph + 1
   | _ \<Rightarrow> 0)"

definition shutdown_work :: "(nat \<Rightarrow> byte list list) \<Rightarrow> history \<Rightarrow> system \<Rightarrow> nat" where
  "shutdown_work lines_of H s = (\<Sum>c\<in>dom (who s). client_work lines_of H s c) + card (dom (ctxs (mst (ms s)))) + main_rank (main_at s)"

lemma client_work_cong:
  assumes "who s' c = who s c" and "sphases s' c = sphases s c" and "conns (process s') c = conns (process s) c"
    and "\<And>t. who s c = Some t \<Longrightarrow> handled (client t) H' = handled (client t) H"
  shows "client_work lines_of H' s' c = client_work lines_of H s c"
  using assms by (auto simp: client_work_def split: option.split)

lemma client_work_view:
  assumes "keyed s k" and "who s c = Some t" and "sphases s c = Some ph"
  shows "client_work lines_of H s c = work (client_view lines_of s) (rename_keys k H) (core m s) c + 1"
  using assms keyed_view(1) [OF assms(1,2), of H] by (simp add: client_work_def work_def)

lemma thread_work:
  assumes env: "system_env L io K U F T lines_of" and l0: "pending l0 = []"
    and O: "system_owns m f v s" and S: "served K F lines_of m l0 H s"
    and t: "who s c = Some t" and st: "thread_step L io K U c (core m s) ev z"
  shows "shutdown_work lines_of (H @ map (\<lambda>e. (client t, snd e)) ev) (with_core z s) < shutdown_work lines_of H s"
proof -
  have e: "server_env L io K U F" "lines_fit K lines_of" using env by (simp_all add: system_env_def)
  let ?ev = "map (\<lambda>e. (client t, snd e)) ev" and ?s = "with_core z s"
  have mv: "thread_moves c (core m s) ev z" and S': "served K F lines_of m l0 (H @ ?ev) ?s"
    using served_thread [OF e l0 O S t st] by simp_all
  have C: "clients_ok K (client_view lines_of s) (dom (phases (core m s)))" using clients_fit [OF e(2) O] by simp
  obtain k where k: "keyed s k" and inv: "server_inv K F (client_view lines_of s) l0 (rename_keys k H) (core m s)"
    using S by (auto simp: served_def threads_serve_def)
  obtain ph ph' where ph: "sphases s c = Some ph" "phases z = (sphases s)(c \<mapsto> ph')" using mv by (auto simp: thread_moves_def)
  have else: "same_elsewhere c (process s) (proc z)" and own: "\<forall>e\<in>set ev. fst e = c" using mv by (auto simp: thread_moves_def)
  have kc: "k (client t) = c" using k t by (simp add: keyed_def)
  then have ev: "rename_keys k ?ev = ev" using own by (auto simp: rename_keys_def o_def intro!: map_idI)
  have "work (client_view lines_of s) (rename_keys k H @ ev) z c < work (client_view lines_of s) (rename_keys k H) (core m s) c"
    by (rule work_decreases(1) [OF e(1) C inv st])
  moreover have "handled c (rename_keys k H @ ev) = handled (client t) (H @ ?ev)"
    using keyed_view(1) [OF k t, of "H @ ?ev"] by (simp only: rename_keys_simps ev)
  then have "client_work lines_of (H @ ?ev) ?s c = work (client_view lines_of s) (rename_keys k H @ ev) z c + 1"
    using t by (simp add: client_work_def work_def ph(2))
  ultimately have less: "client_work lines_of (H @ ?ev) ?s c < client_work lines_of H s c"
    using client_work_view [OF k t ph(1), of lines_of H m] by simp
  have same: "client_work lines_of (H @ ?ev) ?s b = client_work lines_of H s b" if "b \<noteq> c" for b
  proof (rule client_work_cong)
    show "handled (client u) (H @ ?ev) = handled (client u) H" if "who s b = Some u" for u
      using clients_knownD(4) [OF system_ownsD(4) [OF O] that t] \<open>b \<noteq> c\<close> by (auto simp: filter_empty_conv)
  qed (use that else in \<open>simp_all add: ph(2) same_elsewhere_def\<close>)
  have "(\<Sum>b\<in>dom (who s). client_work lines_of (H @ ?ev) ?s b) < (\<Sum>b\<in>dom (who s). client_work lines_of H s b)"
  proof (rule sum_strict_mono_ex1 [OF threads_finite [OF system_ownsD(2) [OF O]]])
    show "\<forall>b\<in>dom (who s). client_work lines_of (H @ ?ev) ?s b \<le> client_work lines_of H s b"
    proof
      fix b
      show "client_work lines_of (H @ ?ev) ?s b \<le> client_work lines_of H s b" using less same [of b] by (cases "b = c") simp_all
    qed
    show "\<exists>b\<in>dom (who s). client_work lines_of (H @ ?ev) ?s b < client_work lines_of H s b" using less t by blast
  qed
  then show ?thesis by (simp add: shutdown_work_def)
qed

lemma finish_work:
  assumes fin: "finite (dom (who s))" and c: "who s c = Some t" "sphases s c = Some ph"
    and s': "who s' = (who s)(c := None)" "sphases s' = (sphases s)(c := None)" "\<And>b. b \<noteq> c \<Longrightarrow> conns (process s') b = conns (process s) b"
      "dom (ctxs (mst (ms s'))) = dom (ctxs (mst (ms s)))" "main_at s' = main_at s"
  shows "shutdown_work lines_of H s' < shutdown_work lines_of H s"
proof -
  have "(\<Sum>b\<in>dom (who s'). client_work lines_of H s' b) = (\<Sum>b\<in>dom (who s) - {c}. client_work lines_of H s b)"
    by (rule sum.cong) (auto simp: s' intro!: client_work_cong)
  moreover have "client_work lines_of H s c > 0" using c by (simp add: client_work_def)
  moreover have "(\<Sum>b\<in>dom (who s). client_work lines_of H s b) = client_work lines_of H s c + (\<Sum>b\<in>dom (who s) - {c}. client_work lines_of H s b)"
    using c(1) by (intro sum.remove [OF fin]) blast
  ultimately show ?thesis by (simp add: shutdown_work_def s'(4,5))
qed

lemma shutdown_work_same:
  assumes "who s' = who s" and "sphases s' = sphases s" and "conns (process s') = conns (process s)"
    and "card (dom (ctxs (mst (ms s')))) + main_rank (main_at s') < card (dom (ctxs (mst (ms s)))) + main_rank (main_at s)"
  shows "shutdown_work lines_of H s' < shutdown_work lines_of H s"
proof -
  have "client_work lines_of H s' = client_work lines_of H s" by (rule ext, rule client_work_cong) (simp_all add: assms)
  then show ?thesis using assms(4) by (simp add: shutdown_work_def assms(1))
qed

lemma shutdown_step:
  assumes env: "system_env L io K U F T lines_of" and l0: "pending l0 = []" and O: "system_owns m f v s" and S: "served K F lines_of m l0 H s"
    and main: "leaving s" and st: "system_step L io K U A T m v lines_of s ev s'"
  shows "leaving s' \<and> arrived s' = arrived s \<and> shutdown_work lines_of (H @ ev) s' < shutdown_work lines_of H s"
  using st
proof cases
  case (thread c t e z)
  then show ?thesis using thread_work [OF env l0 O S thread(3,4)] main by simp
next
  case (finish c t e d conn p)
  note d = owns_finish(1) [OF O finish(3-8)]
  have "conns p b = conns (process s) b" if "b \<noteq> c" for b
    using finish(8) that d by (auto simp: Let_def split: bind_splits)
  moreover have "dom ((ctxs (mst (ms s)))(arg_ctx t \<mapsto> x)) = dom (ctxs (mst (ms s)))" for x
    using finish(5) by auto
  ultimately have "shutdown_work lines_of H s' < shutdown_work lines_of H s"
    unfolding finish(2) by (intro finish_work [OF threads_finite [OF system_ownsD(2) [OF O]] finish(4,3)]) simp_all
  then show ?thesis using main finish(1,2) by simp
next
  case signal
  then show ?thesis using leaving_flag [OF system_ownsD(3) [OF O] main] by simp
next
  case (close_server w)
  then obtain srv where "msrv (ms s) v = Some srv" using server_exists [OF system_ownsD(3) [OF O]] by auto
  then have "sp w = (process s)\<lparr>pnet := close_sock (socketfd srv) (pnet (process s))\<rparr>" using close_server(4) by (auto simp: set_net_def)
  then show ?thesis
    unfolding close_server(1,2) append_Nil2 by (intro conjI shutdown_work_same) (simp_all add: close_server(3))
next
  case (set_flag mgr)
  show ?thesis unfolding set_flag(1,2) append_Nil2 by (intro conjI shutdown_work_same) (simp_all add: set_flag(3))
next
  case (join x)
  obtain mgr0 tids where MW: "manager_with m f v s mgr0 tids"
    by (rule manager_okE [OF system_ownsD(3) [OF O]]) (simp add: join(3))
  from join_outcome [OF manager_withD(3) [OF MW] join(4)] obtain c where
    c: "c \<in> dom (ctxs (mst (ms s)))" "ctxs x = (ctxs (mst (ms s)))(c := None)" "mp x = process s"
    by blast
  have fin: "finite (dom (ctxs (mst (ms s))))" using manager_rep_finite [OF manager_withD(3) [OF MW]] by simp
  have "dom (ctxs x) = dom (ctxs (mst (ms s))) - {c}" by (simp add: c(2))
  then have "card (dom (ctxs x)) < card (dom (ctxs (mst (ms s))))" using card_Diff1_less [OF fin c(1)] by simp
  then show ?thesis
    unfolding join(1,2) append_Nil2 using main by (intro conjI shutdown_work_same) (simp_all add: c(3))
next
  case (joined_all mgr)
  show ?thesis unfolding joined_all(1,2) append_Nil2 by (intro conjI shutdown_work_same) (simp_all add: joined_all(3))
next
  case (free mgr h)
  show ?thesis unfolding free(1,2) append_Nil2 by (intro conjI shutdown_work_same) (simp_all add: free(3))
qed (use main in simp_all)

lemma shutdown_run:
  assumes env: "system_env L io K U F T lines_of" and l0: "pending l0 = []" and O: "system_owns m f v s" and S: "served K F lines_of m l0 H0 s"
    and main: "leaving s"
  shows "system_run L io K U A T m v lines_of s n H s' \<Longrightarrow>
    leaving s' \<and> arrived s' = arrived s \<and> n + shutdown_work lines_of (H0 @ H) s' \<le> shutdown_work lines_of H0 s"
proof (induction rule: system_run.induct)
  case begin_system
  then show ?case using main by simp
next
  case (system_move n H s1 ev s2)
  have e: "server_env L io K U F" "lines_fit K lines_of" "threads_available T" using env by (simp_all add: system_env_def)
  note I = system_run_inv [OF e l0 O S system_move(1)]
  show ?case
    using shutdown_step [OF env l0 conjunct1 [OF I] conjunct2 [OF I] _ system_move(2)] system_move(3) by simp
qed

text \<open>One thread is started for every client that has been registered.\<close>

definition one_thread_each :: "system \<Rightarrow> bool" where
  "one_thread_each s \<longleftrightarrow> length (started (mst (ms s))) + card (pending_conn s) = arrived s"

lemma one_thread_step:
  assumes L: "libc_ok L" and T: "threads_available T" and O: "system_owns m f v s" and st: "system_step L io K U A T m v lines_of s ev s'" and one: "one_thread_each s"
  shows "one_thread_each s'"
  using st
proof cases
  case (accept e p w)
  then show ?thesis using one by (cases p) (simp_all add: one_thread_each_def pending_conn_def accepted_at_def)
next
  case (register c n x mgr a)
  obtain mgr0 tids where MW: "manager_with m f v s mgr0 tids"
    by (rule manager_okE [OF system_ownsD(3) [OF O]]) (simp add: register(3))
  from register_outcome [OF L manager_withD(3) [OF MW] register(4)] obtain tid where "started x = started (mst (ms s)) @ [tid]" by blast
  then show ?thesis using one register(2,3) by (simp add: one_thread_each_def pending_conn_def)
next
  case (register_fails c n x)
  then show ?thesis using owns_register(1) [OF L T O register_fails(3,4)] by simp
next
  case (join x)
  obtain mgr0 tids where MW: "manager_with m f v s mgr0 tids"
    by (rule manager_okE [OF system_ownsD(3) [OF O]]) (simp add: join(3))
  from join_outcome [OF manager_withD(3) [OF MW] join(4)] have "started x = started (mst (ms s))" by blast
  then show ?thesis using one join(2) by (simp add: one_thread_each_def pending_conn_def)
qed (use one in \<open>simp_all add: one_thread_each_def pending_conn_def\<close>)

lemma one_thread_run:
  assumes env: "system_env L io K U F T lines_of" and st: "server_started L A K F x k m v s0"
  shows "system_run L io K U A T m v lines_of s0 n H s \<Longrightarrow> one_thread_each s"
proof (induction rule: system_run.induct)
  case begin_system
  have L: "libc_ok L" using env server_envD(1) by (auto simp: system_env_def)
  obtain y where y: "fresh_process x" "start_up L A x = Some (Inr (Ptr v, Ptr m, y))" "s0 = boot y k"
    using st by (auto simp: server_started_def)
  then have "started (mst y) = []" using started_shape [OF L y(1,2)] by blast
  then show ?case by (simp add: one_thread_each_def y(3) boot_def pending_conn_def)
next
  case (system_move n H s ev s')
  obtain f where "system_owns m f v s" by (rule system_reachable [OF env st system_move(1)])
  moreover have "libc_ok L" "threads_available T" using env server_envD(1) by (auto simp: system_env_def)
  ultimately show ?case using one_thread_step system_move(2,3) by blast
qed

lemma shutdown_work_bound:
  assumes O: "system_owns m f v s" and one: "one_thread_each s" and main: "leaving s"
  shows "shutdown_work lines_of H s \<le> (\<Sum>j<arrived s. 8 * length (lines_of j) + 13) + 4"
proof -
  note O' = system_ownsD [OF O]
  let ?c = "\<lambda>b. client (the (who s b))" and ?w = "\<lambda>j. 8 * length (lines_of j) + 12"
  have "client_work lines_of H s b \<le> ?w (?c b)" if "b \<in> dom (who s)" for b
  proof -
    have r: "rank q ph \<le> 11" for q ph by (cases ph) auto
    have "8 * (length (lines_of j) - x) + rank q ph + 1 \<le> ?w j" for j x q ph
      using r [of q ph] mult_le_mono2 [OF diff_le_self, of 8 "length (lines_of j)" x] by linarith
    then show ?thesis using that by (auto simp: client_work_def split: option.split)
  qed
  then have "(\<Sum>b\<in>dom (who s). client_work lines_of H s b) \<le> (\<Sum>b\<in>dom (who s). ?w (?c b))" by (rule sum_mono)
  also have "inj_on ?c (dom (who s))"
    by (rule inj_onI) (use clients_knownD(4) [OF O'(4)] in auto)
  then have "(\<Sum>b\<in>dom (who s). ?w (?c b)) = (\<Sum>j\<in>?c ` dom (who s). ?w j)" by (simp add: sum.reindex)
  also have "\<dots> \<le> (\<Sum>j<arrived s. ?w j)"
    by (rule sum_mono2) (use clients_knownD(1) [OF O'(4)] in auto)
  finally have w: "(\<Sum>b\<in>dom (who s). client_work lines_of H s b) \<le> (\<Sum>j<arrived s. ?w j)" .
  have "card (dom (ctxs (mst (ms s)))) \<le> arrived s"
  proof (cases "main_at s = Returned")
    case True
    then show ?thesis using no_threads(4) [OF O] by simp
  next
    case False
    then obtain mgr tids where MW: "manager_with m f v s mgr tids" by (rule manager_okE [OF O'(3)])
    obtain cs where cs: "dom (ctxs (mst (ms s))) = set cs" "tids = map (tid_at (ctxs (mst (ms s)))) cs"
      using manager_withD(3) [OF MW] by (auto simp: manager_rep_def)
    have "length cs \<le> length (started (mst (ms s)))"
      using arg_cong [OF manager_withD(4) [OF MW], of length] cs(2) by simp
    then show ?thesis using one card_length [of cs] cs(1) by (simp add: one_thread_each_def)
  qed
  moreover have "main_rank (main_at s) \<le> 4" by (cases "main_at s") simp_all
  moreover have "(\<Sum>j<arrived s. 8 * length (lines_of j) + 13) = (\<Sum>j<arrived s. ?w j) + arrived s"
    by (simp add: sum.distrib)
  ultimately show ?thesis using w by (simp add: shutdown_work_def)
qed

lemma system_run_trans:
  "system_run L io K U A T m v lines_of s n' H' s' \<Longrightarrow> system_run L io K U A T m v lines_of s0 n H s \<Longrightarrow>
    system_run L io K U A T m v lines_of s0 (n + n') (H @ H') s'"
proof (induction rule: system_run.induct)
  case (system_move n1 H1 s1 ev s2)
  show ?case using system_run.system_move [OF system_move(3) [OF system_move(4)] system_move(2)] by simp
qed simp

text \<open>As long as there are threads, one of them can go on or end.\<close>

lemma threads_can_move:
  assumes env: "system_env L io K U F T lines_of" and l0: "pending l0 = []" and O: "system_owns m f v s" and S: "served K F lines_of m l0 H s"
    and some: "sphases s \<noteq> Map.empty"
  shows "\<exists>ev s'. system_step L io K U A T m v lines_of s ev s' \<and> shutdown_work lines_of (H @ ev) s' < shutdown_work lines_of H s \<and>
    main_at s' = main_at s \<and> exit_flag s' = exit_flag s \<and> arrived s' = arrived s"
proof (cases "\<exists>c ph. sphases s c = Some ph \<and> ph \<noteq> Finished")
  case True
  have e: "server_env L io K U F" "lines_fit K lines_of" using env by (simp_all add: system_env_def)
  have C: "clients_ok K (client_view lines_of s) (dom (phases (core m s)))" using clients_fit [OF e(2) O] by simp
  obtain k where inv: "server_inv K F (client_view lines_of s) l0 (rename_keys k H) (core m s)"
    using S by (auto simp: served_def threads_serve_def)
  obtain b ev z where b: "thread_step L io K U b (core m s) ev z"
    using True not_stuck [OF e(1) C l0 inv, unfolded core_simps] by blast
  then have "sphases s b \<noteq> None" by cases simp_all
  then obtain t where t: "who s b = Some t" using threads_dom(2) [OF system_ownsD(2) [OF O]] by blast
  show ?thesis
    by (intro exI conjI, rule thread [OF t b], rule thread_work [OF env l0 O S t b]) simp_all
next
  case False
  then obtain c where c: "sphases s c = Some Finished" using some by (auto simp: fun_eq_iff)
  note O' = system_ownsD [OF O]
  obtain t where t: "who s c = Some t" using threads_dom(2) [OF O'(2) c] by blast
  obtain x where x: "ctxs (mst (ms s)) (arg_ctx t) = Some x" "connection (payload x) = Ptr c"
    using threads_okD(5) [OF O'(2) t] by auto
  obtain conn where conn: "conns (process s) c = Some conn" using thread_conn [OF O'(2) t] by blast
  obtain a where a: "client_address conn = Ptr a" using resourcesD(5) [OF O'(1) conn_key_Some [OF conn]] by (cases "client_address conn") auto
  have "owns_block f s (Address_Of c) a" using conn_key_Some [OF conn] a by simp
  then have "a \<in> dom (pheap (process s))" by (rule owned_onceD(1) [OF resourcesD(1) [OF O'(1)]])
  then obtain p where p: "tcp_connection_destroy (Ptr c) (process s) = Some p" using conn a by auto
  have pc: "conns p b = conns (process s) b" if "b \<noteq> c" for b
    using p that by (auto simp: Let_def split: bind_splits)
  have d: "insert (arg_ctx t) (dom (ctxs (mst (ms s)))) = dom (ctxs (mst (ms s)))"
    using x(1) by auto
  show ?thesis
    by (intro exI conjI, rule finish [OF c t x conn p], unfold append_Nil2,
        rule finish_work [OF threads_finite [OF O'(2)] t c]) (simp_all add: pc d)
qed

text \<open>A server that is being stopped always has something to do until it has returned.\<close>

lemma shutdown_not_stuck:
  assumes env: "system_env L io K U F T lines_of" and l0: "pending l0 = []" and O: "system_owns m f v s" and S: "served K F lines_of m l0 H s"
    and main: "leaving s" "main_at s \<noteq> Returned"
  shows "\<exists>ev s'. system_step L io K U A T m v lines_of s ev s'"
proof (cases "sphases s = Map.empty")
  case False
  then show ?thesis using threads_can_move [OF env l0 O S] by blast
next
  case True
  note O' = system_ownsD [OF O]
  obtain mgr tids where MW: "manager_with m f v s mgr tids" by (rule manager_okE [OF O'(3) main(2)])
  note M = manager_withD [OF MW]
  have w: "who s = Map.empty" using threads_okD(1) [OF O'(2)] True by simp
  consider "main_at s = Closing_Server" | "main_at s = Stopping" | "main_at s = Joining" | "main_at s = Freeing" using main by auto
  then show ?thesis
  proof cases
    case 1
    then obtain srv where "msrv (ms s) v = Some srv" using server_exists [OF O'(3)] by auto
    then have "tcp_server_destroy (Ptr v) (server_view (ms s)) \<noteq> None" by simp
    then show ?thesis using close_server [OF 1] by blast
  next
    case 2
    then show ?thesis using set_flag [OF 2 M(1)] by blast
  next
    case 3
    show ?thesis
    proof (cases tids)
      case Nil
      then have "SLIST_EMPTY (connection_ctx_list mgr)"
        using M(1,3) by (auto simp: manager_rep_def SLIST_EMPTY_def SLIST_FIRST_def)
      then show ?thesis using joined_all [OF 3 M(1)] by blast
    next
      case (Cons tid rest)
      have "tid \<in> set (rev (started (mst (ms s))))" unfolding M(4) [symmetric] by (simp add: Cons)
      then have "tid \<in> ended s" using threads_okD(7) [OF O'(2)] w by simp
      then have "ends (joinable (ended s) T) tid" by (simp add: joinable_def)
      then obtain y where "destroy_round (joinable (ended s) T) m (mst (ms s)) = Some y"
        using destroy_round_rep [OF M(3) [unfolded Cons]] by blast
      then show ?thesis using join [OF 3] by blast
    qed
  next
    case 4
    have "owns_block f s File_Name f" using 4 by simp
    then have "f \<in> dom (pheap (process s))" by (rule owned_onceD(1) [OF resourcesD(1) [OF O'(1)]])
    then have "cfree (filename mgr) (pheap (process s)) \<noteq> None" by (auto simp: M(2))
    then show ?thesis using free [OF 4 M(1)] by blast
  qed
qed

text \<open>So from every reachable state the server can serve all its clients to the end, and, when it is being stopped,
  return: both are instances of \<open>ranked_steps\<close> on states with their history.\<close>

definition history_step ::
  "libc \<Rightarrow> stdio \<Rightarrow> kernel_api \<Rightarrow> (nat \<Rightarrow> user_bufs) \<Rightarrow> sock_api \<Rightarrow> pthreads \<Rightarrow> nat \<Rightarrow> nat \<Rightarrow> (nat \<Rightarrow> byte list list) \<Rightarrow>
    history \<times> system \<Rightarrow> history \<times> system \<Rightarrow> bool" where
  "history_step L io K U A T m v lines_of x y \<longleftrightarrow>
     (\<exists>ev. system_step L io K U A T m v lines_of (snd x) ev (snd y) \<and> fst y = fst x @ ev)"

lemma history_run:
  "(history_step L io K U A T m v lines_of)\<^sup>*\<^sup>* x y \<Longrightarrow>
    \<exists>n H. system_run L io K U A T m v lines_of (snd x) n H (snd y) \<and> fst y = fst x @ H"
proof (induction rule: rtranclp_induct)
  case base
  show ?case using begin_system by fastforce
next
  case (step y z)
  then show ?case using system_move unfolding history_step_def by fastforce
qed

definition runs_well ::
  "libc \<Rightarrow> stdio \<Rightarrow> kernel_api \<Rightarrow> (nat \<Rightarrow> user_bufs) \<Rightarrow> nat set \<Rightarrow> pthreads \<Rightarrow> nat \<Rightarrow> nat \<Rightarrow> nat \<Rightarrow> (nat \<Rightarrow> byte list list) \<Rightarrow> log_state \<Rightarrow>
    history \<times> system \<Rightarrow> bool" where
  "runs_well L io K U F T m f v lines_of l0 x \<longleftrightarrow> system_env L io K U F T lines_of \<and> pending l0 = [] \<and> system_owns m f v (snd x) \<and>
     served K F lines_of m l0 (fst x) (snd x)"

lemma runs_well_step:
  assumes "runs_well L io K U F T m f v lines_of l0 x" and "system_step L io K U A T m v lines_of (snd x) ev s"
  shows "runs_well L io K U F T m f v lines_of l0 (fst x @ ev, s)"
proof -
  have e: "server_env L io K U F" "lines_fit K lines_of" "threads_available T" "pending l0 = []"
    using assms(1) by (simp_all add: runs_well_def system_env_def)
  show ?thesis
    using assms served_step [OF e, of m f v "snd x" "fst x"] by (simp add: runs_well_def)
qed

text \<open>What stays the same while only threads move.\<close>

definition main_state_of :: "system \<Rightarrow> main_phase \<times> bool \<times> nat" where
  "main_state_of s = (main_at s, exit_flag s, arrived s)"

interpretation serving_clients: ranked_steps "history_step L io K U A T m v lines_of"
  "\<lambda>x. runs_well L io K U F T m f v lines_of l0 x \<and> main_state_of (snd x) = st" "\<lambda>x. who (snd x) = Map.empty"
  "\<lambda>x. shutdown_work lines_of (fst x) (snd x)"
proof unfold_locales
  fix x
  assume x: "runs_well L io K U F T m f v lines_of l0 x \<and> main_state_of (snd x) = st" and w: "who (snd x) \<noteq> Map.empty"
  have g: "system_env L io K U F T lines_of" "pending l0 = []" "system_owns m f v (snd x)" "served K F lines_of m l0 (fst x) (snd x)"
    using x by (simp_all add: runs_well_def)
  have "sphases (snd x) \<noteq> Map.empty" using w threads_okD(1) [OF system_ownsD(2) [OF g(3)]] by auto
  then obtain ev s where
    s: "system_step L io K U A T m v lines_of (snd x) ev s" "shutdown_work lines_of (fst x @ ev) s < shutdown_work lines_of (fst x) (snd x)"
      "main_state_of s = main_state_of (snd x)"
    using threads_can_move [OF g] unfolding main_state_of_def prod.inject by blast
  then show "\<exists>y. history_step L io K U A T m v lines_of x y \<and> (runs_well L io K U F T m f v lines_of l0 y \<and> main_state_of (snd y) = st) \<and>
      shutdown_work lines_of (fst y) (snd y) < shutdown_work lines_of (fst x) (snd x)"
    using runs_well_step [OF conjunct1 [OF x] s(1)] x by (intro exI [of _ "(fst x @ ev, s)"]) (auto simp: history_step_def)
qed

interpretation shutting_down: ranked_steps "history_step L io K U A T m v lines_of"
  "\<lambda>x. runs_well L io K U F T m f v lines_of l0 x \<and> leaving (snd x)" "\<lambda>x. main_at (snd x) = Returned"
  "\<lambda>x. shutdown_work lines_of (fst x) (snd x)"
proof unfold_locales
  fix x
  assume x: "runs_well L io K U F T m f v lines_of l0 x \<and> leaving (snd x)" and w: "main_at (snd x) \<noteq> Returned"
  have g: "system_env L io K U F T lines_of" "pending l0 = []" "system_owns m f v (snd x)" "served K F lines_of m l0 (fst x) (snd x)"
    using x by (simp_all add: runs_well_def)
  obtain ev s where s: "system_step L io K U A T m v lines_of (snd x) ev s"
    using shutdown_not_stuck [OF g conjunct2 [OF x] w] by blast
  from shutdown_step [OF g conjunct2 [OF x] s] runs_well_step [OF conjunct1 [OF x] s]
  show "\<exists>y. history_step L io K U A T m v lines_of x y \<and> (runs_well L io K U F T m f v lines_of l0 y \<and> leaving (snd y)) \<and>
      shutdown_work lines_of (fst y) (snd y) < shutdown_work lines_of (fst x) (snd x)"
    using s by (intro exI [of _ "(fst x @ ev, s)"]) (simp add: history_step_def exI [of _ ev])
qed

lemma serve_all:
  assumes "system_env L io K U F T lines_of" and "pending l0 = []" and "system_owns m f v s" and "served K F lines_of m l0 H0 s"
  shows "\<exists>n H s'. system_run L io K U A T m v lines_of s n H s' \<and> who s' = Map.empty \<and> main_at s' = main_at s \<and> arrived s' = arrived s"
proof -
  have "runs_well L io K U F T m f v lines_of l0 (H0, s) \<and> main_state_of (snd (H0, s)) = main_state_of s"
    using assms by (simp add: runs_well_def)
  from serving_clients.reaches_goal [OF this] obtain y where
    "(history_step L io K U A T m v lines_of)\<^sup>*\<^sup>* (H0, s) y" "main_state_of (snd y) = main_state_of s" "who (snd y) = Map.empty"
    by blast
  then show ?thesis using history_run [of L io K U A T m v lines_of "(H0, s)" y] by (auto simp: main_state_of_def)
qed

lemma run_to_end:
  assumes "system_env L io K U F T lines_of" and "pending l0 = []" and "system_owns m f v s" and "served K F lines_of m l0 H0 s" and "leaving s"
  shows "\<exists>n H s'. system_run L io K U A T m v lines_of s n H s' \<and> main_at s' = Returned"
proof -
  have "runs_well L io K U F T m f v lines_of l0 (H0, s) \<and> leaving (snd (H0, s))"
    using assms by (simp add: runs_well_def)
  from shutting_down.reaches_goal [OF this] obtain y where
    "(history_step L io K U A T m v lines_of)\<^sup>*\<^sup>* (H0, s) y" "main_at (snd y) = Returned"
    by blast
  then show ?thesis using history_run [of L io K U A T m v lines_of "(H0, s)" y] by auto
qed

lemma owned_once_empty: "owned_once S owns \<Longrightarrow> (\<And>r a. \<not> owns r a) \<Longrightarrow> S = {}"
  by (auto simp: owned_once_def)

subsection \<open>Properties\<close>

text \<open>C1: The whole server behaves as if all lines of all clients had been served one after the other. From the
  start, in every state that the server can reach while clients arrive, are served and leave, and
  the signal comes at any time: the device holds the log that results from serving the handled lines
  serially; a client whose connection has been closed has been sent exactly the answers of that
  serial execution to all its lines, or, once the server is being stopped, to the first of them; a
  client being served has been sent exactly its answers so far, except that the holder of the mutex may
  still have to get the rest of its last one. Reusing the addresses and descriptors of clients that have left does
  not mix anything up.\<close>

theorem whole_server_serializes:
  assumes "system_env L io K U F T lines_of" and "server_started L A K F x k m v s0" and "system_run L io K U A T m v lines_of s0 n H s"
  shows "dev_inv K F (sdev s) \<and> log_of (sdev s) = snd (replay H (log_of k)) \<and>
    (\<forall>j b. got s j = Some b \<longrightarrow> b = fst (replay H (log_of k)) j \<and>
       (\<exists>later. map line_text (lines_of j) = handled j H @ later \<and> (\<not> stopped s \<longrightarrow> later = []))) \<and>
    (\<forall>c t. who s c = Some t \<longrightarrow> (\<exists>conn rest later. conns (process s) c = Some conn \<and>
       fst (replay H (log_of k)) (client t) = outbox (pnet (process s)) (socket conn) @ rest \<and> (sholder s \<noteq> Some c \<longrightarrow> rest = []) \<and>
       map line_text (lines_of (client t)) = handled (client t) H @ later))"
proof (rule system_reachable [OF assms])
  fix f
  assume O: "system_owns m f v s" and S: "served K F lines_of m (log_of k) H s"
  then obtain r where r: "keyed s r" and inv: "server_inv K F (client_view lines_of s) (log_of k) (rename_keys r H) (core m s)"
    by (auto simp: served_def threads_serve_def)
  have S': "threads_serve K F lines_of m (log_of k) H s" "answered lines_of (log_of k) H s" using S by (simp_all add: served_def)
  have "\<exists>conn rest later. conns (process s) c = Some conn \<and>
       fst (replay H (log_of k)) (client t) = outbox (pnet (process s)) (socket conn) @ rest \<and> (sholder s \<noteq> Some c \<longrightarrow> rest = []) \<and>
       map line_text (lines_of (client t)) = handled (client t) H @ later" if t: "who s c = Some t" for c t
  proof -
    obtain ph where "sphases s c = Some ph" using threads_dom(1) [OF system_ownsD(2) [OF O] t] by blast
    then have "thread_ok (client_view lines_of s) c (view_of (client_view lines_of s) (log_of k) (rename_keys r H) (core m s) c)
        (pheap (process s)) (sdev s) ph"
      using server_invD(5) [OF inv] by simp
    then obtain now rest where p: "progress (client_view lines_of s) c (view_of (client_view lines_of s) (log_of k) (rename_keys r H) (core m s) c) now rest"
        "phase_ok (pheap (process s)) (sdev s) (sholder s = Some c) now rest ph"
      unfolding thread_ok_def by auto
    have "sholder s \<noteq> Some c \<longrightarrow> rest = []" using p(2) by (cases ph) auto
    then show ?thesis
      using p(1) t keyed_view [OF r t] by (auto simp: progress_def view_of_def)
  qed
  then show ?thesis
    using threads_serve_proc(3,4) [OF S'(1)] S'(2) unfolding answered_def by blast
qed



text \<open>A waiting connection can be registered.\<close>

lemma register_possible:
  assumes L: "libc_ok L" "structs_available L" and T: "threads_available T" and O: "system_owns m f v s" and main: "main_at s = Registering c n"
  shows "\<exists>s' t. system_step L io K U A T m v lines_of s [] s' \<and> main_at s' = Loop_Check \<and> exit_flag s' = exit_flag s \<and>
    arrived s' = arrived s \<and> who s' = (who s)(c \<mapsto> t) \<and> client t = n"
proof -
  obtain mgr0 tids where MW: "manager_with m f v s mgr0 tids"
    by (rule manager_okE [OF system_ownsD(3) [OF O]]) (simp add: main)
  note rep = manager_withD(3) [OF MW]
  have "finite (dom (ctxs (mst (ms s))))" using manager_rep_finite [OF rep] by simp
  then obtain a where a: "malloc_struct L (dom (ctxs (mst (ms s)))) = Ptr a"
    using L(2) by (cases "malloc_struct L (dom (ctxs (mst (ms s))))") (auto simp: structs_available_def)
  obtain tid where tid: "pthread_create T (started (mst (ms s))) = Some tid" using T by (auto simp: threads_available_def)
  obtain x where x: "connection_manager_register_connection L T (Ptr m) (Ptr c) (mst (ms s)) = Some (True, x)"
    using register_starts [OF rep a libc_okD(3) [OF L(1) a] tid] by blast
  from register_outcome [OF L(1) rep x] obtain b mgr hd where "managers x = (managers (mst (ms s)))(m \<mapsto> mgr\<lparr>connection_ctx_list := hd\<rparr>)"
      "SLIST_FIRST hd = Ptr b"
    by blast
  then show ?thesis
    using register [OF main x, of "mgr\<lparr>connection_ctx_list := hd\<rparr>" b]
    by (intro exI [of _ "(with_mst x s)\<lparr>main_at := Loop_Check, sphases := (sphases s)(c \<mapsto> Receiving),
         who := (who s)(c \<mapsto> \<lparr>arg_ctx = b, self = last (started x), client = n\<rparr>)\<rparr>"]
        exI [of _ "\<lparr>arg_ctx = b, self = last (started x), client = n\<rparr>"]) simp
qed

subsection \<open>A server with one client\<close>

text \<open>The server is started on an idle machine; then a client connects that sends one line.\<close>

definition idle_main :: main_state where
  "idle_main = \<lparr>mst = \<lparr>mp = \<lparr>pheap = Map.empty, conns = Map.empty,
       pnet = \<lparr>inbox = (\<lambda>fd. []), outbox = (\<lambda>fd. []), send_plan = (\<lambda>i. Send_Accept 4096), sends = 0, open_socks = []\<rparr>\<rparr>,
     ctxs = Map.empty, managers = Map.empty, started = [], joined = []\<rparr>, msrv = Map.empty, maccepts = [], fds = []\<rparr>"

definition many_threads :: pthreads where
  "many_threads = \<lparr>pthread_create = (\<lambda>ts. Some (Suc (sum_list ts))), ends = (\<lambda>t. False)\<rparr>"

definition one_line :: "nat \<Rightarrow> byte list list" where
  "one_line n = [''one'']"

definition visitor :: accept_event where
  "visitor = Accepted 5 (CHR 0x02 # replicate 15 nul)"

lemma one_line_env: "system_env demo_libc buffered_stdio big_kernel (\<lambda>c. sample_bufs) {} many_threads one_line"
proof -
  have "decode_ioctl_command ''one'' = Some None"
    by (rule decode_no_prefix, simp add: seek_prefix_def)
  then have "lines_fit big_kernel one_line"
    by (simp add: lines_fit_def one_line_def line_text_def device_limit_def big_kernel_def demo_kernel_def)
  moreover have "Suc (sum_list ts) \<notin> set ts" for ts :: "nat list"
    using member_le_sum_list [of "Suc (sum_list ts)" ts] by auto
  then have "threads_available many_threads" by (simp add: threads_available_def many_threads_def)
  ultimately show ?thesis using two_env by (simp add: system_env_def)
qed

definition started_main :: main_state where
  "started_main = (case start_up demo_libc sample_api idle_main of Some (Inr (s, m, x)) \<Rightarrow> x | _ \<Rightarrow> idle_main)"

lemmas start_up_evaluates = started_main_def start_up_def idle_main_def connection_manager_create_def demo_libc_def next_addr_def malloc_def
  alloc_def TARGET_FILENAME_def overwrite_def tcp_server_create_def sample_api_def server_view_def with_server_def set_net_def new_sock_def
  close_sock_def

lemma idle_start: "start_up demo_libc sample_api idle_main = Some (Inr (Ptr 0, Ptr 0, started_main))"
  by (simp add: start_up_evaluates Let_def)

lemma idle_started: "server_started demo_libc sample_api big_kernel {} idle_main empty_device 0 0 (boot started_main empty_device)"
  using idle_start empty_device_inv by (auto simp: server_started_def fresh_process_def idle_main_def whole_sends_def empty_device_log)

abbreviation idle_run :: "system \<Rightarrow> nat \<Rightarrow> history \<Rightarrow> system \<Rightarrow> bool" where
  "idle_run \<equiv> system_run demo_libc buffered_stdio big_kernel (\<lambda>c. sample_bufs) sample_api many_threads 0 0 one_line"

lemma visitor_accepted:
  "\<exists>c w. tcp_server_accept_connection demo_libc sample_api (Ptr 0) (server_view (offer visitor evs started_main)) = Some (Ptr c, w)"
  by (simp add: start_up_evaluates Let_def offer_def visitor_def sockaddr_of_def sa_family_def get_in_addr_def inet_ntop_def tcp_connection_create_def strdup_def)

lemma visitor_served:
  "\<exists>n s t c. idle_run (boot started_main empty_device) n [] s \<and> main_at s = Loop_Check \<and> \<not> exit_flag s \<and> arrived s = 1 \<and> who s = [c \<mapsto> t]"
proof -
  let ?s0 = "boot started_main empty_device" and ?step = "system_step demo_libc buffered_stdio big_kernel (\<lambda>c. sample_bufs) sample_api many_threads 0 0 one_line"
  have "?step ?s0 [] (?s0\<lparr>main_at := Accepting\<rparr>)" by (rule go_on) (simp_all add: boot_def)
  then have r1: "idle_run ?s0 (Suc 0) ([] @ []) (?s0\<lparr>main_at := Accepting\<rparr>)" by (rule system_move [OF begin_system])
  obtain c w where acc: "tcp_server_accept_connection demo_libc sample_api (Ptr 0) (server_view (offer visitor (client_events (one_line 0)) started_main)) = Some (Ptr c, w)"
    using visitor_accepted by blast
  have "5 \<notin> set (open_socks (pnet (process ?s0)))"
    by (simp add: boot_def start_up_evaluates Let_def)
  then have d: "deliverable (open_socks (pnet (process ?s0))) visitor"
    by (simp add: visitor_def ipv4_event_def)
  let ?s2 = "?s0\<lparr>ms := with_server w (offer visitor (client_events (one_line 0)) started_main), main_at := Registering c 0, arrived := 1\<rparr>"
  have "?step (?s0\<lparr>main_at := Accepting\<rparr>) [] ?s2"
    using accept [where s = "?s0\<lparr>main_at := Accepting\<rparr>" and ev = visitor and p = "Ptr c" and w = w and lines_of = one_line] d acc
    by (simp add: boot_def accepted_at_def)
  then have r2: "idle_run ?s0 (Suc (Suc 0)) (([] @ []) @ []) ?s2" by (rule system_move [OF r1])
  obtain f where O: "system_owns 0 f 0 ?s2" by (rule system_reachable [OF one_line_env idle_started r2])
  have T: "threads_available many_threads" using one_line_env by (simp add: system_env_def)
  have main2: "main_at ?s2 = Registering c 0" by simp
  obtain s t where s: "?step ?s2 [] s" "main_at s = Loop_Check" "exit_flag s = exit_flag ?s2" "arrived s = arrived ?s2" "who s = (who ?s2)(c \<mapsto> t)"
    using register_possible [OF demo_libc_ok demo_libc_structs T O main2] by blast
  have "idle_run ?s0 (Suc (Suc (Suc 0))) ((([] @ []) @ []) @ []) s" by (rule system_move [OF r2 s(1)])
  then have "idle_run ?s0 3 [] s" by (simp add: eval_nat_numeral)
  then show ?thesis using s(2-5) by (intro exI [of _ 3] exI [of _ s] exI [of _ t] exI [of _ c]) (simp add: boot_def)
qed

theorem whole_server_serializes_witness:
  "\<exists>n H s b. idle_run (boot started_main empty_device) n H s \<and> main_at s = Loop_Check \<and> who s = Map.empty \<and> arrived s = 1 \<and>
    got s 0 = Some b \<and> b = fst (replay H (log_of empty_device)) 0 \<and> handled 0 H = [''one''] \<and>
    log_of (sdev s) = snd (replay H (log_of empty_device))"
proof -
  obtain n1 s1 where r1: "idle_run (boot started_main empty_device) n1 [] s1" "main_at s1 = Loop_Check" "arrived s1 = 1"
    using visitor_served by blast
  obtain f where O: "system_owns 0 f 0 s1" "served big_kernel {} one_line 0 (log_of empty_device) [] s1"
    by (rule system_reachable [OF one_line_env idle_started r1(1)])
  have "pending (log_of empty_device) = []" by (simp add: empty_device_log)
  then obtain n2 H s where r2: "idle_run s1 n2 H s" "who s = Map.empty" "main_at s = main_at s1" "arrived s = arrived s1"
    using serve_all [OF one_line_env _ O] by blast
  have r: "idle_run (boot started_main empty_device) (n1 + n2) H s" using system_run_trans [OF r2(1) r1(1)] by simp
  obtain g where "system_owns 0 g 0 s" by (rule system_reachable [OF one_line_env idle_started r])
  then obtain b where b: "got s 0 = Some b"
    using clients_knownD(8) [OF system_ownsD(4), of 0 g 0 s 0] r2(2-4) r1(2,3) by auto
  have "line_text ''one'' = ''one''" by (simp add: line_text_def)
  then show ?thesis
    using whole_server_serializes [OF one_line_env idle_started r] b r r2(2-4) r1(2,3)
    by (intro exI [of _ "n1 + n2"] exI [of _ H] exI [of _ s] exI [of _ b]) (auto simp: one_line_def)
qed



end
