(* ===== verification/Plain_File.thy ===== *)
theory Plain_File
  imports Session
begin

text \<open>
  Regular files instead of the character device: the program \<^verbatim>\<open>finder-app/writer.c\<close>, the function
  \<open>save_packet\<close> of \<^verbatim>\<open>server/src/tcp_server.c\<close>, the timer of the server built without
  \<open>USE_AESD_CHAR_DEVICE\<close> (\<open>thread_timer\<close> in \<^verbatim>\<open>server/src/connection_manager.c\<close>), and what the server's
  handling of a message does to a regular file.

  A file system maps paths to contents. Which paths can be opened, and how much of what is printed
  into a stream reaches the file by the time it is closed, is the parameter \<open>fs_api\<close>.
\<close>

type_synonym path = "byte list"
type_synonym files = "path \<rightharpoonup> byte list"

subsection \<open>Streams for writing and appending\<close>

record fs_api =
  may_open :: "path \<Rightarrow> files \<Rightarrow> bool"
  stored :: "byte list \<Rightarrow> nat"

text \<open>Enough room for everything that is printed.\<close>

definition stores_all :: "fs_api \<Rightarrow> bool" where
  "stores_all A \<longleftrightarrow> (\<forall>bs. length bs \<le> stored A bs)"

definition fopen_w :: "fs_api \<Rightarrow> path \<Rightarrow> files \<Rightarrow> files option" where
  "fopen_w A p fs = (if may_open A p fs then Some (fs(p \<mapsto> [])) else None)"

definition fopen_a :: "fs_api \<Rightarrow> path \<Rightarrow> files \<Rightarrow> files option" where
  "fopen_a A p fs = (if may_open A p fs then Some (fs(p \<mapsto> (case fs p of None \<Rightarrow> [] | Some bs \<Rightarrow> bs))) else None)"

text \<open>\<open>fprintf\<close> followed by \<open>fclose\<close> on a stream opened by one of these.\<close>

definition print_close :: "fs_api \<Rightarrow> path \<Rightarrow> byte list \<Rightarrow> files \<Rightarrow> files" where
  "print_close A p bs fs = fs(p := map_option (\<lambda>old. old @ take (stored A bs) bs) (fs p))"

subsection \<open>The writer program\<close>

datatype priority = LOG_ERR | LOG_DEBUG

datatype log_message = Invalid_Number_Of_Arguments int | Writing "byte list" path | Unable_To_Open path

type_synonym log_entry = "priority \<times> log_message"

text \<open>The result is the exit code, the files, and the messages sent to the system log.\<close>

definition writer_main :: "fs_api \<Rightarrow> byte list list \<Rightarrow> files \<Rightarrow> nat \<times> files \<times> log_entry list" where
  "writer_main A argv fs =
     (if length argv \<noteq> 3 then (1, fs, [(LOG_ERR, Invalid_Number_Of_Arguments (int (length argv) - 1))])
      else let filestr = argv ! 1; writestr = argv ! 2; written = (LOG_DEBUG, Writing writestr filestr) in
        (case fopen_w A filestr fs of
           None \<Rightarrow> (1, fs, [written, (LOG_ERR, Unable_To_Open filestr)])
         | Some fs \<Rightarrow> (0, print_close A filestr writestr fs, [written])))"

subsection \<open>Appending in the server\<close>

text \<open>\<open>None\<close> is \<open>exit(-1)\<close>.\<close>

definition packet_file :: path where
  "packet_file = ''/var/tmp/aesdsocketdata''"

definition save_packet :: "fs_api \<Rightarrow> byte list \<Rightarrow> files \<Rightarrow> files option" where
  "save_packet A packet fs =
     (case fopen_a A packet_file fs of None \<Rightarrow> None
      | Some fs \<Rightarrow> Some (print_close A packet_file (packet @ [newline]) fs))"

text \<open>The timer's thread shares the file and its mutex with the connections. \<open>outstr\<close> is what \<open>strftime\<close>
  made of the current time. The outer option is waiting for a mutex that stays locked, the inner one
  the end of the program by \<open>exit(-1)\<close>.\<close>

definition timestamp :: "byte list \<Rightarrow> byte list" where
  "timestamp outstr = ''timestamp: '' @ outstr @ [newline]"

definition thread_timer :: "fs_api \<Rightarrow> byte list \<Rightarrow> path \<Rightarrow> files tstate \<Rightarrow> files tstate option option" where
  "thread_timer A outstr fname t = do {
     t \<leftarrow> pthread_mutex_lock t;
     (case fopen_a A fname (tf t) of
        None \<Rightarrow> Some None
      | Some fs \<Rightarrow>
          let t = t\<lparr>tf := print_close A fname (timestamp outstr) fs\<rparr>
          in Some (Some (pthread_mutex_unlock t)))
   }"

subsection \<open>A regular file opened with r+\<close>

text \<open>A regular file as the server of that build uses it: the contents, if the file exists, and the position
  of the open file. Opening does not create the file, writing overwrites from the position on, and
  the seek command is not known.\<close>

record reg_file =
  rdata :: "byte list option"
  rpos :: nat

definition reg_write :: "byte list \<Rightarrow> reg_file \<Rightarrow> (ssize_t \<times> reg_file) option" where
  "reg_write bs f = (case rdata f of None \<Rightarrow> None
     | Some d \<Rightarrow> Some (word_of_nat (length bs), \<lparr>rdata = Some (take (rpos f) d @ bs @ drop (rpos f + length bs) d), rpos = rpos f + length bs\<rparr>))"

definition reg_rest :: "reg_file \<Rightarrow> byte list" where
  "reg_rest f = (case rdata f of None \<Rightarrow> [] | Some d \<Rightarrow> drop (rpos f) d)"

definition reg_read :: "reg_file reader" where
  "reg_read n f = Some (Some (take n (reg_rest f)), f\<lparr>rpos := rpos f + length (take n (reg_rest f))\<rparr>)"

definition regular_file :: "reg_file sys_file" where
  "regular_file = \<lparr>sys_open = (\<lambda>f. (rdata f \<noteq> None, f\<lparr>rpos := 0\<rparr>)), sys_write = reg_write, sys_read = reg_read,
     sys_ioctl = (\<lambda>cmd st f. Some (- 1, f)), sys_close = (\<lambda>f. f)\<rparr>"

subsection \<open>Writing over a regular file\<close>

definition reg_put :: "byte list \<Rightarrow> reg_file \<Rightarrow> reg_file" where
  "reg_put bs f = \<lparr>rdata = map_option (\<lambda>d. take (rpos f) d @ bs @ drop (rpos f + length bs) d) (rdata f), rpos = rpos f + length bs\<rparr>"

definition inside :: "reg_file \<Rightarrow> bool" where
  "inside f \<longleftrightarrow> (\<exists>d. rdata f = Some d \<and> rpos f \<le> length d)"

lemma reg_put_Nil [simp]: "inside f \<Longrightarrow> reg_put [] f = f"
  by (cases f) (auto simp: reg_put_def inside_def)

lemma inside_put: "inside f \<Longrightarrow> inside (reg_put bs f)"
  by (auto simp: inside_def reg_put_def)

lemma reg_put_append: "inside f \<Longrightarrow> reg_put (bs @ cs) f = reg_put cs (reg_put bs f)"
  by (auto simp: inside_def reg_put_def ac_simps)

lemma write_all_regular:
  assumes "inside f" and "length bs < 2 ^ 31"
  shows "write_all regular_file bs f = Some (True, reg_put bs f)"
proof (cases "bs = []")
  case True
  then show ?thesis using assms(1) by (subst write_all.simps) simp
next
  case False
  have "sint (word_of_nat (length bs) :: ssize_t) = int (length bs)"
    by (rule sint_word_of_nat) (use assms(2) in simp)
  moreover have "unat (word_of_nat (length bs) :: ssize_t) = length bs"
    by (rule unat_word_of_nat) (use assms(2) in simp)
  moreover have "write_all regular_file [] f' = Some (True, f')" for f'
    by (subst write_all.simps) simp
  moreover have "reg_write bs f = Some (word_of_nat (length bs), reg_put bs f)"
    using assms(1) by (auto simp: reg_write_def reg_put_def inside_def)
  ultimately show ?thesis using False by (subst write_all.simps) (simp add: regular_file_def)
qed

lemma write_chunks_regular:
  "inside f \<Longrightarrow> length (concat chs) < 2 ^ 31 \<Longrightarrow> write_chunks regular_file chs f = Some (True, [], reg_put (concat chs) f)"
proof (induction chs arbitrary: f)
  case (Cons ch chs)
  then show ?case
    using write_all_regular [of f ch] Cons.IH [of "reg_put ch f"] inside_put [of f ch] by (simp add: reg_put_append)
qed simp

lemma handle_regular:
  assumes "stdio_ok io" and "inside (sfile fd)" and "obuf fd = []" and "decode_ioctl_command m = Some None" and "length m + 1 < 2 ^ 31"
  shows "handle_message io regular_file m fd =
    Some (word_of_nat (length m + 1), \<lparr>sfile = reg_put (m @ [newline]) (sfile fd), obuf = []\<rparr>)"
proof -
  obtain chs keep where io: "split_out io (m @ [newline]) = (chs, keep)" by fastforce
  then have cat: "concat chs @ keep = m @ [newline]"
    using assms(1) by (metis fst_conv snd_conv stdio_ok_def)
  have len: "length (concat chs) + length keep = length m + 1"
    using arg_cong [OF cat, of length] by simp
  have "write_chunks regular_file chs (sfile fd) = Some (True, [], reg_put (concat chs) (sfile fd))"
    by (rule write_chunks_regular [OF assms(2)]) (use len assms(5) in simp)
  moreover have "write_all regular_file keep (reg_put (concat chs) (sfile fd)) = Some (True, reg_put keep (reg_put (concat chs) (sfile fd)))"
    by (rule write_all_regular [OF inside_put [OF assms(2)]]) (use len assms(5) in simp)
  ultimately show ?thesis
    using assms(3,4) io by (simp add: handle_message_def fprintf_line_def fflush_def reg_put_append [OF assms(2), symmetric] cat)
qed

text \<open>Reading a regular file through a flushed stream delivers the bytes from the position on.\<close>

interpretation regular: chunk_reader "\<lambda>st. rdata (sfile st) = d \<and> obuf st = []" "stream_read regular_file" "\<lambda>st. reg_rest (sfile st)"
proof unfold_locales
  fix st :: "reg_file stream" and n :: nat
  assume st: "rdata (sfile st) = d \<and> obuf st = []" and n: "0 < n" "n \<le> 4096"
  let ?bs = "take n (reg_rest (sfile st))"
  let ?st = "st\<lparr>sfile := (sfile st)\<lparr>rpos := rpos (sfile st) + length ?bs\<rparr>\<rparr>"
  have "stream_read regular_file n st = Some (Some ?bs, ?st)"
    by (simp add: stream_read_def regular_file_def reg_read_def)
  moreover have "reg_rest (sfile ?st) = drop (length ?bs) (reg_rest (sfile st))"
    by (cases "rdata (sfile st)") (simp_all add: reg_rest_def add.commute)
  then have "reg_rest (sfile st) = ?bs @ reg_rest (sfile ?st)"
    by (simp add: min_def)
  moreover have "?bs = [] \<longrightarrow> reg_rest (sfile st) = []" using n(1) by simp
  ultimately show "\<exists>bs st'. stream_read regular_file n st = Some (Some bs, st') \<and> (rdata (sfile st') = d \<and> obuf st' = []) \<and>
      length bs \<le> n \<and> reg_rest (sfile st) = bs @ reg_rest (sfile st') \<and> (bs = [] \<longrightarrow> reg_rest (sfile st) = [])"
    using st by (intro exI [of _ ?bs] exI [of _ ?st]) simp
qed

subsection \<open>Properties\<close>

text \<open>The writer exits with 0 exactly when it got two arguments and could open the file; then the file holds the
  stored part of the text and nothing else, all other files are unchanged and the attempt is logged.
  Otherwise it exits with 1, changes no file, and logs an error. Text that did not fit is lost
  without a trace: the exit code is 0 all the same.\<close>

lemma writer_main_correct:
  "(\<forall>prog file str. writer_main A [prog, file, str] fs =
      (if may_open A file fs then (0, fs(file \<mapsto> take (stored A str) str), [(LOG_DEBUG, Writing str file)])
       else (1, fs, [(LOG_DEBUG, Writing str file), (LOG_ERR, Unable_To_Open file)]))) \<and>
   (length argv = 3 \<or> writer_main A argv fs = (1, fs, [(LOG_ERR, Invalid_Number_Of_Arguments (int (length argv) - 1))]))"
  by (auto simp: writer_main_def fopen_w_def print_close_def)

lemma append_print:
  assumes "stores_all A"
  shows "print_close A p bs (fs(p \<mapsto> d)) = fs(p \<mapsto> d @ bs)"
  using assms by (simp add: print_close_def stores_all_def)

text \<open>Both ways the server can append to its file, a packet and the timer's time stamp, add exactly one line at
  the end of the file, create the file if there is none and leave every other file alone; the timer
  does so with the mutex taken and gives it back. If the file cannot be opened the program ends.\<close>

lemma appending_adds_one_line:
  assumes "stores_all A" and "tmutex t = Unlocked"
  shows "thread_timer A outstr fname t = Some (if may_open A fname (tf t)
      then Some (t\<lparr>tf := (tf t)(fname \<mapsto> (case tf t fname of None \<Rightarrow> [] | Some d \<Rightarrow> d) @ ''timestamp: '' @ outstr @ [newline])\<rparr>)
      else None) \<and>
    save_packet A packet fs = (if may_open A packet_file fs
      then Some (fs(packet_file \<mapsto> (case fs packet_file of None \<Rightarrow> [] | Some d \<Rightarrow> d) @ packet @ [newline]))
      else None)"
proof -
  note app = append_print [OF assms(1)]
  have "pthread_mutex_unlock (t\<lparr>tmutex := Locked, tf := f\<rparr>) = t\<lparr>tf := f\<rparr>" for f
    using assms(2) by (cases t) (simp add: pthread_mutex_unlock_def)
  then have "thread_timer A outstr fname t = Some (if may_open A fname (tf t)
      then Some (t\<lparr>tf := (tf t)(fname \<mapsto> (case tf t fname of None \<Rightarrow> [] | Some d \<Rightarrow> d) @ timestamp outstr)\<rparr>) else None)"
    using assms(2) by (simp add: thread_timer_def pthread_mutex_lock_def fopen_a_def app)
  moreover have "save_packet A packet fs = (if may_open A packet_file fs
      then Some (fs(packet_file \<mapsto> (case fs packet_file of None \<Rightarrow> [] | Some d \<Rightarrow> d) @ packet @ [newline])) else None)"
    by (simp add: save_packet_def fopen_a_def app)
  ultimately show ?thesis by (simp add: timestamp_def)
qed

definition roomy_fs :: fs_api where
  "roomy_fs = \<lparr>may_open = (\<lambda>p fs. True), stored = length\<rparr>"

definition empty_fs_thread :: "files tstate" where
  "empty_fs_thread = \<lparr>tp = sample_pstate [], tf = Map.empty, tmutex = Unlocked\<rparr>"

lemma appending_adds_one_line_witness:
  "thread_timer roomy_fs ''noon'' packet_file empty_fs_thread =
      Some (Some (empty_fs_thread\<lparr>tf := [packet_file \<mapsto> ''timestamp: noon'' @ [newline]]\<rparr>)) \<and>
    save_packet roomy_fs ''b'' [packet_file \<mapsto> ''a''] = Some [packet_file \<mapsto> ''ab'' @ [newline]]"
  using appending_adds_one_line [of roomy_fs empty_fs_thread "''noon''" packet_file "''b''" "[packet_file \<mapsto> ''a'']"]
  by (simp add: roomy_fs_def stores_all_def empty_fs_thread_def)

text \<open>C25: Served from a regular file, as in the build without the character device, a line is written over the
  beginning of the file instead of being appended, and the client is sent only the old bytes that
  follow, not the contents with its line. If the file does not exist yet it is not created:
  nothing is sent and the received message stays allocated.\<close>

theorem regular_file_is_overwritten:
  assumes "stdio_ok io" and "tmutex t = Unlocked" and "conns (tp t) c = Some conn" and "whole_sends (pnet (tp t))"
    and "pheap (tp t) a = Some bs" and "cstring (pheap (tp t)) (Ptr a) = m" and "decode_ioctl_command m = Some None" and "length m + 1 < 2 ^ 31"
  shows "case rdata (tf t) of
      None \<Rightarrow> serve_message io regular_file (Ptr c) (Ptr a) t = Some (t\<lparr>tf := (tf t)\<lparr>rpos := 0\<rparr>\<rparr>)
    | Some old \<Rightarrow> \<exists>n p. serve_message io regular_file (Ptr c) (Ptr a) t = Some (t
        \<lparr>tp := (tp t)\<lparr>pnet := sent_net (socket conn) (drop (length m + 1) old) n (pnet (tp t)), pheap := (pheap (tp t))(a := None)\<rparr>,
         tf := \<lparr>rdata = Some (m @ [newline] @ drop (length m + 1) old), rpos = p\<rparr>\<rparr>)"
proof (cases "rdata (tf t)")
  case None
  then show ?thesis by (simp add: serve_message_def fopen_update_def regular_file_def)
next
  case (Some old)
  let ?f = "(tf t)\<lparr>rpos := 0\<rparr>"
  let ?fd = "\<lparr>sfile = reg_put (m @ [newline]) ?f, obuf = []\<rparr>"
  have f: "inside ?f" using Some by (simp add: inside_def)
  have h: "handle_message io regular_file m \<lparr>sfile = ?f, obuf = []\<rparr> = Some (word_of_nat (length m + 1), ?fd)"
    using handle_regular [OF assms(1) _ _ assms(7,8), of "\<lparr>sfile = ?f, obuf = []\<rparr>"] f by simp
  have r: "0 \<le> sint (word_of_nat (length m + 1) :: cint)"
    using sint_word_of_nat [of "length m + 1", where 'a = 32] assms(8) by simp
  have put: "rdata (sfile ?fd) = Some (m @ [newline] @ drop (length m + 1) old) \<and> obuf ?fd = []"
      "reg_rest (sfile ?fd) = drop (length m + 1) old"
    using Some by (simp_all add: reg_put_def reg_rest_def)
  obtain fd2 n where s: "tcp_connection_send_file (stream_read regular_file) (Ptr c) ?fd (tp t) =
        Some (True, fd2, (tp t)\<lparr>pnet := sent_net (socket conn) (drop (length m + 1) old) n (pnet (tp t))\<rparr>)"
      "rdata (sfile fd2) = Some (m @ [newline] @ drop (length m + 1) old)" "obuf fd2 = []"
    using regular.send_file_complete [OF put(1) assms(3)] assms(4) put(2) by (auto simp: whole_sends_def)
  have cl: "fclose io regular_file fd2 = Some (sfile fd2)"
    using s(3) by (simp add: fclose_def fflush_def regular_file_def write_all.simps [of _ "[]"])
  have op: "sys_open regular_file (tf t) = (True, ?f)" using Some by (simp add: regular_file_def)
  have mutex: "t\<lparr>tmutex := Unlocked\<rparr> = t" using assms(2) by simp
  have "serve_message io regular_file (Ptr c) (Ptr a) t = Some (t\<lparr>tmutex := Unlocked\<rparr>
      \<lparr>tp := (tp t)\<lparr>pnet := sent_net (socket conn) (drop (length m + 1) old) n (pnet (tp t)), pheap := (pheap (tp t))(a := None)\<rparr>,
       tf := sfile fd2\<rparr>)"
    using h r s(1) cl assms(2,5,6)
    by (simp add: serve_message_def fopen_update_def op pthread_mutex_lock_def pthread_mutex_unlock_def)
  moreover have "sfile fd2 = \<lparr>rdata = Some (m @ [newline] @ drop (length m + 1) old), rpos = rpos (sfile fd2)\<rparr>"
    using s(2) by simp
  ultimately show ?thesis
    unfolding mutex Some option.case by metis
qed

text \<open>A client sends \<open>one\<close> to a server whose file holds a line \<open>abcdef\<close>: the file becomes \<open>one\<close> and \<open>ef\<close>, and
  only the latter is sent.\<close>

definition overwriting_thread :: "reg_file tstate" where
  "overwriting_thread = \<lparr>tp = (sample_pstate [])\<lparr>pheap := [7 \<mapsto> ''one'' @ [nul]]\<rparr>,
     tf = \<lparr>rdata = Some (''abcdef'' @ [newline]), rpos = 0\<rparr>, tmutex = Unlocked\<rparr>"

theorem regular_file_is_overwritten_witness:
  "\<exists>n p. serve_message \<lparr>split_out = (\<lambda>bs. ([], bs)), retained = (\<lambda>bs. bs)\<rparr> regular_file (Ptr 1) (Ptr 7) overwriting_thread = Some (overwriting_thread
        \<lparr>tp := (tp overwriting_thread)\<lparr>pnet := sent_net (socket sample_conn) (''ef'' @ [newline]) n (pnet (tp overwriting_thread)),
           pheap := (pheap (tp overwriting_thread))(7 := None)\<rparr>,
         tf := \<lparr>rdata = Some (''one'' @ [newline] @ ''ef'' @ [newline]), rpos = p\<rparr>\<rparr>)"
proof -
  have "decode_ioctl_command ''one'' = Some None" by (rule decode_no_prefix) (simp add: seek_prefix_def)
  from regular_file_is_overwritten [OF _ _ _ _ _ _ this, where t = overwriting_thread and c = 1 and a = 7 and conn = sample_conn
      and io = "\<lparr>split_out = (\<lambda>bs. ([], bs)), retained = (\<lambda>bs. bs)\<rparr>"]
  show ?thesis
    by (simp add: overwriting_thread_def stdio_ok_def sample_pstate_def whole_sends_def cstring_def)
qed

end
