(* ===== verification/Timer_Build.thy ===== *)
theory Timer_Build
  imports Plain_File Server_Main
begin

text \<open>
  What the build without \<open>USE_AESD_CHAR_DEVICE\<close> adds to the connection manager and to \<^verbatim>\<open>main.c\<close>: the
  periodic timer that appends time stamps to the file, and the removal of the file at the end. The
  state extends the manager's by the timers that are armed, each for one manager. Destroying the
  manager is cut in two at the point where the mutex is gone and the timer is not.
\<close>

record timed =
  tb :: mstate
  timers :: "nat \<rightharpoonup> nat"
  timerid :: "nat \<rightharpoonup> nat"
  tfiles :: files

subsection \<open>Operations\<close>

definition PLAIN_FILENAME :: path where
  "PLAIN_FILENAME = ''/var/tmp/aesdsocketdata''"

text \<open>\<open>new_timer\<close> is \<open>timer_create\<close>: an unused timer, or failure, which ends the program. The timer is armed
  with a first expiry and a period of ten seconds; when it expires is up to the environment.\<close>

definition create_timed ::
  "libc \<Rightarrow> (nat set \<Rightarrow> nat option) \<Rightarrow> byte list \<Rightarrow> timed \<Rightarrow> (exit_status + (ptr \<times> timed)) option" where
  "create_timed L new_timer fname s = do {
     (mgr, ms) \<leftarrow> connection_manager_create L fname (tb s);
     (case mgr of NULL \<Rightarrow> None
      | Ptr m \<Rightarrow> (case new_timer (dom (timers s)) of
          None \<Rightarrow> Some (Inl (Exit (- 1)))
        | Some tid \<Rightarrow> Some (Inr (mgr, s\<lparr>tb := ms, timers := (timers s)(tid \<mapsto> m), timerid := (timerid s)(m \<mapsto> tid)\<rparr>))))
   }"

text \<open>The first part of \<open>connection_manager_destroy\<close>: joining all threads and \<open>pthread_mutex_destroy\<close>.\<close>

definition destroy_mutex :: "pthreads \<Rightarrow> nat \<Rightarrow> timed \<Rightarrow> timed option" where
  "destroy_mutex T m s = do {
     mgr \<leftarrow> managers (tb s) m;
     ms \<leftarrow> destroy_loop T m ((tb s)\<lparr>managers := (managers (tb s))(m \<mapsto> mgr\<lparr>close_connections := True\<rparr>)\<rparr>);
     mgr \<leftarrow> managers ms m;
     Some (s\<lparr>tb := ms\<lparr>managers := (managers ms)(m \<mapsto> mgr\<lparr>file_mutex := Mutex_Zero\<rparr>)\<rparr>\<rparr>)
   }"

text \<open>The rest: \<open>timer_delete\<close> and the releases.\<close>

definition destroy_timer :: "nat \<Rightarrow> timed \<Rightarrow> timed option" where
  "destroy_timer m s = do {
     mgr \<leftarrow> managers (tb s) m;
     tid \<leftarrow> timerid s m;
     h \<leftarrow> cfree (filename mgr) (pheap (mp (tb s)));
     Some (s\<lparr>tb := (tb s)\<lparr>mp := (mp (tb s))\<lparr>pheap := h\<rparr>, managers := (managers (tb s))(m := None)\<rparr>,
       timers := (timers s)(tid := None), timerid := (timerid s)(m := None)\<rparr>)
   }"

definition destroy_timed :: "pthreads \<Rightarrow> ptr \<Rightarrow> timed \<Rightarrow> timed option" where
  "destroy_timed T mgr_ptr s = (case mgr_ptr of NULL \<Rightarrow> Some s
     | Ptr m \<Rightarrow> do { s \<leftarrow> destroy_mutex T m s; destroy_timer m s })"

text \<open>The expiry of a timer runs \<open>thread_timer\<close> on its manager. The inner option is \<open>exit(-1)\<close>.\<close>

definition timer_expires :: "fs_api \<Rightarrow> byte list \<Rightarrow> nat \<Rightarrow> timed \<Rightarrow> timed option option" where
  "timer_expires A outstr tid s = do {
     m \<leftarrow> timers s tid;
     mgr \<leftarrow> managers (tb s) m;
     r \<leftarrow> thread_timer A outstr (cstring (pheap (mp (tb s))) (filename mgr)) \<lparr>tp = mp (tb s), tf = tfiles s, tmutex = file_mutex mgr\<rparr>;
     Some (case r of None \<Rightarrow> None
       | Some t \<Rightarrow> Some (s\<lparr>tfiles := tf t, tb := (tb s)\<lparr>managers := (managers (tb s))(m \<mapsto> mgr\<lparr>file_mutex := tmutex t\<rparr>)\<rparr>\<rparr>))
   }"

text \<open>\<open>teardown\<close> of \<^verbatim>\<open>main.c\<close>: removing the file may fail, which is only reported.\<close>

definition teardown :: "(path \<Rightarrow> bool) \<Rightarrow> timed \<Rightarrow> timed" where
  "teardown remove_ok s = (if remove_ok PLAIN_FILENAME then s\<lparr>tfiles := (tfiles s)(PLAIN_FILENAME := None)\<rparr> else s)"

subsection \<open>The timer of a living manager\<close>

text \<open>As long as the manager lives and nobody holds its mutex, an expiry appends one time stamp and leaves the
  rest alone.\<close>

lemma timer_expires_appends:
  assumes "timers s tid = Some m" and "managers (tb s) m = Some mgr" and "file_mutex mgr = Unlocked" and "stores_all A"
    and "may_open A (cstring (pheap (mp (tb s))) (filename mgr)) (tfiles s)"
  shows "timer_expires A outstr tid s = Some (Some (s\<lparr>tfiles := (tfiles s)(cstring (pheap (mp (tb s))) (filename mgr) \<mapsto>
    (case tfiles s (cstring (pheap (mp (tb s))) (filename mgr)) of None \<Rightarrow> [] | Some d \<Rightarrow> d) @ timestamp outstr)\<rparr>))"
proof -
  let ?f = "cstring (pheap (mp (tb s))) (filename mgr)" and ?t = "\<lparr>tp = mp (tb s), tf = tfiles s, tmutex = file_mutex mgr\<rparr>"
  have "thread_timer A outstr ?f ?t = Some (Some (?t\<lparr>tf := (tfiles s)(?f \<mapsto>
      (case tfiles s ?f of None \<Rightarrow> [] | Some d \<Rightarrow> d) @ timestamp outstr)\<rparr>))"
    using appending_adds_one_line [OF assms(4), of ?t outstr ?f] assms(3,5) by (simp add: timestamp_def)
  moreover have "(tb s)\<lparr>managers := (managers (tb s))(m \<mapsto> mgr)\<rparr> = tb s"
    using assms(2) by (simp add: fun_upd_idem)
  ultimately show ?thesis using assms(1,2) by (simp add: timer_expires_def)
qed

subsection \<open>Property\<close>

text \<open>C40: Shutting down the timed server joins every thread once, releases the manager and disarms its timer. But the
  mutex is destroyed before the timer is deleted: in between the timer is still armed, and if it
  expires there, its thread locks a destroyed mutex, which has no defined outcome.\<close>

theorem timer_outlives_mutex:
  assumes "manager_rep m G (tb s) tids" and "managers (tb s) m = Some mgr" and "\<forall>tid\<in>set tids. ends T tid"
    and "set (addrs (filename mgr)) \<subseteq> dom (pheap (mp (tb s)))" and "timerid s m = Some tm" and "timers s tm = Some m"
  shows "\<exists>s1 s2. destroy_mutex T m s = Some s1 \<and> timers s1 tm = Some m \<and> timer_expires A outstr tm s1 = None \<and>
    destroy_timer m s1 = Some s2 \<and> destroy_timed T (Ptr m) s = Some s2 \<and>
    joined (tb s2) = joined (tb s) @ tids \<and> timers s2 = (timers s)(tm := None) \<and> managers (tb s2) = (managers (tb s))(m := None)"
proof -
  obtain ms mgr1 where ms: "destroy_loop T m ((tb s)\<lparr>managers := (managers (tb s))(m \<mapsto> mgr\<lparr>close_connections := True\<rparr>)\<rparr>) = Some ms"
      "managers ms m = Some mgr1" "filename mgr1 = filename mgr" "mp ms = mp (tb s)"
      "joined ms = joined (tb s) @ tids" "\<And>x. x \<noteq> m \<Longrightarrow> managers ms x = managers (tb s) x"
    using destroy_loop_joins [OF assms(1-3)] by blast
  let ?s1 = "s\<lparr>tb := ms\<lparr>managers := (managers ms)(m \<mapsto> mgr1\<lparr>file_mutex := Mutex_Zero\<rparr>)\<rparr>\<rparr>"
  have s1: "destroy_mutex T m s = Some ?s1"
    using assms(2) ms(1,2) by (simp add: destroy_mutex_def)
  have "timer_expires A outstr tm ?s1 = None"
    using assms(6) by (simp add: timer_expires_def thread_timer_def pthread_mutex_lock_def)
  moreover have "(managers ms)(m := None) = (managers (tb s))(m := None)" using ms(6) by (auto simp: fun_eq_iff)
  moreover have "\<exists>s2. destroy_timer m ?s1 = Some s2 \<and> joined (tb s2) = joined ms \<and> timers s2 = (timers s)(tm := None) \<and>
      managers (tb s2) = (managers ms)(m := None)"
    using assms(4,5) ms(3,4) cfree_restrict [of "filename mgr" "pheap (mp (tb s))"] by (simp add: destroy_timer_def)
  ultimately show ?thesis
    using s1 ms(5) assms(6) by (auto simp: destroy_timed_def)
qed

definition sample_timed :: timed where
  "sample_timed = \<lparr>tb = sample_mstate, timers = [7 \<mapsto> 0], timerid = [0 \<mapsto> 7], tfiles = Map.empty\<rparr>"

theorem timer_outlives_mutex_witness:
  "\<exists>s1 s2. destroy_mutex sample_threads 0 sample_timed = Some s1 \<and> timers s1 7 = Some 0 \<and> timer_expires roomy_fs ''noon'' 7 s1 = None \<and>
    destroy_timer 0 s1 = Some s2 \<and> destroy_timed sample_threads (Ptr 0) sample_timed = Some s2 \<and>
    joined (tb s2) = joined (tb sample_timed) @ [1] \<and> timers s2 = (timers sample_timed)(7 := None) \<and>
    managers (tb s2) = (managers (tb sample_timed))(0 := None)"
  by (rule timer_outlives_mutex [where G = "{}" and mgr = "the (managers sample_mstate 0)"])
    (use sample_manager_rep in \<open>simp_all add: sample_timed_def sample_mstate_def sample_threads_def\<close>)

end
