(* ===== verification/Systemcalls.thy ===== *)
theory Systemcalls
  imports Aesd_Prelude
begin

unbundle bit_operations_syntax

text \<open>
  Running other programs: \<^verbatim>\<open>examples/systemcalls/systemcalls.c\<close>. Each function is modelled
  from the view of the process that executes it, so after a \<open>fork\<close> there is the parent's view and
  the child's: which one is taken depends on the value that \<open>fork\<close> returned. What the operating
  system answers is the parameter \<open>exec_env\<close>. Descriptors map to the files behind them, and a pointer
  to a string is \<open>None\<close> for \<open>NULL\<close>.

  The lemmas put the two views together: the status the parent collects is the one of the program
  the child became, so the parent's result can be stated in terms of that program.
\<close>

type_synonym fd_map = "nat \<rightharpoonup> byte list"
type_synonym cstr = "byte list option"

record exec_env =
  fork_pid :: cint
  execv_ok :: "cstr list \<Rightarrow> bool"
  waitpid :: "cint \<Rightarrow> cint \<times> cint"
  open_fd :: "byte list \<Rightarrow> fd_map \<Rightarrow> nat option"
  dup2_ok :: bool

text \<open>How a call ends in the process that runs it: it returns to its caller, the process image is
  replaced by a program that runs with the given arguments and descriptors, or the process aborts.\<close>

datatype outcome = Returns bool fd_map | Executes "cstr list" fd_map | Aborts

subsection \<open>Wait status\<close>

text \<open>The macros of \<^verbatim>\<open>sys/wait.h\<close>: a process that called \<open>exit\<close> leaves its code in the second byte, a process
  that a signal ended leaves the signal's number in the low seven bits, with \<open>0x80\<close> for a core dump.\<close>

definition WIFEXITED :: "cint \<Rightarrow> bool" where
  "WIFEXITED status \<longleftrightarrow> status AND 0x7F = 0"

definition WEXITSTATUS :: "cint \<Rightarrow> cint" where
  "WEXITSTATUS status = drop_bit 8 (status AND 0xFF00)"

datatype ending = Exited uint8 | Signalled nat bool

fun wait_status :: "ending \<Rightarrow> cint" where
  "wait_status (Exited code) = push_bit 8 (ucast code)"
| "wait_status (Signalled sig core) = word_of_nat sig OR (if core then 0x80 else 0)"

fun real_ending :: "ending \<Rightarrow> bool" where
  "real_ending (Exited code) = True"
| "real_ending (Signalled sig core) = (0 < sig \<and> sig < 0x7F)"

subsection \<open>Operations\<close>

text \<open>\<open>system\<close> is a parameter: the shell's wait status for a command, or for \<open>NULL\<close> whether there is a
  shell.\<close>

definition do_system :: "(cstr \<Rightarrow> cint) \<Rightarrow> cstr \<Rightarrow> bool" where
  "do_system system cmd =
     (let ret = system cmd in
      case cmd of Some _ \<Rightarrow> ret \<noteq> - 1 \<and> WIFEXITED ret \<and> WEXITSTATUS ret = 0 | None \<Rightarrow> ret \<noteq> 0)"

text \<open>The loop both functions start with: \<open>count\<close> arguments are fetched with \<open>va_arg\<close> into an array of
  \<open>count + 1\<close> entries whose last one is \<open>NULL\<close>. Fetching more arguments than were passed is
  undefined.\<close>

fun fetch_args :: "nat \<Rightarrow> cstr list \<Rightarrow> cstr list option" where
  "fetch_args 0 args = Some [None]"
| "fetch_args (Suc n) [] = None"
| "fetch_args (Suc n) (a # args) = map_option ((#) a) (fetch_args n args)"

text \<open>The parent's part, the same in both functions.\<close>

definition await :: "exec_env \<Rightarrow> cint \<Rightarrow> bool" where
  "await E pid = (case waitpid E pid of (r, status) \<Rightarrow> r \<noteq> - 1 \<and> WIFEXITED status \<and> WEXITSTATUS status = 0)"

definition do_exec :: "exec_env \<Rightarrow> nat \<Rightarrow> cstr list \<Rightarrow> fd_map \<Rightarrow> outcome option" where
  "do_exec E count args fm = do {
     command \<leftarrow> fetch_args count args;
     let pid = fork_pid E;
     Some (if pid = - 1 then Returns False fm
           else if pid = 0 then if execv_ok E command then Executes command fm else Aborts
           else Returns (await E pid) fm)
   }"

definition do_exec_redirect :: "exec_env \<Rightarrow> byte list \<Rightarrow> nat \<Rightarrow> cstr list \<Rightarrow> fd_map \<Rightarrow> outcome option" where
  "do_exec_redirect E outputfile count args fm = do {
     command \<leftarrow> fetch_args count args;
     Some (case open_fd E outputfile fm of None \<Rightarrow> Returns False fm
      | Some fd \<Rightarrow>
          let fm = fm(fd \<mapsto> outputfile); pid = fork_pid E in
          if pid = - 1 then Returns False fm
          else if pid = 0
          then if \<not> dup2_ok E then Returns False (fm(fd := None))
               else let fm = fm(1 := fm fd, fd := None) in
                 if execv_ok E command then Executes command fm else Returns False fm
          else Returns (await E pid) fm)
   }"

subsection \<open>Reading the wait status\<close>

lemma WIFEXITED_exited [simp]: "WIFEXITED (wait_status (Exited code))"
proof -
  have "push_bit 8 (ucast code :: cint) AND mask 7 = 0"
    by (simp flip: take_bit_eq_mask) (simp add: take_bit_push_bit)
  then show ?thesis by (simp add: WIFEXITED_def mask_numeral mask_eq_exp_minus_1)
qed

lemma WEXITSTATUS_exited [simp]: "WEXITSTATUS (wait_status (Exited code)) = ucast code"
proof -
  have "drop_bit 8 (push_bit 8 (ucast code :: cint)) = ucast code"
    by (rule bit_word_eqI) (auto simp: bit_simps dest: bit_imp_le_length)
  moreover have "(ucast code :: cint) AND 0xFF = ucast code"
  proof -
    have "(ucast code :: cint) AND mask 8 = ucast code"
      by (rule bit_word_eqI) (auto simp: bit_simps dest: bit_imp_le_length)
    then show ?thesis by (simp add: mask_eq_exp_minus_1)
  qed
  ultimately show ?thesis by (simp add: WEXITSTATUS_def)
qed

lemma signalled_low_bits:
  assumes "sig < 0x7F"
  shows "wait_status (Signalled sig core) AND 0x7F = word_of_nat sig"
proof -
  have "take_bit 7 (word_of_nat sig :: cint) = word_of_nat sig"
    using assms by (simp add: take_bit_nat_eq_self flip: of_nat_take_bit)
  then have "(word_of_nat sig :: cint) AND 0x7F = word_of_nat sig"
    by (simp add: take_bit_eq_mask mask_eq_exp_minus_1)
  then show ?thesis by (cases core) (simp_all add: bit.conj_disj_distrib2)
qed

lemma WIFEXITED_signalled [simp]:
  assumes "0 < sig" and "sig < 0x7F"
  shows "\<not> WIFEXITED (wait_status (Signalled sig core))"
proof -
  have "unat (word_of_nat sig :: cint) = sig" using assms(2) by (simp add: unat_word_of_nat)
  then show ?thesis using assms signalled_low_bits [of sig core] by (auto simp: WIFEXITED_def)
qed

text \<open>The tests of the code single out exactly the endings with exit code 0, and no ending looks like the
  error value \<open>- 1\<close>.\<close>

lemma exit_code_zero:
  assumes "real_ending e"
  shows "WIFEXITED (wait_status e) \<and> WEXITSTATUS (wait_status e) = 0 \<longleftrightarrow> e = Exited 0"
proof (cases e)
  case (Exited code)
  have "(ucast code :: cint) = 0 \<longleftrightarrow> code = 0"
    by (simp add: word_eq_unat unat_ucast_up)
  then show ?thesis using Exited WEXITSTATUS_exited [of code] WIFEXITED_exited [of code] by (simp del: wait_status.simps)
next
  case (Signalled sig core)
  then show ?thesis using assms WIFEXITED_signalled [of sig core] by (simp del: wait_status.simps)
qed

lemma wait_status_ne_minus1:
  assumes "real_ending e"
  shows "wait_status e \<noteq> - 1"
proof (cases e)
  case (Exited code)
  then show ?thesis using WIFEXITED_exited [of code] by (auto simp: WIFEXITED_def simp del: wait_status.simps)
next
  case (Signalled sig core)
  have "unat (word_of_nat sig :: cint) = sig" using Signalled assms by (simp add: unat_word_of_nat)
  then have "word_of_nat sig \<noteq> (0x7F :: cint)" using Signalled assms by (auto simp del: unat_of_nat)
  then show ?thesis using Signalled assms signalled_low_bits [of sig core] by (auto simp del: wait_status.simps)
qed

lemma fetch_args_enough: "fetch_args count args = (if count \<le> length args then Some (take count args @ [None]) else None)"
  by (induction count args rule: fetch_args.induct) simp_all

lemma await_ending:
  assumes "waitpid E pid = (pid, wait_status e)" and "pid \<noteq> - 1" and "real_ending e"
  shows "await E pid \<longleftrightarrow> e = Exited 0"
  using assms exit_code_zero [of e] by (simp add: await_def)

text \<open>How the child process ends: as the program it became (\<open>run\<close>), by the signal of \<open>abort\<close>, or, when
  the function returned in the child too, as the caller's code (\<open>caller\<close>) makes it end.\<close>

fun child_ending :: "(cstr list \<Rightarrow> fd_map \<Rightarrow> ending) \<Rightarrow> (bool \<Rightarrow> fd_map \<Rightarrow> ending) \<Rightarrow> outcome \<Rightarrow> ending" where
  "child_ending run caller (Executes command fm) = run command fm"
| "child_ending run caller Aborts = Signalled 6 True"
| "child_ending run caller (Returns b fm) = caller b fm"

subsection \<open>Properties\<close>

text \<open>For a command, \<open>do_system\<close> returns true exactly when the shell ran and the command exited with code 0:
  a failed \<open>system\<close> call, another exit code and death by a signal all give false. Without a command
  it tells whether there is a shell.\<close>

lemma do_system_success:
  assumes "\<forall>c. system (Some c) = (case shell c of None \<Rightarrow> - 1 | Some e \<Rightarrow> wait_status e)"
    and "\<forall>c e. shell c = Some e \<longrightarrow> real_ending e"
  shows "do_system system cmd = (case cmd of Some c \<Rightarrow> shell c = Some (Exited 0) | None \<Rightarrow> system None \<noteq> 0)"
proof (cases cmd)
  case (Some c)
  with assms(1) have "system cmd = (case shell c of None \<Rightarrow> - 1 | Some e \<Rightarrow> wait_status e)" by simp
  then show ?thesis
    using Some assms(2) exit_code_zero wait_status_ne_minus1
    by (cases "shell c") (auto simp: do_system_def Let_def)
qed (simp add: do_system_def)

text \<open>A shell on which every command but \<open>true\<close> exits with code 1.\<close>

definition sample_shell :: "byte list \<Rightarrow> ending option" where
  "sample_shell c = Some (Exited (if c = ''true'' then 0 else 1))"

definition sample_system :: "cstr \<Rightarrow> cint" where
  "sample_system cmd = (case cmd of Some c \<Rightarrow> (case sample_shell c of None \<Rightarrow> - 1 | Some e \<Rightarrow> wait_status e) | None \<Rightarrow> 1)"

lemma do_system_success_witness:
  "do_system sample_system (Some ''true'') \<and> \<not> do_system sample_system (Some ''false'') \<and> do_system sample_system None"
proof -
  note ok = do_system_success [of sample_system sample_shell]
  have "do_system sample_system cmd = (case cmd of Some c \<Rightarrow> sample_shell c = Some (Exited 0) | None \<Rightarrow> sample_system None \<noteq> 0)" for cmd
    by (rule ok) (simp_all add: sample_system_def sample_shell_def)
  then show ?thesis by (simp add: sample_shell_def sample_system_def)
qed

text \<open>C22: \<open>do_exec\<close> in the parent returns true exactly when the program could be executed with the arguments that
  were passed and it exited with code 0; its descriptors are unchanged. In the child the call never
  returns: the process becomes the program or aborts.\<close>

theorem do_exec_reports_program:
  assumes "count \<le> length args" and "pid \<noteq> - 1" and "pid \<noteq> 0" and "\<forall>c fm. real_ending (run c fm)"
    and "do_exec (E\<lparr>fork_pid := 0\<rparr>) count args fm = Some child"
    and "waitpid E pid = (pid, wait_status (child_ending run caller child))"
  shows "do_exec (E\<lparr>fork_pid := pid\<rparr>) count args fm =
      Some (Returns (execv_ok E (take count args @ [None]) \<and> run (take count args @ [None]) fm = Exited 0) fm) \<and>
    (\<forall>b fm'. child \<noteq> Returns b fm')"
proof -
  have child: "child = (if execv_ok E (take count args @ [None]) then Executes (take count args @ [None]) fm else Aborts)"
    using assms(1,5) by (simp add: do_exec_def fetch_args_enough split: if_splits)
  then have "real_ending (child_ending run caller child)" using assms(4) by simp
  then have "await (E\<lparr>fork_pid := pid\<rparr>) pid \<longleftrightarrow> child_ending run caller child = Exited 0"
    using assms(2,6) by (intro await_ending) simp_all
  with child show ?thesis using assms(1-3) by (simp add: do_exec_def fetch_args_enough)
qed

text \<open>An environment in which programs whose path is given can be executed, and end with 0, unless the
  first argument is \<open>fail\<close>; \<open>open\<close> gives descriptor 3.\<close>

definition sample_run :: "cstr list \<Rightarrow> fd_map \<Rightarrow> ending" where
  "sample_run c fm = Exited (if c ! 1 = Some ''fail'' then 1 else 0)"

definition sample_exec :: "ending \<Rightarrow> exec_env" where
  "sample_exec e = \<lparr>fork_pid = 7, execv_ok = (\<lambda>c. c ! 0 \<noteq> None), waitpid = (\<lambda>pid. (pid, wait_status e)),
     open_fd = (\<lambda>name fm. Some 3), dup2_ok = True\<rparr>"

theorem do_exec_reports_program_witness:
  "do_exec ((sample_exec (Exited 0))\<lparr>fork_pid := 7\<rparr>) 2 [Some ''/bin/echo'', Some ''a''] Map.empty =
      Some (Returns (execv_ok (sample_exec (Exited 0)) (take 2 [Some ''/bin/echo'', Some ''a''] @ [None]) \<and>
        sample_run (take 2 [Some ''/bin/echo'', Some ''a''] @ [None]) Map.empty = Exited 0) Map.empty) \<and>
    (\<forall>b fm'. Executes [Some ''/bin/echo'', Some ''a'', None] Map.empty \<noteq> Returns b fm')"
  by (rule do_exec_reports_program [where caller = "\<lambda>b fm. Exited 0"])
    (simp_all add: sample_exec_def sample_run_def do_exec_def fetch_args_enough)

text \<open>C24: When everything succeeds, \<open>do_exec_redirect\<close> runs the program with the output file as its standard
  output and with no other descriptor on it, and the parent returns true exactly when the program
  exited with code 0. The parent keeps its own descriptor on the output file open.\<close>

theorem do_exec_redirect_runs_into_file:
  assumes "count \<le> length args" and "pid \<noteq> - 1" and "pid \<noteq> 0" and "\<forall>c fm. real_ending (run c fm)"
    and "open_fd E outputfile fm = Some fd" and "fd \<noteq> 1" and "dup2_ok E" and "execv_ok E (take count args @ [None])"
    and "do_exec_redirect (E\<lparr>fork_pid := 0\<rparr>) outputfile count args fm = Some child"
    and "waitpid E pid = (pid, wait_status (child_ending run caller child))"
  shows "child = Executes (take count args @ [None]) (fm(1 \<mapsto> outputfile, fd := None)) \<and>
    do_exec_redirect (E\<lparr>fork_pid := pid\<rparr>) outputfile count args fm =
      Some (Returns (run (take count args @ [None]) (fm(1 \<mapsto> outputfile, fd := None)) = Exited 0) (fm(fd \<mapsto> outputfile)))"
proof -
  have child: "child = Executes (take count args @ [None]) (fm(1 \<mapsto> outputfile, fd := None))"
    using assms(1,5-9) by (auto simp: do_exec_redirect_def fetch_args_enough fun_eq_iff)
  then have "await (E\<lparr>fork_pid := pid\<rparr>) pid \<longleftrightarrow> child_ending run caller child = Exited 0"
    using assms(2,4,10) by (intro await_ending) simp_all
  with child show ?thesis using assms(1-3,5) by (simp add: do_exec_redirect_def fetch_args_enough)
qed

theorem do_exec_redirect_runs_into_file_witness:
  "Executes [Some ''/bin/echo'', None] (Map.empty(1 \<mapsto> ''/tmp/out'')) =
      Executes (take 1 [Some ''/bin/echo''] @ [None]) (Map.empty(1 \<mapsto> ''/tmp/out'', 3 := None)) \<and>
    do_exec_redirect ((sample_exec (Exited 0))\<lparr>fork_pid := 7\<rparr>) ''/tmp/out'' 1 [Some ''/bin/echo''] Map.empty =
      Some (Returns (sample_run (take 1 [Some ''/bin/echo''] @ [None]) (Map.empty(1 \<mapsto> ''/tmp/out'', 3 := None)) = Exited 0)
        (Map.empty(3 \<mapsto> ''/tmp/out'')))"
  by (rule do_exec_redirect_runs_into_file [where E = "sample_exec (Exited 0)" and pid = 7 and caller = "\<lambda>b fm. Exited 0"])
    (auto simp: sample_exec_def sample_run_def do_exec_redirect_def fetch_args_enough fun_eq_iff)

text \<open>C23: When the program cannot be executed, \<open>do_exec_redirect\<close> returns in the child as well: the caller's code
  after the call runs twice, with false in the child, whose standard output is the output file
  by then. What the parent returns is decided by how that second copy of the caller ends, so it is
  true although no program was run when that copy exits with 0.\<close>

theorem do_exec_redirect_child_returns:
  assumes "count \<le> length args" and "pid \<noteq> - 1" and "pid \<noteq> 0" and "\<forall>b fm. real_ending (caller b fm)"
    and "open_fd E outputfile fm = Some fd" and "fd \<noteq> 1" and "dup2_ok E" and "\<not> execv_ok E (take count args @ [None])"
    and "do_exec_redirect (E\<lparr>fork_pid := 0\<rparr>) outputfile count args fm = Some child"
    and "waitpid E pid = (pid, wait_status (child_ending run caller child))"
  shows "child = Returns False (fm(1 \<mapsto> outputfile, fd := None)) \<and>
    do_exec_redirect (E\<lparr>fork_pid := pid\<rparr>) outputfile count args fm =
      Some (Returns (caller False (fm(1 \<mapsto> outputfile, fd := None)) = Exited 0) (fm(fd \<mapsto> outputfile)))"
proof -
  have child: "child = Returns False (fm(1 \<mapsto> outputfile, fd := None))"
    using assms(1,5-9) by (auto simp: do_exec_redirect_def fetch_args_enough fun_eq_iff)
  then have "await (E\<lparr>fork_pid := pid\<rparr>) pid \<longleftrightarrow> child_ending run caller child = Exited 0"
    using assms(2,4,10) by (intro await_ending) simp_all
  with child show ?thesis using assms(1-3,5) by (simp add: do_exec_redirect_def fetch_args_enough)
qed

text \<open>A caller that exits with 0 whatever the result was: the parent gets true for a program without a
  path.\<close>

theorem do_exec_redirect_child_returns_witness:
  "Returns False (Map.empty(1 \<mapsto> ''/tmp/out'')) = Returns False (Map.empty(1 \<mapsto> ''/tmp/out'', 3 := None)) \<and>
    do_exec_redirect ((sample_exec (Exited 0))\<lparr>fork_pid := 7\<rparr>) ''/tmp/out'' 0 [] Map.empty =
      Some (Returns ((\<lambda>b fm. Exited 0) False (Map.empty(1 \<mapsto> ''/tmp/out'', (3 :: nat) := None)) = Exited 0) (Map.empty(3 \<mapsto> ''/tmp/out'')))"
  by (rule do_exec_redirect_child_returns [where E = "sample_exec (Exited 0)" and pid = 7 and run = sample_run])
    (auto simp: sample_exec_def do_exec_redirect_def fetch_args_enough fun_eq_iff)

end
