(* ===== verification/Threading.thy ===== *)
theory Threading
  imports Libc
begin

text \<open>
  Threads that take a mutex: \<^verbatim>\<open>examples/threading/threading.c\<close> and \<^verbatim>\<open>threading.h\<close>. Any number of
  threads run \<open>threadfunc\<close> at the same time, each on its own \<open>thread_data\<close>, whose address identifies the
  thread. The step relation has a rule for every way a statement of \<open>threadfunc\<close> that others can
  observe may go; statements of different threads interleave freely. Starting a
  thread is a step as well. The lemmas give the invariant of this system by rule induction: mutual
  exclusion, and what \<open>thread_complete_success\<close> means.

  \<open>clock_nanosleep\<close> is a parameter, the value it returns for a number of nanoseconds; the step relation
  takes the set of its possible behaviours, since a call can also be interrupted.
\<close>

subsection \<open>Waiting\<close>

type_synonym nanosleep = "64 word \<Rightarrow> cint"

text \<open>The documented behaviour that the code relies on: a number of nanoseconds outside of one second is
  refused with \<open>EINVAL\<close>.\<close>

definition one_second :: "64 word \<Rightarrow> bool" where
  "one_second n \<longleftrightarrow> 0 \<le> sint n \<and> sint n < 1000000000"

definition nanosleep_ok :: "nanosleep \<Rightarrow> bool" where
  "nanosleep_ok clk \<longleftrightarrow> (\<forall>n. \<not> one_second n \<longrightarrow> clk n = 22)"

text \<open>The product is taken in \<open>unsigned int\<close> and then widened to \<open>long\<close>.\<close>

definition tv_nsec :: "uint32 \<Rightarrow> 64 word" where
  "tv_nsec ms = ucast (ms * 1000000)"

definition wait_ms :: "nanosleep \<Rightarrow> uint32 \<Rightarrow> bool" where
  "wait_ms clock_nanosleep ms = (let ret = clock_nanosleep (tv_nsec ms) in ret = 0)"

subsection \<open>The threads\<close>

record thread_data =
  p_mutex :: nat
  ms_to_wait_before_lock :: uint32
  ms_to_wait_before_unlock :: uint32
  thread_complete_success :: bool

text \<open>Where a thread is in \<open>threadfunc\<close>: at its entry, at the first wait, at \<open>pthread_mutex_lock\<close>, at the
  second wait, at \<open>pthread_mutex_unlock\<close>, at the final assignment, or returned.\<close>

datatype pc = Entry | First_Wait | At_Lock | Second_Wait | At_Unlock | At_Success | Returned

record sys =
  tdata :: "nat \<rightharpoonup> thread_data"
  pcs :: "nat \<rightharpoonup> pc"
  owner :: "nat \<rightharpoonup> nat"

text \<open>\<open>pthread_create\<close> succeeds or not (\<open>created\<close>); \<open>junk\<close> is what the allocated memory holds in the field
  that is not initialised.\<close>

definition start_thread_obtaining_mutex ::
  "libc \<Rightarrow> bool \<Rightarrow> bool \<Rightarrow> nat \<Rightarrow> cint \<Rightarrow> cint \<Rightarrow> sys \<Rightarrow> bool \<times> sys" where
  "start_thread_obtaining_mutex L junk created mutex wait_to_obtain_ms wait_to_release_ms s =
     (case malloc_struct L (dom (tdata s)) of NULL \<Rightarrow> (False, s)
      | Ptr a \<Rightarrow>
          let s = s\<lparr>tdata := (tdata s)(a \<mapsto> \<lparr>p_mutex = mutex, ms_to_wait_before_lock = wait_to_obtain_ms,
                ms_to_wait_before_unlock = wait_to_release_ms, thread_complete_success = junk\<rparr>)\<rparr>
          in if \<not> created then (False, s) else (True, s\<lparr>pcs := (pcs s)(a \<mapsto> Entry)\<rparr>))"

definition goto :: "nat \<Rightarrow> pc \<Rightarrow> sys \<Rightarrow> sys" where
  "goto a p s = s\<lparr>pcs := (pcs s)(a \<mapsto> p)\<rparr>"

definition set_success :: "nat \<Rightarrow> bool \<Rightarrow> sys \<Rightarrow> sys" where
  "set_success a b s = s\<lparr>tdata := (tdata s)(a := map_option (\<lambda>d. d\<lparr>thread_complete_success := b\<rparr>) (tdata s a))\<rparr>"

text \<open>A mutex of the default kind: locking a free mutex may succeed, locking a held one waits, and
  both calls may fail, leaving the mutex as it is.\<close>

inductive threadfunc :: "nanosleep set \<Rightarrow> nat \<Rightarrow> sys \<Rightarrow> sys \<Rightarrow> bool" for ns where
  entry: "pcs s a = Some Entry \<Longrightarrow> threadfunc ns a s (goto a First_Wait (set_success a False s))"
| wait_before_lock: "pcs s a = Some First_Wait \<Longrightarrow> tdata s a = Some d \<Longrightarrow> clk \<in> ns \<Longrightarrow>
    threadfunc ns a s (goto a (if wait_ms clk (ms_to_wait_before_lock d) then At_Lock else Returned) s)"
| lock: "pcs s a = Some At_Lock \<Longrightarrow> tdata s a = Some d \<Longrightarrow> owner s (p_mutex d) = None \<Longrightarrow>
    threadfunc ns a s (goto a Second_Wait (s\<lparr>owner := (owner s)(p_mutex d \<mapsto> a)\<rparr>))"
| lock_fails: "pcs s a = Some At_Lock \<Longrightarrow> threadfunc ns a s (goto a Returned s)"
| wait_before_unlock: "pcs s a = Some Second_Wait \<Longrightarrow> tdata s a = Some d \<Longrightarrow> clk \<in> ns \<Longrightarrow>
    threadfunc ns a s (goto a (if wait_ms clk (ms_to_wait_before_unlock d) then At_Unlock else Returned) s)"
| unlock: "pcs s a = Some At_Unlock \<Longrightarrow> tdata s a = Some d \<Longrightarrow>
    threadfunc ns a s (goto a At_Success (s\<lparr>owner := (owner s)(p_mutex d := None)\<rparr>))"
| unlock_fails: "pcs s a = Some At_Unlock \<Longrightarrow> threadfunc ns a s (goto a Returned s)"
| success: "pcs s a = Some At_Success \<Longrightarrow> threadfunc ns a s (goto a Returned (set_success a True s))"

inductive_cases threadfuncE: "threadfunc ns a s s'"

inductive sys_step :: "libc \<Rightarrow> nanosleep set \<Rightarrow> sys \<Rightarrow> sys \<Rightarrow> bool" for L ns where
  run: "threadfunc ns a s s' \<Longrightarrow> sys_step L ns s s'"
| start: "start_thread_obtaining_mutex L junk created m w1 w2 s = (b, s') \<Longrightarrow> sys_step L ns s s'"

inductive_cases sys_stepE: "sys_step L ns s s'"

inductive reachable :: "libc \<Rightarrow> nanosleep set \<Rightarrow> sys \<Rightarrow> sys \<Rightarrow> bool" for L ns s0 where
  init: "reachable L ns s0 s0"
| step: "reachable L ns s0 s \<Longrightarrow> sys_step L ns s s' \<Longrightarrow> reachable L ns s0 s'"

subsection \<open>Waiting\<close>

lemma tv_nsec_unat: "unat (tv_nsec ms) = unat ms * 1000000 mod 2 ^ 32"
  by (simp add: tv_nsec_def unat_ucast_up unat_word_ariths)

lemma tv_nsec_sint: "sint (tv_nsec ms) = int (unat ms * 1000000 mod 2 ^ 32)"
proof -
  have "unat (tv_nsec ms) < 2 ^ 32" by (simp add: tv_nsec_unat)
  then have "unat (tv_nsec ms) < 2 ^ (LENGTH(64) - 1)" by simp
  from sint_unat [OF this] show ?thesis by (simp only: tv_nsec_unat)
qed

text \<open>The waits that are possible at all.\<close>

definition can_wait :: "uint32 \<Rightarrow> bool" where
  "can_wait ms \<longleftrightarrow> unat ms * 1000000 mod 2 ^ 32 < 1000000000"

lemma one_second_tv_nsec: "one_second (tv_nsec ms) \<longleftrightarrow> can_wait ms"
  by (simp add: one_second_def can_wait_def tv_nsec_sint)

lemma wait_ms_can_wait: "nanosleep_ok clk \<Longrightarrow> wait_ms clk ms \<Longrightarrow> can_wait ms"
  by (auto simp: wait_ms_def nanosleep_ok_def simp flip: one_second_tv_nsec)

lemma tv_nsec_exact: "sint (tv_nsec ms) = int (unat ms) * 1000000 \<longleftrightarrow> unat ms < 4295"
proof -
  have "unat ms * 1000000 mod 2 ^ 32 = unat ms * 1000000 \<longleftrightarrow> unat ms * 1000000 < 2 ^ 32"
    by (metis mod_less mod_less_divisor zero_less_numeral zero_less_power)
  then have "int (unat ms * 1000000 mod 2 ^ 32) = int (unat ms * 1000000) \<longleftrightarrow> unat ms * 1000000 < 2 ^ 32"
    by (simp only: of_nat_eq_iff)
  moreover have "unat ms * 1000000 < 2 ^ 32 \<longleftrightarrow> unat ms < 4295" by simp arith
  ultimately show ?thesis by (simp only: tv_nsec_sint of_nat_mult of_nat_numeral)
qed

subsection \<open>The invariant\<close>

definition critical :: "pc \<Rightarrow> bool" where
  "critical p \<longleftrightarrow> p = Second_Wait \<or> p = At_Unlock"

definition thread_ok :: "(nat \<rightharpoonup> nat) \<Rightarrow> nat \<Rightarrow> thread_data \<Rightarrow> pc \<Rightarrow> bool" where
  "thread_ok own a d p \<longleftrightarrow>
     (\<forall>m. own m = Some a \<longrightarrow> m = p_mutex d \<and> (critical p \<or> p = Returned)) \<and>
     (critical p \<longrightarrow> own (p_mutex d) = Some a) \<and>
     (p \<in> {At_Lock, Second_Wait, At_Unlock, At_Success} \<longrightarrow> can_wait (ms_to_wait_before_lock d)) \<and>
     (p \<in> {At_Unlock, At_Success} \<longrightarrow> can_wait (ms_to_wait_before_unlock d)) \<and>
     (p \<noteq> Entry \<and> thread_complete_success d \<longrightarrow> p = Returned \<and> can_wait (ms_to_wait_before_lock d) \<and>
        can_wait (ms_to_wait_before_unlock d) \<and> (\<forall>m. own m \<noteq> Some a))"

definition sys_inv :: "sys \<Rightarrow> bool" where
  "sys_inv s \<longleftrightarrow> (\<forall>m a. owner s m = Some a \<longrightarrow> pcs s a \<noteq> None) \<and>
     (\<forall>a p. pcs s a = Some p \<longrightarrow> (\<exists>d. tdata s a = Some d \<and> thread_ok (owner s) a d p))"

lemma sys_invD:
  assumes "sys_inv s" and "pcs s a = Some p"
  obtains d where "tdata s a = Some d" and "thread_ok (owner s) a d p"
  using assms unfolding sys_inv_def by blast

lemma thread_ok_cong:
  assumes "thread_ok own a d p" and "\<And>m. own' m = Some a \<longleftrightarrow> own m = Some a"
  shows "thread_ok own' a d p"
  using assms by (simp add: thread_ok_def)

text \<open>A step of thread \<open>a\<close> keeps the invariant if it leaves the other threads' data and mutexes alone and
  takes thread \<open>a\<close> to a point where its own part holds.\<close>

lemma sys_inv_move:
  assumes "sys_inv s" and "pcs s' = (pcs s)(a \<mapsto> p)" and "tdata s' = (tdata s)(a \<mapsto> d)" and "thread_ok (owner s') a d p"
    and "\<And>b m. b \<noteq> a \<Longrightarrow> owner s' m = Some b \<longleftrightarrow> owner s m = Some b"
  shows "sys_inv s'"
  unfolding sys_inv_def
proof (intro conjI allI impI)
  fix m b
  assume "owner s' m = Some b"
  then show "pcs s' b \<noteq> None" using assms(1,2,5) by (cases "b = a") (auto simp: sys_inv_def)
next
  fix b q
  assume q: "pcs s' b = Some q"
  show "\<exists>d. tdata s' b = Some d \<and> thread_ok (owner s') b d q"
  proof (cases "b = a")
    case False
    with q assms(2) have "pcs s b = Some q" by simp
    with assms(1) obtain e where "tdata s b = Some e" "thread_ok (owner s) b e q" by (rule sys_invD)
    with False assms(3,5) thread_ok_cong [of "owner s" b e q "owner s'"] show ?thesis by auto
  qed (use q assms(2-4) in auto)
qed

lemmas thread_moves = goto_def set_success_def fun_upd_idem_iff

text \<open>What a step of thread \<open>a\<close> leaves alone: the other threads and the mutexes they hold.\<close>

lemma thread_others:
  assumes "sys_inv s" and "threadfunc ns a s s'"
  shows "pcs s' = (pcs s)(a \<mapsto> the (pcs s' a))" and "tdata s' = (tdata s)(a \<mapsto> the (tdata s' a))"
    and "b \<noteq> a \<Longrightarrow> owner s' m = Some b \<longleftrightarrow> owner s m = Some b"
proof -
  obtain p where p: "pcs s a = Some p" using assms(2) by (auto elim: threadfuncE)
  from assms(1) p obtain d where d: "tdata s a = Some d" "thread_ok (owner s) a d p" by (rule sys_invD)
  show "pcs s' = (pcs s)(a \<mapsto> the (pcs s' a))"
    using assms(2) by cases (auto simp: thread_moves)
  show "tdata s' = (tdata s)(a \<mapsto> the (tdata s' a))"
    using assms(2) d(1) by cases (auto simp: thread_moves)
  show "owner s' m = Some b \<longleftrightarrow> owner s m = Some b" if "b \<noteq> a"
    using assms(2) d p that by cases (auto simp: thread_moves thread_ok_def critical_def)
qed

lemma thread_inv:
  assumes "\<forall>clk\<in>ns. nanosleep_ok clk" and "sys_inv s" and "threadfunc ns a s s'"
  shows "sys_inv s'"
proof -
  obtain p where p: "pcs s a = Some p" using assms(3) by (auto elim: threadfuncE)
  from assms(2) p obtain d where d: "tdata s a = Some d" "thread_ok (owner s) a d p" by (rule sys_invD)
  have w: "\<And>clk ms. clk \<in> ns \<Longrightarrow> wait_ms clk ms \<Longrightarrow> can_wait ms"
    using assms(1) wait_ms_can_wait by blast
  have "thread_ok (owner s') a (the (tdata s' a)) (the (pcs s' a))"
    using assms(3) d p
    by cases (auto simp: thread_moves thread_ok_def critical_def w split: if_splits)
  then show ?thesis
    using sys_inv_move [OF assms(2)] thread_others [OF assms(2,3)] by blast
qed

lemma start_inv:
  assumes "libc_ok L" and "sys_inv s" and "start_thread_obtaining_mutex L junk created m w1 w2 s = (b, s')"
  shows "sys_inv s'"
proof (cases "malloc_struct L (dom (tdata s))")
  case NULL
  then show ?thesis using assms(2,3) by (simp add: start_thread_obtaining_mutex_def)
next
  case (Ptr a)
  have fresh: "tdata s a = None" using libc_okD(3) [OF assms(1) Ptr] by blast
  then have idle: "pcs s a = None" using assms(2) by (metis not_Some_eq option.distinct(1) sys_invD)
  then have "owner s x \<noteq> Some a" for x using assms(2) unfolding sys_inv_def by blast
  then have new: "thread_ok (owner s) a \<lparr>p_mutex = m, ms_to_wait_before_lock = w1, ms_to_wait_before_unlock = w2,
      thread_complete_success = junk\<rparr> Entry" by (simp add: thread_ok_def critical_def)
  show ?thesis
  proof (cases created)
    case True
    show ?thesis
      by (rule sys_inv_move [OF assms(2), where a = a])
        (use new Ptr True assms(3) in \<open>auto simp: start_thread_obtaining_mutex_def\<close>)
  next
    case False
    with Ptr assms(3) have "s' = s\<lparr>tdata := (tdata s)(a \<mapsto> \<lparr>p_mutex = m, ms_to_wait_before_lock = w1,
        ms_to_wait_before_unlock = w2, thread_complete_success = junk\<rparr>)\<rparr>"
      by (simp add: start_thread_obtaining_mutex_def)
    moreover have "tdata s b = None" if "b = a" for b using that fresh by simp
    ultimately show ?thesis using assms(2) idle unfolding sys_inv_def by auto
  qed
qed

definition idle_sys :: sys where
  "idle_sys = \<lparr>tdata = Map.empty, pcs = Map.empty, owner = Map.empty\<rparr>"

lemma reachable_inv:
  assumes "libc_ok L" and "\<forall>clk\<in>ns. nanosleep_ok clk" and "reachable L ns s0 s" and "sys_inv s0"
  shows "sys_inv s"
  using assms(3,4)
  by induction (auto elim!: sys_stepE intro: thread_inv [OF assms(2)] start_inv [OF assms(1)])

lemma idle_inv: "sys_inv idle_sys"
  by (simp add: sys_inv_def idle_sys_def)

text \<open>The threads in the critical section of a mutex.\<close>

definition in_critical :: "sys \<Rightarrow> nat \<Rightarrow> nat set" where
  "in_critical s m = {a. \<exists>p d. pcs s a = Some p \<and> critical p \<and> tdata s a = Some d \<and> p_mutex d = m}"

lemma in_critical_owner: "sys_inv s \<Longrightarrow> in_critical s m \<subseteq> set_option (owner s m)"
  by (auto simp: in_critical_def thread_ok_def elim!: sys_invD)

subsection \<open>A mutex that is never released\<close>

definition stuck :: "nat \<Rightarrow> thread_data \<Rightarrow> sys \<Rightarrow> bool" where
  "stuck a d s \<longleftrightarrow> owner s (p_mutex d) = Some a \<and> tdata s a = Some d \<and> pcs s a \<in> {Some Second_Wait, Some Returned}"

lemma stuck_thread:
  assumes "\<forall>clk\<in>ns. nanosleep_ok clk" and "sys_inv s" and "stuck a d s" and "\<not> can_wait (ms_to_wait_before_unlock d)"
    and "threadfunc ns b s s'"
  shows "stuck a d s'"
proof -
  have no: "\<not> wait_ms clk (ms_to_wait_before_unlock d)" if "clk \<in> ns" for clk
    using assms(1,4) that wait_ms_can_wait by blast
  show ?thesis
  proof (cases "b = a")
    case True
    have "pcs s a = Some Second_Wait \<or> pcs s a = Some Returned" "tdata s a = Some d" "owner s (p_mutex d) = Some a"
      using assms(3) by (auto simp: stuck_def)
    note here = this
    show ?thesis
      using assms(5)
    proof cases
      case (wait_before_unlock e clk)
      then have "s' = goto a Returned s" using here no True by simp
      then show ?thesis using here by (simp add: stuck_def goto_def)
    qed (use here True in simp_all)
  next
    case False
    note same = thread_others [OF assms(2,5)]
    have "pcs s' a = pcs s a" "tdata s' a = tdata s a"
      using fun_cong [OF same(1), of a] fun_cong [OF same(2), of a] False by simp_all
    moreover have "owner s' (p_mutex d) = Some a" using same(3) False assms(3) by (simp add: stuck_def)
    ultimately show ?thesis using assms(3) by (simp add: stuck_def)
  qed
qed

lemma start_keeps:
  assumes "libc_ok L" and "start_thread_obtaining_mutex L junk created m w1 w2 s = (b, s')" and "tdata s a = Some d"
  shows "tdata s' a = Some d" and "pcs s' a = pcs s a" and "owner s' = owner s"
proof -
  have "malloc_struct L (dom (tdata s)) \<noteq> Ptr a"
    using libc_okD(3) [OF assms(1)] assms(3) by blast
  with assms(2,3) show "tdata s' a = Some d" and "pcs s' a = pcs s a" and "owner s' = owner s"
    by (auto simp: start_thread_obtaining_mutex_def Let_def split: ptr.splits if_splits)
qed

lemma stuck_forever:
  assumes "libc_ok L" and "\<forall>clk\<in>ns. nanosleep_ok clk" and "sys_inv s" and "stuck a d s" and "\<not> can_wait (ms_to_wait_before_unlock d)"
    and "reachable L ns s s'"
  shows "stuck a d s'"
  using assms(6)
proof induction
  case (step s1 s2)
  have "sys_inv s1" by (rule reachable_inv [OF assms(1,2) step(1) assms(3)])
  show ?case
    using step(2)
  proof cases
    case (run b)
    then show ?thesis using \<open>sys_inv s1\<close> step stuck_thread [OF assms(2) _ _ assms(5)] by blast
  next
    case start
    then show ?thesis using \<open>sys_inv s1\<close> step start_keeps [OF assms(1)] unfolding stuck_def by metis
  qed
qed (rule assms(4))

subsection \<open>Properties\<close>

text \<open>C39: On a clock that sleeps whenever it may, \<open>wait_ms\<close> returns true exactly when the product of the milliseconds
  and one million, reduced modulo \<open>2 ^ 32\<close>, is less than one second; and it waits for the
  requested time exactly for less than 1000 milliseconds. So longer waits either fail at once or,
  when the product wraps around, return true after too short a time.\<close>

theorem wait_ms_range:
  assumes "\<forall>n. clock_nanosleep n = 0 \<longleftrightarrow> one_second n"
  shows "(wait_ms clock_nanosleep ms \<longleftrightarrow> unat ms * 1000000 mod 2 ^ 32 < 1000000000) \<and>
    (wait_ms clock_nanosleep ms \<and> sint (tv_nsec ms) = int (unat ms) * 1000000 \<longleftrightarrow> unat ms < 1000)"
proof
  show w: "wait_ms clock_nanosleep ms \<longleftrightarrow> unat ms * 1000000 mod 2 ^ 32 < 1000000000"
    using assms by (simp add: wait_ms_def one_second_tv_nsec can_wait_def)
  show "wait_ms clock_nanosleep ms \<and> sint (tv_nsec ms) = int (unat ms) * 1000000 \<longleftrightarrow> unat ms < 1000"
  proof (cases "unat ms < 4295")
    case True
    then have "unat ms * 1000000 mod 2 ^ 32 = unat ms * 1000000" by simp
    with True show ?thesis by (simp only: w tv_nsec_exact) simp
  next
    case False
    then show ?thesis by (simp only: tv_nsec_exact) simp
  qed
qed

definition good_clock :: nanosleep where
  "good_clock n = (if one_second n then 0 else 22)"

text \<open>4295 milliseconds are reported as waited for after 33 microseconds.\<close>

theorem wait_ms_range_witness:
  "wait_ms good_clock 999 \<and> \<not> wait_ms good_clock 1000 \<and> wait_ms good_clock 4295 \<and> sint (tv_nsec 4295) = 32704"
proof -
  have "\<forall>n. good_clock n = 0 \<longleftrightarrow> one_second n" by (simp add: good_clock_def)
  note w = wait_ms_range [OF this, THEN conjunct1]
  show ?thesis by (simp add: w tv_nsec_sint)
qed

text \<open>C19: Mutual exclusion: however the threads interleave, and whatever fails on the way, at most one thread is in
  the critical section of a mutex, and it is the one that holds the mutex.\<close>

theorem critical_section_exclusive:
  assumes "libc_ok L" and "\<forall>clk\<in>ns. nanosleep_ok clk" and "reachable L ns idle_sys s"
  shows "in_critical s m \<subseteq> set_option (owner s m)"
  using reachable_inv [OF assms idle_inv] by (rule in_critical_owner)

text \<open>Two threads on mutex 9, the first with times 5 and 10, the second with times 0 and 1000. Sleeping may be
  interrupted.\<close>

definition clocks :: "nanosleep set" where
  "clocks = {good_clock, \<lambda>n. if one_second n then 4 else 22}"

definition two_threads :: "pc \<Rightarrow> pc \<Rightarrow> (nat \<rightharpoonup> nat) \<Rightarrow> sys" where
  "two_threads p q own = \<lparr>tdata = [0 \<mapsto> \<lparr>p_mutex = 9, ms_to_wait_before_lock = 5, ms_to_wait_before_unlock = 10, thread_complete_success = False\<rparr>,
       1 \<mapsto> \<lparr>p_mutex = 9, ms_to_wait_before_lock = 0, ms_to_wait_before_unlock = 1000, thread_complete_success = False\<rparr>],
     pcs = [0 \<mapsto> p, 1 \<mapsto> q], owner = own\<rparr>"

lemma clocks_ok: "\<forall>clk\<in>clocks. nanosleep_ok clk"
  by (simp add: clocks_def good_clock_def nanosleep_ok_def)

lemma two_started: "reachable demo_libc clocks idle_sys (two_threads Entry Entry Map.empty)"
proof (rule step [OF step [OF init start] start])
  show "start_thread_obtaining_mutex demo_libc False True 9 5 10 idle_sys = (True,
      \<lparr>tdata = [0 \<mapsto> \<lparr>p_mutex = 9, ms_to_wait_before_lock = 5, ms_to_wait_before_unlock = 10, thread_complete_success = False\<rparr>],
       pcs = [0 \<mapsto> Entry], owner = Map.empty\<rparr>)"
    by (simp add: start_thread_obtaining_mutex_def demo_libc_def next_addr_def idle_sys_def)
  show "start_thread_obtaining_mutex demo_libc False True 9 0 1000
      \<lparr>tdata = [0 \<mapsto> \<lparr>p_mutex = 9, ms_to_wait_before_lock = 5, ms_to_wait_before_unlock = 10, thread_complete_success = False\<rparr>],
       pcs = [0 \<mapsto> Entry], owner = Map.empty\<rparr> = (True, two_threads Entry Entry Map.empty)"
    by (simp add: start_thread_obtaining_mutex_def demo_libc_def next_addr_def two_threads_def fun_upd_twist)
qed

text \<open>The second thread gets into the critical section while the first one waits for the mutex.\<close>

lemma two_step:
  assumes "reachable demo_libc clocks idle_sys s" and "threadfunc clocks a s s'"
  shows "reachable demo_libc clocks idle_sys s'"
  using assms by (blast intro: step run)

lemma good_wait: "wait_ms good_clock ms \<longleftrightarrow> can_wait ms"
  by (simp add: wait_ms_def good_clock_def flip: one_second_tv_nsec)

lemma two_running: "reachable demo_libc clocks idle_sys (two_threads At_Lock Second_Wait [9 \<mapsto> 1])"
proof -
  have g: "good_clock \<in> clocks" by (simp add: clocks_def)
  have "reachable demo_libc clocks idle_sys (two_threads First_Wait Entry Map.empty)"
    using two_step [OF two_started entry [of _ 0]] by (simp add: two_threads_def thread_moves fun_upd_twist)
  from two_step [OF this wait_before_lock [OF _ _ g, of _ 0]]
  have "reachable demo_libc clocks idle_sys (two_threads At_Lock Entry Map.empty)"
    by (simp add: two_threads_def thread_moves fun_upd_twist good_wait can_wait_def)
  from two_step [OF this entry [of _ 1]]
  have "reachable demo_libc clocks idle_sys (two_threads At_Lock First_Wait Map.empty)"
    by (simp add: two_threads_def thread_moves fun_upd_twist)
  from two_step [OF this wait_before_lock [OF _ _ g, of _ 1]]
  have "reachable demo_libc clocks idle_sys (two_threads At_Lock At_Lock Map.empty)"
    by (simp add: two_threads_def thread_moves fun_upd_twist good_wait can_wait_def)
  from two_step [OF this lock [of _ 1]]
  show ?thesis by (simp add: two_threads_def thread_moves fun_upd_twist)
qed

theorem critical_section_exclusive_witness:
  "in_critical (two_threads At_Lock Second_Wait [9 \<mapsto> 1]) 9 \<subseteq> {1} \<and> 1 \<in> in_critical (two_threads At_Lock Second_Wait [9 \<mapsto> 1]) 9"
  using critical_section_exclusive [OF demo_libc_ok clocks_ok two_running, of 9]
  by (simp add: two_threads_def in_critical_def critical_def)


text \<open>From its entry a thread whose waits are accepted and whose mutex is free can run to success.\<close>

lemma thread_runs:
  assumes "good \<in> ns" and "\<forall>n. one_second n \<longrightarrow> good n = 0" and "pcs s a = Some Entry" and "tdata s a = Some d"
    and "can_wait (ms_to_wait_before_lock d)" and "can_wait (ms_to_wait_before_unlock d)" and "owner s (p_mutex d) = None"
  shows "reachable L ns s (goto a Returned (set_success a True s))"
proof -
  let ?d = "d\<lparr>thread_complete_success := False\<rparr>"
  let ?s = "\<lambda>p own. s\<lparr>tdata := (tdata s)(a \<mapsto> ?d), pcs := (pcs s)(a \<mapsto> p), owner := own\<rparr>"
  have w: "wait_ms good (ms_to_wait_before_lock d)" "wait_ms good (ms_to_wait_before_unlock d)"
    using assms(2,5,6) by (simp_all add: wait_ms_def one_second_tv_nsec)
  have move: "reachable L ns s s2" if "reachable L ns s s1" "threadfunc ns a s1 s1'" "s1' = s2" for s1 s1' s2
    using that by (blast intro: step run)
  have "reachable L ns s (?s First_Wait (owner s))"
    by (rule move [OF init entry]) (use assms(3,4) in \<open>simp_all add: goto_def set_success_def\<close>)
  then have "reachable L ns s (?s At_Lock (owner s))"
    by (rule move [OF _ wait_before_lock [OF _ _ assms(1), where d = ?d]]) (use w in \<open>simp_all add: goto_def\<close>)
  then have "reachable L ns s (?s Second_Wait ((owner s)(p_mutex d \<mapsto> a)))"
    by (rule move [OF _ lock [where d = ?d]]) (use assms(7) in \<open>simp_all add: goto_def\<close>)
  then have "reachable L ns s (?s At_Unlock ((owner s)(p_mutex d \<mapsto> a)))"
    by (rule move [OF _ wait_before_unlock [OF _ _ assms(1), where d = ?d]]) (use w in \<open>simp_all add: goto_def\<close>)
  then have "reachable L ns s (?s At_Success (owner s))"
    by (rule move [OF _ unlock [where d = ?d]]) (use assms(7) in \<open>simp_all add: goto_def fun_upd_idem_iff\<close>)
  then show ?thesis
    by (rule move [OF _ success]) (use assms(4) in \<open>simp_all add: goto_def set_success_def\<close>)
qed


text \<open>C20: A thread whose time to hold the mutex is not accepted (1000 milliseconds, for instance) returns with the
  mutex locked: from then on, in whatever way the program continues, the mutex is held by that
  thread and no other thread enters the critical section.\<close>

theorem failed_hold_keeps_mutex:
  assumes "libc_ok L" and "\<forall>clk\<in>ns. nanosleep_ok clk" and "reachable L ns idle_sys s"
    and "pcs s a = Some Second_Wait" and "tdata s a = Some d" and "\<not> can_wait (ms_to_wait_before_unlock d)"
    and "reachable L ns s s'"
  shows "owner s' (p_mutex d) = Some a \<and> in_critical s' (p_mutex d) \<subseteq> {a} \<and> pcs s' a \<in> {Some Second_Wait, Some Returned}"
proof -
  have inv: "sys_inv s" by (rule reachable_inv [OF assms(1-3) idle_inv])
  then obtain e where "tdata s a = Some e" "thread_ok (owner s) a e Second_Wait"
    using assms(4) by (rule sys_invD)
  then have "stuck a d s" using assms(4,5) by (simp add: stuck_def thread_ok_def critical_def)
  then have "stuck a d s'" by (rule stuck_forever [OF assms(1,2) inv _ assms(6,7)])
  then show ?thesis
    using in_critical_owner [OF reachable_inv [OF assms(1,2,7) inv], of "p_mutex d"] by (auto simp: stuck_def)
qed

theorem failed_hold_keeps_mutex_witness:
  "owner (two_threads At_Lock Returned [9 \<mapsto> 1]) 9 = Some 1 \<and> in_critical (two_threads At_Lock Returned [9 \<mapsto> 1]) 9 \<subseteq> {1} \<and>
    pcs (two_threads At_Lock Returned [9 \<mapsto> 1]) 1 \<in> {Some Second_Wait, Some Returned}"
proof -
  have "good_clock \<in> clocks" by (simp add: clocks_def)
  note w = wait_before_unlock [OF _ _ this, of "two_threads At_Lock Second_Wait [9 \<mapsto> 1]" 1]
  have "threadfunc clocks 1 (two_threads At_Lock Second_Wait [9 \<mapsto> 1]) (two_threads At_Lock Returned [9 \<mapsto> 1])"
    using w by (simp add: two_threads_def goto_def good_wait can_wait_def)
  then have "reachable demo_libc clocks (two_threads At_Lock Second_Wait [9 \<mapsto> 1]) (two_threads At_Lock Returned [9 \<mapsto> 1])"
    by (blast intro: init step run)
  from failed_hold_keeps_mutex [OF demo_libc_ok clocks_ok two_running _ _ _ this, of 1]
  show ?thesis by (simp add: two_threads_def can_wait_def)
qed

text \<open>\<open>start_thread_obtaining_mutex\<close> returns true exactly when memory was available and the thread could be
  created; then there is one more thread, at its entry, with the given times and mutex. When only
  the creation of the thread fails, the block stays allocated although no thread will return it.\<close>

lemma start_thread_correct:
  assumes "libc_ok L" and "start_thread_obtaining_mutex L junk created mutex w1 w2 s = (b, s')"
  shows "(b \<longleftrightarrow> malloc_struct L (dom (tdata s)) \<noteq> NULL \<and> created) \<and> owner s' = owner s \<and>
    (malloc_struct L (dom (tdata s)) = NULL \<longrightarrow> s' = s) \<and>
    (\<forall>a. malloc_struct L (dom (tdata s)) = Ptr a \<longrightarrow> tdata s a = None \<and>
      tdata s' = (tdata s)(a \<mapsto> \<lparr>p_mutex = mutex, ms_to_wait_before_lock = w1, ms_to_wait_before_unlock = w2, thread_complete_success = junk\<rparr>) \<and>
      pcs s' = (if created then (pcs s)(a \<mapsto> Entry) else pcs s))"
  using assms(2) libc_okD(3) [OF assms(1)]
  by (cases "malloc_struct L (dom (tdata s))") (auto simp: start_thread_obtaining_mutex_def)

lemma start_thread_correct_witness:
  "\<not> fst (start_thread_obtaining_mutex demo_libc False False 9 5 10 idle_sys) \<and>
    tdata (snd (start_thread_obtaining_mutex demo_libc False False 9 5 10 idle_sys)) 0 \<noteq> None \<and>
    pcs (snd (start_thread_obtaining_mutex demo_libc False False 9 5 10 idle_sys)) = Map.empty"
  using start_thread_correct [OF demo_libc_ok, of False False 9 5 10 idle_sys]
  by (cases "start_thread_obtaining_mutex demo_libc False False 9 5 10 idle_sys")
    (simp add: demo_libc_def next_addr_def idle_sys_def)

end
