(* ===== verification/Link_Memory.thy ===== *)
theory Link_Memory
  imports C_Memory
begin

text \<open>
  What the linked queues of \<^verbatim>\<open>server/src/queue.h\<close> (\<open>STAILQ\<close>, \<open>LIST\<close>, \<open>TAILQ\<close>) share. Their macros
  store addresses of pointer cells (\<open>struct type **\<close>), so a cell is named by the structure it is in:
  the first word of a head or the link to the next element (\<open>loc\<close>), and the word after either of
  them (\<open>bloc\<close>). Every queue theory presents its heap as two maps, from \<open>loc\<close> to the pointer in
  the cell and from \<open>bloc\<close> to the cell it points to. This theory has the lists those maps hold
  (\<open>path\<close>, \<open>backs\<close>), the list operations the macros stand for (\<open>queue_op\<close>, over a family of
  disjoint lists), the loops of the \<open>FOREACH\<close> macros, and the contract of a set of queue macros, a
  locale in which runs of macro calls and the loops are treated once for all three.
\<close>

subsection \<open>Cells\<close>

datatype loc = First nat | Next nat

datatype bloc = Last nat | Prev nat

text \<open>\<open>&NEXT(elm)\<close> and \<open>&(elm)->prev\<close>; neither exists for \<open>NULL\<close>.\<close>

fun next_at :: "ptr \<Rightarrow> loc option" where
  "next_at NULL = None"
| "next_at (Ptr a) = Some (Next a)"

fun prev_at :: "ptr \<Rightarrow> bloc option" where
  "prev_at NULL = None"
| "prev_at (Ptr a) = Some (Prev a)"

text \<open>A head and a link entry both are a pointer followed by the address of a pointer: the second
  word of the structure that starts at a cell.\<close>

fun second :: "loc \<Rightarrow> bloc" where
  "second (First h) = Last h"
| "second (Next a) = Prev a"

text \<open>\<open>__containerof(l, type, field.next)\<close>: the element whose link is at \<open>l\<close>; a head is not one.\<close>

fun container_of :: "loc \<Rightarrow> ptr option" where
  "container_of (First h) = None"
| "container_of (Next a) = Some (Ptr a)"

text \<open>The loops \<open>for (var = p; var; var = NEXT(var)) body\<close> of the \<open>FOREACH\<close> macros and the safe
  ones, which read the link before the body runs.\<close>

partial_function (option) link_loop ::
  "('s \<Rightarrow> ptr \<Rightarrow> ptr option) \<Rightarrow> (nat \<Rightarrow> 's \<Rightarrow> 's option) \<Rightarrow> ptr \<Rightarrow> 's \<Rightarrow> 's option" where
  "link_loop nxt body var s = (case var of NULL \<Rightarrow> Some s
     | Ptr a \<Rightarrow> do {
         s \<leftarrow> body a s;
         q \<leftarrow> nxt s var;
         link_loop nxt body q s
       })"

partial_function (option) link_safe_loop ::
  "('s \<Rightarrow> ptr \<Rightarrow> ptr option) \<Rightarrow> (nat \<Rightarrow> 's \<Rightarrow> 's option) \<Rightarrow> ptr \<Rightarrow> 's \<Rightarrow> 's option" where
  "link_safe_loop nxt body var s = (case var of NULL \<Rightarrow> Some s
     | Ptr a \<Rightarrow> do {
         tvar \<leftarrow> nxt s var;
         s \<leftarrow> body a s;
         link_safe_loop nxt body tvar s
       })"

subsection \<open>Lists in the cells\<close>

fun end_loc :: "loc \<Rightarrow> nat list \<Rightarrow> loc" where
  "end_loc l [] = l"
| "end_loc l (x # xs) = end_loc (Next x) xs"

text \<open>The elements reached from cell \<open>l\<close>, the last link excluded; with the \<open>NULL\<close> in it the list
  is complete.\<close>

fun path :: "(loc \<rightharpoonup> ptr) \<Rightarrow> loc \<Rightarrow> nat list \<Rightarrow> bool" where
  "path lk l [] \<longleftrightarrow> True"
| "path lk l (x # xs) \<longleftrightarrow> lk l = Some (Ptr x) \<and> path lk (Next x) xs"

definition chain_at :: "(loc \<rightharpoonup> ptr) \<Rightarrow> loc \<Rightarrow> nat list \<Rightarrow> bool" where
  "chain_at lk l xs \<longleftrightarrow> path lk l xs \<and> lk (end_loc l xs) = Some NULL"

text \<open>Every element points back to the cell that points to it.\<close>

fun backs :: "(bloc \<rightharpoonup> loc) \<Rightarrow> loc \<Rightarrow> nat list \<Rightarrow> bool" where
  "backs bk l [] \<longleftrightarrow> True"
| "backs bk l (x # xs) \<longleftrightarrow> bk (Prev x) = Some l \<and> backs bk (Next x) xs"

fun first_of :: "nat list \<Rightarrow> ptr" where
  "first_of [] = NULL"
| "first_of (x # xs) = Ptr x"

lemma first_of_NULL [simp]: "first_of xs = NULL \<longleftrightarrow> xs = []"
  by (cases xs) auto

lemma end_loc_snoc [simp]: "end_loc l (xs @ [x]) = Next x"
  by (induction xs arbitrary: l) auto

lemma end_loc_append [simp]: "end_loc l (xs @ ys) = end_loc (end_loc l xs) ys"
  by (induction xs arbitrary: l) auto

lemma end_loc_First: "end_loc l xs = First h \<longleftrightarrow> xs = [] \<and> l = First h"
  by (induction xs arbitrary: l) auto

lemma end_loc_Next: "end_loc l xs = Next a \<longleftrightarrow> (if xs = [] then l = Next a else a = last xs)"
  by (induction xs arbitrary: l) auto

lemma end_loc_in: "end_loc (First h) xs \<in> insert (First h) (Next ` set xs)"
  by (cases xs rule: rev_cases) auto

lemma end_loc_notin [simp]: "a \<notin> set xs \<Longrightarrow> end_loc (First h) xs \<noteq> Next a" "a \<notin> set xs \<Longrightarrow> Next a \<noteq> end_loc (First h) xs"
  "h \<noteq> h' \<Longrightarrow> end_loc (First h) xs \<noteq> First h'" "h \<noteq> h' \<Longrightarrow> First h' \<noteq> end_loc (First h) xs"
  by (cases xs rule: rev_cases; auto)+

lemma end_loc_Next_neq [simp]: "a \<noteq> b \<Longrightarrow> b \<notin> set xs \<Longrightarrow> end_loc (Next a) xs \<noteq> Next b"
  "a \<noteq> b \<Longrightarrow> b \<notin> set xs \<Longrightarrow> Next b \<noteq> end_loc (Next a) xs"
  "end_loc (Next a) xs \<noteq> First h" "First h \<noteq> end_loc (Next a) xs"
  by (cases xs rule: rev_cases; auto)+

lemma end_loc_in_Next: "end_loc (Next a) xs \<in> Next ` insert a (set xs)"
  by (cases xs rule: rev_cases) auto

lemma end_loc_disjoint [simp]:
  assumes "a \<notin> set ys" and "set ys \<inter> set xs = {}"
  shows "end_loc (Next a) xs \<noteq> end_loc (First h) ys" and "end_loc (First h) ys \<noteq> end_loc (Next a) xs"
  using end_loc_in [of h ys] end_loc_in_Next [of a xs] assms by auto

lemma path_append [simp]: "path lk l (xs @ ys) \<longleftrightarrow> path lk l xs \<and> path lk (end_loc l xs) ys"
  by (induction xs arbitrary: l) auto

lemma backs_append [simp]: "backs bk l (xs @ ys) \<longleftrightarrow> backs bk l xs \<and> backs bk (end_loc l xs) ys"
  by (induction xs arbitrary: l) auto

lemma path_frame: "c \<notin> insert l (Next ` set xs) \<Longrightarrow> path (lk(c := v)) l xs = path lk l xs"
  by (induction xs arbitrary: l) auto

lemma path_upd_Next [simp]: "a \<notin> set xs \<Longrightarrow> l \<noteq> Next a \<Longrightarrow> path (lk(Next a := v)) l xs = path lk l xs"
  by (rule path_frame) auto

lemma path_upd_First [simp]: "path (lk(First h := v)) (Next x) xs = path lk (Next x) xs"
  by (rule path_frame) auto

lemma path_upd_other_First [simp]: "h \<noteq> h' \<Longrightarrow> path (lk(First h := v)) (First h') xs = path lk (First h') xs"
  by (rule path_frame) auto

text \<open>The link in the last cell is not read by the path to it.\<close>

lemma path_upd_end [simp]:
  "distinct xs \<Longrightarrow> l \<notin> Next ` set xs \<Longrightarrow> path (lk(end_loc l xs := v)) l xs = path lk l xs"
proof (induction xs arbitrary: l)
  case (Cons x xs)
  have "l \<noteq> end_loc (Next x) xs"
    using Cons.prems by (cases xs rule: rev_cases) auto
  with Cons show ?case by auto
qed simp

lemma path_upd_end_First [simp]: "distinct xs \<Longrightarrow> path (lk(end_loc (First h) xs := v)) (First h) xs = path lk (First h) xs"
  by (rule path_upd_end) auto

lemma path_upd_end_other [simp]:
  "set xs \<inter> set ys = {} \<Longrightarrow> h \<noteq> h' \<Longrightarrow> path (lk(end_loc (First h) xs := v)) (First h') ys = path lk (First h') ys"
  "set xs \<inter> set ys = {} \<Longrightarrow> a \<notin> set xs \<Longrightarrow> path (lk(end_loc (First h) xs := v)) (Next a) ys = path lk (Next a) ys"
  by (rule path_frame; use end_loc_in [of h xs] in auto)+

lemma backs_upd_Prev [simp]: "a \<notin> set xs \<Longrightarrow> backs (bk(Prev a := v)) l xs = backs bk l xs"
  by (induction xs arbitrary: l) auto

lemma backs_upd_Last [simp]: "backs (bk(Last h := v)) l xs = backs bk l xs"
  by (induction xs arbitrary: l) auto

lemma path_cong:
  "\<lbrakk>lk' l = lk l; \<And>a. a \<in> set xs \<Longrightarrow> lk' (Next a) = lk (Next a)\<rbrakk> \<Longrightarrow> path lk' l xs = path lk l xs"
  by (induction xs arbitrary: l) auto

lemma chain_at_cong:
  "\<lbrakk>lk' (First h) = lk (First h); \<And>a. a \<in> set xs \<Longrightarrow> lk' (Next a) = lk (Next a)\<rbrakk>
   \<Longrightarrow> chain_at lk' (First h) xs = chain_at lk (First h) xs"
  using end_loc_in [of h xs] path_cong [of lk' "First h" lk xs] by (auto simp: chain_at_def)

lemma backs_cong: "(\<And>a. a \<in> set xs \<Longrightarrow> bk' (Prev a) = bk (Prev a)) \<Longrightarrow> backs bk' l xs = backs bk l xs"
  by (induction xs arbitrary: l) auto

lemma chain_at_Nil [simp]: "chain_at lk l [] \<longleftrightarrow> lk l = Some NULL"
  by (simp add: chain_at_def)

lemma chain_at_Cons: "chain_at lk l (x # xs) \<longleftrightarrow> lk l = Some (Ptr x) \<and> chain_at lk (Next x) xs"
  by (auto simp: chain_at_def)

lemma chain_at_append: "chain_at lk l (xs @ ys) \<longleftrightarrow> path lk l xs \<and> chain_at lk (end_loc l xs) ys"
  by (auto simp: chain_at_def)

lemma chain_at_first: "chain_at lk l xs \<Longrightarrow> lk l = Some (first_of xs)"
  by (cases xs) (auto simp: chain_at_def)

end
