(* ===== verification/Queue_Contract.thy ===== *)
theory Queue_Contract
  imports Link_Memory
begin

text \<open>
  What the queue macros promise: \<open>queue_op\<close> names a macro call, \<open>apply_op\<close> is what it does to a
  family of disjoint lists, one per head, and \<open>legal\<close> says when it may be called. A heap
  \<open>represents\<close> such a family. The locale \<open>queue_macros\<close> is the contract of one set of macros: a legal
  call has a defined outcome and does to the heap what \<open>apply_op\<close> does to the lists. In it
  follow whole runs of calls and the two kinds of \<open>FOREACH\<close> loop.
\<close>

subsection \<open>Calls and their effect on lists\<close>

datatype queue_op =
    Init nat
  | Insert_Head nat nat
  | Insert_Tail nat nat
  | Insert_After nat nat nat
  | Insert_Before nat nat nat
  | Remove nat nat
  | Remove_Head nat
  | Remove_After nat nat
  | Concat nat nat
  | Swap nat nat

type_synonym queues = "nat \<rightharpoonup> nat list"

fun insert_after :: "'a \<Rightarrow> 'a \<Rightarrow> 'a list \<Rightarrow> 'a list" where
  "insert_after y x [] = []"
| "insert_after y x (z # zs) = (if z = y then z # x # zs else z # insert_after y x zs)"

fun insert_before :: "'a \<Rightarrow> 'a \<Rightarrow> 'a list \<Rightarrow> 'a list" where
  "insert_before y x [] = []"
| "insert_before y x (z # zs) = (if z = y then x # z # zs else z # insert_before y x zs)"

fun remove_after :: "'a \<Rightarrow> 'a list \<Rightarrow> 'a list" where
  "remove_after y [] = []"
| "remove_after y (z # zs) = (if z = y then z # tl zs else z # remove_after y zs)"

definition at_head :: "nat \<Rightarrow> (nat list \<Rightarrow> nat list) \<Rightarrow> queues \<Rightarrow> queues" where
  "at_head h f Q = Q(h := map_option f (Q h))"

fun apply_op :: "queue_op \<Rightarrow> queues \<Rightarrow> queues" where
  "apply_op (Init h) Q = Q(h \<mapsto> [])"
| "apply_op (Insert_Head h x) Q = at_head h (\<lambda>xs. x # xs) Q"
| "apply_op (Insert_Tail h x) Q = at_head h (\<lambda>xs. xs @ [x]) Q"
| "apply_op (Insert_After h y x) Q = at_head h (insert_after y x) Q"
| "apply_op (Insert_Before h y x) Q = at_head h (insert_before y x) Q"
| "apply_op (Remove h x) Q = at_head h (remove1 x) Q"
| "apply_op (Remove_Head h) Q = at_head h tl Q"
| "apply_op (Remove_After h y) Q = at_head h (remove_after y) Q"
| "apply_op (Concat h1 h2) Q = Q(h1 \<mapsto> the (Q h1) @ the (Q h2), h2 \<mapsto> [])"
| "apply_op (Swap h1 h2) Q = Q(h1 := Q h2, h2 := Q h1)"

fun lookup_queue :: "queues \<Rightarrow> nat \<Rightarrow> nat list" where
  "lookup_queue Q h = (case Q h of None \<Rightarrow> [] | Some xs \<Rightarrow> xs)"

text \<open>A call may name initialised heads, members of the list it names, and, to insert, an element
  of the universe \<open>U\<close> that is in no list. \<open>H\<close> is the set of heads that exist, in a list so that the
  condition computes.\<close>

fun unused :: "nat list \<Rightarrow> queues \<Rightarrow> nat \<Rightarrow> bool" where
  "unused H Q x \<longleftrightarrow> list_all (\<lambda>h. x \<notin> set (lookup_queue Q h)) H"

fun legal :: "nat list \<Rightarrow> nat set \<Rightarrow> queues \<Rightarrow> queue_op \<Rightarrow> bool" where
  "legal H U Q (Init h) \<longleftrightarrow> h \<in> set H"
| "legal H U Q (Insert_Head h x) \<longleftrightarrow> Q h \<noteq> None \<and> x \<in> U \<and> unused H Q x"
| "legal H U Q (Insert_Tail h x) \<longleftrightarrow> Q h \<noteq> None \<and> x \<in> U \<and> unused H Q x"
| "legal H U Q (Insert_After h y x) \<longleftrightarrow> y \<in> set (lookup_queue Q h) \<and> x \<in> U \<and> unused H Q x"
| "legal H U Q (Insert_Before h y x) \<longleftrightarrow> y \<in> set (lookup_queue Q h) \<and> x \<in> U \<and> unused H Q x"
| "legal H U Q (Remove h x) \<longleftrightarrow> x \<in> set (lookup_queue Q h)"
| "legal H U Q (Remove_Head h) \<longleftrightarrow> lookup_queue Q h \<noteq> []"
| "legal H U Q (Remove_After h y) \<longleftrightarrow> y \<in> set (butlast (lookup_queue Q h))"
| "legal H U Q (Concat h1 h2) \<longleftrightarrow> Q h1 \<noteq> None \<and> Q h2 \<noteq> None \<and> h1 \<noteq> h2"
| "legal H U Q (Swap h1 h2) \<longleftrightarrow> Q h1 \<noteq> None \<and> Q h2 \<noteq> None \<and> h1 \<noteq> h2"

definition disjoint_queues :: "nat set \<Rightarrow> nat set \<Rightarrow> queues \<Rightarrow> bool" where
  "disjoint_queues H U Q \<longleftrightarrow> dom Q \<subseteq> H \<and> (\<forall>h xs. Q h = Some xs \<longrightarrow> distinct xs \<and> set xs \<subseteq> U) \<and>
     (\<forall>h1 h2 xs ys. h1 \<noteq> h2 \<longrightarrow> Q h1 = Some xs \<longrightarrow> Q h2 = Some ys \<longrightarrow> set xs \<inter> set ys = {})"

text \<open>The heads and elements a call concerns.\<close>

fun op_heads :: "queue_op \<Rightarrow> nat set" where
  "op_heads (Init h) = {h}"
| "op_heads (Insert_Head h x) = {h}"
| "op_heads (Insert_Tail h x) = {h}"
| "op_heads (Insert_After h y x) = {h}"
| "op_heads (Insert_Before h y x) = {h}"
| "op_heads (Remove h x) = {h}"
| "op_heads (Remove_Head h) = {h}"
| "op_heads (Remove_After h y) = {h}"
| "op_heads (Concat h1 h2) = {h1, h2}"
| "op_heads (Swap h1 h2) = {h1, h2}"

fun op_new :: "queue_op \<Rightarrow> nat set" where
  "op_new (Insert_Head h x) = {x}"
| "op_new (Insert_Tail h x) = {x}"
| "op_new (Insert_After h y x) = {x}"
| "op_new (Insert_Before h y x) = {x}"
| "op_new _ = {}"

definition op_elems :: "queue_op \<Rightarrow> queues \<Rightarrow> nat set" where
  "op_elems c Q = op_new c \<union> (\<Union>h \<in> op_heads c. set (lookup_queue Q h))"

subsection \<open>Facts on the list operations\<close>

lemma insert_after_split: "y \<notin> set us \<Longrightarrow> insert_after y x (us @ y # vs) = us @ y # x # vs"
  by (induction us) auto

lemma insert_before_split: "y \<notin> set us \<Longrightarrow> insert_before y x (us @ y # vs) = us @ x # y # vs"
  by (induction us) auto

lemma remove_after_split: "y \<notin> set us \<Longrightarrow> remove_after y (us @ y # vs) = us @ y # tl vs"
  by (induction us) auto

lemma remove1_split: "y \<notin> set us \<Longrightarrow> remove1 y (us @ y # vs) = us @ vs"
  by (induction us) auto

lemma butlast_split: "y \<in> set (butlast xs) \<Longrightarrow> \<exists>us x vs. xs = us @ y # x # vs \<and> y \<notin> set us"
proof (induction xs)
  case (Cons z zs)
  then show ?case
  proof (cases "z = y")
    case True
    with Cons.prems obtain w ws where "zs = w # ws" by (cases zs) auto
    with True have "z # zs = [] @ y # w # ws \<and> y \<notin> set []" by simp
    then show ?thesis by blast
  next
    case False
    then obtain us x vs where "zs = us @ y # x # vs" "y \<notin> set us"
      using Cons by (auto split: if_splits)
    with False have "z # zs = (z # us) @ y # x # vs \<and> y \<notin> set (z # us)" by simp
    then show ?thesis by blast
  qed
qed simp

lemma set_insert_after: "set (insert_after y x xs) \<subseteq> insert x (set xs)"
  by (induction xs) auto

lemma set_insert_before: "set (insert_before y x xs) \<subseteq> insert x (set xs)"
  by (induction xs) auto

lemma set_remove_after: "set (remove_after y xs) \<subseteq> set xs"
proof (induction xs)
  case (Cons z zs)
  then show ?case by (cases zs) auto
qed simp

lemma distinct_insert_after: "distinct xs \<Longrightarrow> x \<notin> set xs \<Longrightarrow> distinct (insert_after y x xs)"
  using set_insert_after by (induction xs) (auto, fastforce)

lemma distinct_insert_before: "distinct xs \<Longrightarrow> x \<notin> set xs \<Longrightarrow> distinct (insert_before y x xs)"
  using set_insert_before by (induction xs) (auto, fastforce)

lemma distinct_remove_after: "distinct xs \<Longrightarrow> distinct (remove_after y xs)"
proof (induction xs)
  case (Cons z zs)
  then show ?case using set_remove_after [of y zs] by (cases zs) (auto simp: distinct_tl)
qed simp

subsection \<open>Legal calls keep the lists disjoint\<close>

lemma disjoint_queuesD:
  assumes "disjoint_queues H U Q" and "Q h = Some xs"
  shows "h \<in> H" and "distinct xs" and "set xs \<subseteq> U"
    and "\<And>h' ys. h' \<noteq> h \<Longrightarrow> Q h' = Some ys \<Longrightarrow> set xs \<inter> set ys = {}"
  using assms unfolding disjoint_queues_def by (blast intro: domI)+

lemma unusedD:
  assumes "unused H Q x" and "disjoint_queues (set H) U Q" and "Q h = Some xs"
  shows "x \<notin> set xs"
proof -
  have "h \<in> set H" using disjoint_queuesD(1) [OF assms(2,3)] .
  then have "x \<notin> set (lookup_queue Q h)" using assms(1) by (auto simp: list_all_iff simp del: lookup_queue.simps)
  then show ?thesis using assms(3) by simp
qed

lemma disjoint_queues_update:
  assumes "disjoint_queues H U Q" and "h \<in> H" and "distinct ys" and "set ys \<subseteq> U"
    and "\<And>h' zs. h' \<noteq> h \<Longrightarrow> Q h' = Some zs \<Longrightarrow> set ys \<inter> set zs = {}"
  shows "disjoint_queues H U (Q(h \<mapsto> ys))"
  unfolding disjoint_queues_def
proof (intro conjI allI impI)
  show "dom (Q(h \<mapsto> ys)) \<subseteq> H" using assms(1,2) by (auto simp: disjoint_queues_def)
next
  fix k xs
  assume k: "(Q(h \<mapsto> ys)) k = Some xs"
  show "distinct xs" using k assms disjoint_queuesD(2) [OF assms(1)] by (auto split: if_splits)
  show "set xs \<subseteq> U" using k assms disjoint_queuesD(3) [OF assms(1)] by (auto split: if_splits)
next
  fix k1 k2 xs zs
  assume "k1 \<noteq> k2" and "(Q(h \<mapsto> ys)) k1 = Some xs" and "(Q(h \<mapsto> ys)) k2 = Some zs"
  then show "set xs \<inter> set zs = {}"
    using assms(5) [of k1 xs] assms(5) [of k2 zs] disjoint_queuesD(4) [OF assms(1), of k1 xs k2 zs]
    by (auto split: if_splits)
qed

lemma disjoint_queues_at_head:
  assumes "disjoint_queues (set H) U Q" and "Q h = Some xs" and "distinct (f xs)" and "set (f xs) \<subseteq> X \<union> set xs"
    and "\<And>x. x \<in> X \<Longrightarrow> unused H Q x" and "X \<subseteq> U"
  shows "disjoint_queues (set H) U (at_head h f Q)"
proof -
  have "disjoint_queues (set H) U (Q(h \<mapsto> f xs))"
  proof (rule disjoint_queues_update)
    show "disjoint_queues (set H) U Q" "h \<in> set H" "distinct (f xs)"
      using assms disjoint_queuesD(1) [OF assms(1,2)] by auto
    show "set (f xs) \<subseteq> U"
      using assms(4,6) disjoint_queuesD(3) [OF assms(1,2)] by blast
  next
    fix h' zs
    assume "h' \<noteq> h" and z: "Q h' = Some zs"
    then have "set xs \<inter> set zs = {}" using disjoint_queuesD(4) [OF assms(1,2)] by blast
    moreover have "X \<inter> set zs = {}" using unusedD [OF assms(5) assms(1) z] by blast
    ultimately show "set (f xs) \<inter> set zs = {}" using assms(4) by blast
  qed
  then show ?thesis using assms(2) by (simp add: at_head_def)
qed

lemma lookup_queue_Some: "Q h = Some xs \<Longrightarrow> lookup_queue Q h = xs"
  by simp

lemma lookup_queue_member: "x \<in> set (lookup_queue Q h) \<Longrightarrow> \<exists>xs. Q h = Some xs \<and> x \<in> set xs"
  by (cases "Q h") auto

lemma disjoint_queues_two:
  assumes "disjoint_queues H U Q" and "Q h1 = Some xs" and "Q h2 = Some ys" and "h1 \<noteq> h2"
    and "distinct xs'" and "distinct ys'" and "set xs' \<inter> set ys' = {}" and "set xs' \<union> set ys' \<subseteq> set xs \<union> set ys"
  shows "disjoint_queues H U (Q(h1 \<mapsto> xs', h2 \<mapsto> ys'))"
proof -
  note D1 = disjoint_queuesD [OF assms(1,2)] and D2 = disjoint_queuesD [OF assms(1,3)]
  have away: "set xs' \<inter> set zs = {}" "set ys' \<inter> set zs = {}" if "h' \<noteq> h1" "h' \<noteq> h2" "Q h' = Some zs" for h' zs
    using D1(4) [OF that(1,3)] D2(4) [OF that(2,3)] assms(8) by blast+
  have "disjoint_queues H U (Q(h1 \<mapsto> [], h2 \<mapsto> []))"
    by (intro disjoint_queues_update assms(1) D1(1) D2(1)) auto
  then have "disjoint_queues H U (Q(h1 \<mapsto> [], h2 \<mapsto> [], h1 \<mapsto> xs'))"
    by (rule disjoint_queues_update)
      (use D1 D2 assms away in \<open>auto split: if_splits\<close>)
  then have "disjoint_queues H U (Q(h1 \<mapsto> [], h2 \<mapsto> [], h1 \<mapsto> xs', h2 \<mapsto> ys'))"
    by (rule disjoint_queues_update)
      (use D1 D2 assms away in \<open>auto split: if_splits\<close>)
  then show ?thesis using assms(4) by (simp add: fun_upd_twist)
qed

lemma apply_op_disjoint:
  assumes "disjoint_queues (set H) U Q" and "legal H U Q c"
  shows "disjoint_queues (set H) U (apply_op c Q)"
proof (cases c)
  case (Init h)
  then show ?thesis using assms by (auto intro!: disjoint_queues_update)
next
  case (Insert_Head h x)
  then obtain xs where xs: "Q h = Some xs" using assms by auto
  then show ?thesis
    using assms Insert_Head unusedD [OF _ assms(1) xs] disjoint_queuesD(2) [OF assms(1) xs]
    by (auto intro!: disjoint_queues_at_head [OF assms(1) xs, where X = "{x}"])
next
  case (Insert_Tail h x)
  then obtain xs where xs: "Q h = Some xs" using assms by auto
  then show ?thesis
    using assms Insert_Tail unusedD [OF _ assms(1) xs] disjoint_queuesD(2) [OF assms(1) xs]
    by (auto intro!: disjoint_queues_at_head [OF assms(1) xs, where X = "{x}"])
next
  case (Insert_After h y x)
  then obtain xs where xs: "Q h = Some xs" using assms lookup_queue_member by force
  then show ?thesis
    using assms Insert_After unusedD [OF _ assms(1) xs] disjoint_queuesD(2) [OF assms(1) xs]
    by (auto intro!: disjoint_queues_at_head [OF assms(1) xs, where X = "{x}"] distinct_insert_after dest: subsetD [OF set_insert_after])
next
  case (Insert_Before h y x)
  then obtain xs where xs: "Q h = Some xs" using assms lookup_queue_member by force
  then show ?thesis
    using assms Insert_Before unusedD [OF _ assms(1) xs] disjoint_queuesD(2) [OF assms(1) xs]
    by (auto intro!: disjoint_queues_at_head [OF assms(1) xs, where X = "{x}"] distinct_insert_before dest: subsetD [OF set_insert_before])
next
  case (Remove h x)
  then obtain xs where xs: "Q h = Some xs" using assms lookup_queue_member by force
  then show ?thesis
    using Remove disjoint_queuesD(2) [OF assms(1) xs]
    by (auto intro!: disjoint_queues_at_head [OF assms(1) xs, where X = "{}"] distinct_remove1 dest: notin_set_remove1)
next
  case (Remove_Head h)
  then obtain xs where xs: "Q h = Some xs" using assms by (cases "Q h") auto
  then show ?thesis
    using Remove_Head disjoint_queuesD(2) [OF assms(1) xs]
    by (cases xs) (auto intro!: disjoint_queues_at_head [OF assms(1) xs, where X = "{}"] distinct_tl)
next
  case (Remove_After h y)
  then obtain xs where xs: "Q h = Some xs" using assms lookup_queue_member by (cases "Q h") auto
  then show ?thesis
    using Remove_After disjoint_queuesD(2) [OF assms(1) xs]
    by (auto intro!: disjoint_queues_at_head [OF assms(1) xs, where X = "{}"] distinct_remove_after dest: subsetD [OF set_remove_after])
next
  case (Concat h1 h2)
  then obtain xs ys where q: "Q h1 = Some xs" "Q h2 = Some ys" "h1 \<noteq> h2" using assms by auto
  then show ?thesis
    using Concat disjoint_queuesD(2,3) [OF assms(1) q(1)] disjoint_queuesD(2,3) [OF assms(1) q(2)]
      disjoint_queuesD(4) [OF assms(1) q(1) _ q(2)]
    by (auto intro!: disjoint_queues_two [OF assms(1) q])
next
  case (Swap h1 h2)
  then obtain xs ys where q: "Q h1 = Some xs" "Q h2 = Some ys" "h1 \<noteq> h2" using assms by auto
  then show ?thesis
    using Swap disjoint_queuesD(2,3) [OF assms(1) q(1)] disjoint_queuesD(2,3) [OF assms(1) q(2)]
      disjoint_queuesD(4) [OF assms(1) q(1) _ q(2)]
    by (auto intro!: disjoint_queues_two [OF assms(1) q])
qed

subsection \<open>Heaps that represent a family of lists\<close>

text \<open>What a kind of queue requires of the cells of one list: it depends on the cells of the list's
  own head and elements only.\<close>

type_synonym holds = "(loc \<rightharpoonup> ptr) \<Rightarrow> (bloc \<rightharpoonup> loc) \<Rightarrow> nat \<Rightarrow> nat list \<Rightarrow> bool"

definition own_cells :: "holds \<Rightarrow> bool" where
  "own_cells holds \<longleftrightarrow> (\<forall>lk lk' bk bk' h xs.
     lk' (First h) = lk (First h) \<longrightarrow> bk' (Last h) = bk (Last h) \<longrightarrow>
     (\<forall>a \<in> set xs. lk' (Next a) = lk (Next a) \<and> bk' (Prev a) = bk (Prev a)) \<longrightarrow> holds lk bk h xs \<longrightarrow> holds lk' bk' h xs)"

definition represents ::
  "holds \<Rightarrow> bloc set \<Rightarrow> nat set \<Rightarrow> nat set \<Rightarrow> (loc \<rightharpoonup> ptr) \<Rightarrow> (bloc \<rightharpoonup> loc) \<Rightarrow> queues \<Rightarrow> bool" where
  "represents holds B H U lk bk Q \<longleftrightarrow>
     dom lk = First ` H \<union> Next ` U \<and> dom bk = B \<and> disjoint_queues H U Q \<and>
     (\<forall>h xs. Q h = Some xs \<longrightarrow> holds lk bk h xs)"

lemma representsD:
  assumes "represents holds B H U lk bk Q"
  shows "dom lk = First ` H \<union> Next ` U" and "dom bk = B" and "disjoint_queues H U Q"
    and "Q h = Some xs \<Longrightarrow> holds lk bk h xs"
  using assms by (auto simp: represents_def)

lemma apply_op_elsewhere: "h \<notin> op_heads c \<Longrightarrow> apply_op c Q h = Q h"
  by (cases c) (auto simp: at_head_def)

text \<open>A call may be judged by the lists it concerns: it touches the cells of their heads and elements
  only.\<close>

lemma represents_step:
  assumes "represents holds B (set H) U lk bk Q" and "own_cells holds" and "legal H U Q c"
    and "dom lk' = dom lk" and "dom bk' = dom bk"
    and "\<And>h. h \<notin> op_heads c \<Longrightarrow> lk' (First h) = lk (First h) \<and> bk' (Last h) = bk (Last h)"
    and "\<And>a. a \<notin> op_elems c Q \<Longrightarrow> lk' (Next a) = lk (Next a) \<and> bk' (Prev a) = bk (Prev a)"
    and "\<And>h xs. h \<in> op_heads c \<Longrightarrow> apply_op c Q h = Some xs \<Longrightarrow> holds lk' bk' h xs"
  shows "represents holds B (set H) U lk' bk' (apply_op c Q)"
proof -
  note R = representsD [OF assms(1)]
  have "holds lk' bk' h xs" if q: "apply_op c Q h = Some xs" for h xs
  proof (cases "h \<in> op_heads c")
    case True
    then show ?thesis using assms(8) q by blast
  next
    case False
    then have Q: "Q h = Some xs" using q apply_op_elsewhere by metis
    have "a \<notin> op_elems c Q" if "a \<in> set xs" for a
    proof -
      have "a \<notin> op_new c"
        using assms(3) that unusedD [OF _ R(3) Q] by (cases c) auto
      moreover have "a \<notin> set (lookup_queue Q k)" if k: "k \<in> op_heads c" for k
      proof (cases "Q k")
        case (Some ys)
        then show ?thesis
          using disjoint_queuesD(4) [OF R(3) Some, of h xs] Q \<open>a \<in> set xs\<close> False k by auto
      qed simp
      ultimately show ?thesis by (auto simp: op_elems_def)
    qed
    then show ?thesis
      using assms(2) R(4) [OF Q] assms(6) [OF False] assms(7) unfolding own_cells_def by blast
  qed
  then show ?thesis
    using assms(4,5) R(1,2) apply_op_disjoint [OF R(3) assms(3)] by (simp add: represents_def)
qed

subsection \<open>Judging a call by the lists it concerns\<close>

definition queue_rep ::
  "holds \<Rightarrow> (nat list \<Rightarrow> nat set \<Rightarrow> bloc set) \<Rightarrow> ('m \<Rightarrow> loc \<rightharpoonup> ptr) \<Rightarrow> ('m \<Rightarrow> bloc \<rightharpoonup> loc) \<Rightarrow>
    nat list \<Rightarrow> nat set \<Rightarrow> 'm \<Rightarrow> queues \<Rightarrow> bool" where
  "queue_rep holds B lk bk H U m Q \<longleftrightarrow> represents holds (B H U) (set H) U (lk m) (bk m) Q"

text \<open>A heap that is seen as two maps of cells, with calls that neither make nor lose a cell.\<close>

locale linked_cells =
  fixes lk :: "'m \<Rightarrow> loc \<rightharpoonup> ptr"
    and bk :: "'m \<Rightarrow> bloc \<rightharpoonup> loc"
    and exec :: "queue_op \<Rightarrow> 'm \<Rightarrow> 'm option"
    and holds :: holds
    and B :: "nat list \<Rightarrow> nat set \<Rightarrow> bloc set"
  assumes own: "own_cells holds"
    and exec_dom: "exec c m = Some m' \<Longrightarrow> dom (lk m') = dom (lk m) \<and> dom (bk m') = dom (bk m)"
begin

lemma link_iff: "queue_rep holds B lk bk H U m Q \<Longrightarrow> lk m c \<noteq> None \<longleftrightarrow> c \<in> First ` set H \<union> Next ` U"
  using representsD(1) [of holds] domIff [of c "lk m"] unfolding queue_rep_def by blast

lemma back_iff: "queue_rep holds B lk bk H U m Q \<Longrightarrow> bk m c \<noteq> None \<longleftrightarrow> c \<in> B H U"
  using representsD(2) [of holds] domIff [of c "bk m"] unfolding queue_rep_def by blast

lemma queues_disjoint: "queue_rep holds B lk bk H U m Q \<Longrightarrow> disjoint_queues (set H) U Q"
  unfolding queue_rep_def by (rule representsD(3))

lemma list_holds:
  assumes "queue_rep holds B lk bk H U m Q" and "Q h = Some xs"
  shows "distinct xs" and "holds (lk m) (bk m) h xs"
  using disjoint_queuesD(2) [OF queues_disjoint [OF assms(1)] assms(2)]
    representsD(4) [OF assms(1) [unfolded queue_rep_def] assms(2)] by auto

lemma list_in:
  assumes "queue_rep holds B lk bk H U m Q" and "Q h = Some xs"
  shows "h \<in> set H" and "a \<in> set xs \<Longrightarrow> a \<in> U"
  using disjoint_queuesD(1,3) [OF queues_disjoint [OF assms(1)] assms(2)] by auto

lemma unused_in_none:
  assumes "queue_rep holds B lk bk H U m Q" and "unused H Q x" and "Q h = Some xs"
  shows "x \<notin> set xs"
  using unusedD [OF assms(2) queues_disjoint [OF assms(1)] assms(3)] .

lemma unused_cell:
  assumes "queue_rep holds B lk bk H U m Q" and "x \<in> U"
  shows "\<exists>p. lk m (Next x) = Some p"
  using link_iff [OF assms(1), of "Next x"] assms(2) by auto

lemma two_lists:
  assumes "queue_rep holds B lk bk H U m Q" and "Q h1 = Some xs" and "Q h2 = Some ys" and "h1 \<noteq> h2"
  shows "set xs \<inter> set ys = {}"
  using disjoint_queuesD(4) [OF queues_disjoint [OF assms(1)] assms(2) _ assms(3)] assms(4) by blast

lemma step:
  assumes "queue_rep holds B lk bk H U m Q" and "legal H U Q c" and "exec c m = Some m'"
    and "\<And>h. h \<notin> op_heads c \<Longrightarrow> lk m' (First h) = lk m (First h) \<and> bk m' (Last h) = bk m (Last h)"
    and "\<And>a. a \<notin> op_elems c Q \<Longrightarrow> lk m' (Next a) = lk m (Next a) \<and> bk m' (Prev a) = bk m (Prev a)"
    and "\<And>h xs. h \<in> op_heads c \<Longrightarrow> apply_op c Q h = Some xs \<Longrightarrow> holds (lk m') (bk m') h xs"
  shows "\<exists>m'. exec c m = Some m' \<and> queue_rep holds B lk bk H U m' (apply_op c Q)"
proof -
  have "queue_rep holds B lk bk H U m' (apply_op c Q)"
    unfolding queue_rep_def
    by (rule represents_step [OF assms(1) [unfolded queue_rep_def] own assms(2)
      conjunct1 [OF exec_dom [OF assms(3)]] conjunct2 [OF exec_dom [OF assms(3)]] assms(4-6)])
  with assms(3) show ?thesis by blast
qed

lemma step1:
  assumes "queue_rep holds B lk bk H U m Q" and "legal H U Q c" and "exec c m = Some m'"
    and "op_heads c = {h}" and "Q h = Some xs" and "apply_op c Q = Q(h \<mapsto> ys)"
    and "\<And>k. k \<noteq> h \<Longrightarrow> lk m' (First k) = lk m (First k) \<and> bk m' (Last k) = bk m (Last k)"
    and "\<And>a. a \<notin> set xs \<Longrightarrow> a \<notin> op_new c \<Longrightarrow> lk m' (Next a) = lk m (Next a) \<and> bk m' (Prev a) = bk m (Prev a)"
    and "holds (lk m') (bk m') h ys"
  shows "\<exists>m'. exec c m = Some m' \<and> queue_rep holds B lk bk H U m' (apply_op c Q)"
proof (rule step [OF assms(1-3)])
  show "lk m' (First k) = lk m (First k) \<and> bk m' (Last k) = bk m (Last k)" if "k \<notin> op_heads c" for k
    using assms(4,7) that by simp
  show "lk m' (Next a) = lk m (Next a) \<and> bk m' (Prev a) = bk m (Prev a)" if "a \<notin> op_elems c Q" for a
    using assms(4,5,8) that by (simp add: op_elems_def)
  show "holds (lk m') (bk m') k zs" if "k \<in> op_heads c" "apply_op c Q k = Some zs" for k zs
    using assms(4,6,9) that by simp
qed

lemma step2:
  assumes "queue_rep holds B lk bk H U m Q" and "legal H U Q c" and "exec c m = Some m'"
    and "op_heads c = {h1, h2}" and "Q h1 = Some xs" and "Q h2 = Some ys"
    and "apply_op c Q h1 = Some xs'" and "apply_op c Q h2 = Some ys'"
    and "\<And>k. k \<noteq> h1 \<Longrightarrow> k \<noteq> h2 \<Longrightarrow> lk m' (First k) = lk m (First k) \<and> bk m' (Last k) = bk m (Last k)"
    and "\<And>a. a \<notin> set xs \<Longrightarrow> a \<notin> set ys \<Longrightarrow> lk m' (Next a) = lk m (Next a) \<and> bk m' (Prev a) = bk m (Prev a)"
    and "holds (lk m') (bk m') h1 xs'" and "holds (lk m') (bk m') h2 ys'"
  shows "\<exists>m'. exec c m = Some m' \<and> queue_rep holds B lk bk H U m' (apply_op c Q)"
proof (rule step [OF assms(1-3)])
  show "lk m' (First k) = lk m (First k) \<and> bk m' (Last k) = bk m (Last k)" if "k \<notin> op_heads c" for k
    using assms(4,9) that by simp
  show "lk m' (Next a) = lk m (Next a) \<and> bk m' (Prev a) = bk m (Prev a)" if "a \<notin> op_elems c Q" for a
    using assms(4,5,6,10) that by (simp add: op_elems_def)
  show "holds (lk m') (bk m') k zs" if "k \<in> op_heads c" "apply_op c Q k = Some zs" for k zs
    using assms(4,7,8,11,12) that by auto
qed

end

subsection \<open>The contract of a set of queue macros\<close>

primrec run_ops :: "(queue_op \<Rightarrow> 'm \<Rightarrow> 'm option) \<Rightarrow> queue_op list \<Rightarrow> 'm \<Rightarrow> 'm option" where
  "run_ops exec [] m = Some m"
| "run_ops exec (c # cs) m = Option.bind (exec c m) (run_ops exec cs)"

primrec apply_ops :: "queue_op list \<Rightarrow> queues \<Rightarrow> queues" where
  "apply_ops [] Q = Q"
| "apply_ops (c # cs) Q = apply_ops cs (apply_op c Q)"

primrec legal_run :: "(queue_op \<Rightarrow> bool) \<Rightarrow> nat list \<Rightarrow> nat set \<Rightarrow> queue_op list \<Rightarrow> queues \<Rightarrow> bool" where
  "legal_run offers H U [] Q \<longleftrightarrow> True"
| "legal_run offers H U (c # cs) Q \<longleftrightarrow> offers c \<and> legal H U Q c \<and> legal_run offers H U cs (apply_op c Q)"

text \<open>The loop body run on each element in turn: what a \<open>FOREACH\<close> loop is meant to be.\<close>

primrec each :: "(nat \<Rightarrow> 's \<Rightarrow> 's option) \<Rightarrow> nat list \<Rightarrow> 's \<Rightarrow> 's option" where
  "each body [] s = Some s"
| "each body (x # xs) s = Option.bind (body x s) (each body xs)"

text \<open>A loop body that notes the elements it sees.\<close>

fun note_elem :: "nat \<Rightarrow> 'm \<times> nat list \<Rightarrow> ('m \<times> nat list) option" where
  "note_elem a (m, seen) = Some (m, seen @ [a])"

text \<open>A loop body after which the links are as before.\<close>

definition keeps :: "('s \<Rightarrow> 'm) \<Rightarrow> (nat \<Rightarrow> 's \<Rightarrow> 's option) \<Rightarrow> bool" where
  "keeps mem body \<longleftrightarrow> (\<forall>a s s'. body a s = Some s' \<longrightarrow> mem s' = mem s)"

lemma keeps_note_elem [simp]: "keeps fst note_elem"
  by (auto simp: keeps_def)

lemma each_note_elem: "each note_elem xs (m, seen) = Some (m, seen @ xs)"
  by (induction xs arbitrary: seen) auto

definition last_of :: "nat list \<Rightarrow> ptr" where
  "last_of xs = (if xs = [] then NULL else Ptr (last xs))"

lemma last_of_take: "i < length xs \<Longrightarrow> last_of (take i xs) = (if i = 0 then NULL else Ptr (xs ! (i - 1)))"
  by (cases i) (auto simp: last_of_def take_Suc_conv_app_nth)

text \<open>A loop body that unlinks the elements that satisfy a predicate.\<close>

definition drop_if :: "(nat \<Rightarrow> nat \<Rightarrow> 'm \<Rightarrow> 'm option) \<Rightarrow> (nat \<Rightarrow> bool) \<Rightarrow> nat \<Rightarrow> nat \<Rightarrow> 'm \<Rightarrow> 'm option" where
  "drop_if unlink P h a m = (if P a then unlink h a m else Some m)"

lemma drop_if_cases [simp]:
  "P a \<Longrightarrow> drop_if unlink P h a m = unlink h a m" "\<not> P a \<Longrightarrow> drop_if unlink P h a m = Some m"
  by (auto simp: drop_if_def)

text \<open>A way to walk through the lists, in either direction: the plain loop.\<close>

locale queue_walk =
  fixes rep :: "nat list \<Rightarrow> nat set \<Rightarrow> 'm \<Rightarrow> queues \<Rightarrow> bool"
    and first :: "'m \<Rightarrow> nat \<Rightarrow> ptr option"
    and follow :: "'m \<Rightarrow> ptr \<Rightarrow> ptr option"
  assumes first_rep: "rep H U m Q \<Longrightarrow> Q h = Some xs \<Longrightarrow> first m h = Some (first_of xs)"
    and follow_rep: "rep H U m Q \<Longrightarrow> Q h = Some (us @ x # vs) \<Longrightarrow> follow m (Ptr x) = Some (first_of vs)"
begin

lemma loop_visits:
  assumes "keeps mem body"
  shows "rep H U (mem s) Q \<Longrightarrow> Q h = Some (us @ vs) \<Longrightarrow>
    link_loop (\<lambda>s. follow (mem s)) body (first_of vs) s = each body vs s"
proof (induction vs arbitrary: us s)
  case Nil
  then show ?case by (subst link_loop.simps) simp
next
  case (Cons v vs)
  show ?case
  proof (cases "body v s")
    case None
    then show ?thesis by (subst link_loop.simps) simp
  next
    case (Some s')
    then have "mem s' = mem s" using assms by (auto simp: keeps_def)
    then show ?thesis
      using Some Cons.IH [of s' "us @ [v]"] Cons.prems follow_rep [OF Cons.prems(1), of h us v vs]
      by (subst link_loop.simps) simp
  qed
qed

lemma foreach_visits:
  assumes "keeps mem body" and "rep H U (mem s) Q" and "Q h = Some xs"
  shows "Option.bind (first (mem s) h) (\<lambda>p. link_loop (\<lambda>s. follow (mem s)) body p s) = each body xs s"
  using loop_visits [where us = "[]", OF assms(1)] assms first_rep [OF assms(2,3)] by simp

end

text \<open>The safe loop allows its body to unlink the element it is at.\<close>

locale queue_unlink = queue_walk +
  fixes unlink :: "nat \<Rightarrow> nat \<Rightarrow> 'm \<Rightarrow> 'm option"
  assumes unlink_rep: "rep H U m Q \<Longrightarrow> Q h = Some (us @ x # vs) \<Longrightarrow> \<exists>m'. unlink h x m = Some m' \<and> rep H U m' (Q(h \<mapsto> us @ vs))"
begin

lemma safe_loop_filters:
  "rep H U m Q \<Longrightarrow> Q h = Some (us @ vs) \<Longrightarrow>
    \<exists>m'. link_safe_loop follow (drop_if unlink P h) (first_of vs) m = Some m' \<and>
      rep H U m' (Q(h \<mapsto> us @ filter (\<lambda>x. \<not> P x) vs))"
proof (induction vs arbitrary: us m Q)
  case Nil
  then have "Q(h \<mapsto> us) = Q" by auto
  with Nil show ?case by (subst link_safe_loop.simps) simp
next
  case (Cons v vs)
  have f: "follow m (Ptr v) = Some (first_of vs)"
    using follow_rep [OF Cons.prems] .
  show ?case
  proof (cases "P v")
    case False
    then show ?thesis
      using f Cons.IH [of m Q "us @ [v]"] Cons.prems
      by (subst link_safe_loop.simps) (simp add: fun_upd_def)
  next
    case True
    obtain m' where "unlink h v m = Some m'" "rep H U m' (Q(h \<mapsto> us @ vs))"
      using unlink_rep [OF Cons.prems] by auto
    then show ?thesis
      using True f Cons.IH [of m' "Q(h \<mapsto> us @ vs)" us]
      by (subst link_safe_loop.simps) (simp add: fun_upd_def cong: if_cong)
  qed
qed

lemma foreach_filters:
  assumes "rep H U m Q" and "Q h = Some xs"
  shows "\<exists>m'. Option.bind (first m h) (\<lambda>p. link_safe_loop follow (drop_if unlink P h) p m) = Some m' \<and>
    rep H U m' (Q(h \<mapsto> filter (\<lambda>x. \<not> P x) xs))"
  using safe_loop_filters [OF assms(1), of h "[]" xs P] first_rep [OF assms] assms(2) by simp

end

text \<open>A set of macros that change the queues: runs of calls.\<close>

locale queue_macros = queue_walk +
  fixes offers :: "queue_op \<Rightarrow> bool"
    and exec :: "queue_op \<Rightarrow> 'm \<Rightarrow> 'm option"
  assumes exec_legal: "rep H U m Q \<Longrightarrow> offers c \<Longrightarrow> legal H U Q c \<Longrightarrow> \<exists>m'. exec c m = Some m' \<and> rep H U m' (apply_op c Q)"
    and offers_remove: "offers (Remove h x)"
    and rep_disjoint: "rep H U m Q \<Longrightarrow> disjoint_queues (set H) U Q"
begin

lemma run_legal:
  "rep H U m Q \<Longrightarrow> legal_run offers H U cs Q \<Longrightarrow> \<exists>m'. run_ops exec cs m = Some m' \<and> rep H U m' (apply_ops cs Q)"
proof (induction cs arbitrary: m Q)
  case (Cons c cs)
  then obtain m1 where "exec c m = Some m1" "rep H U m1 (apply_op c Q)"
    using exec_legal [of H U m Q c] by auto
  with Cons.IH [of m1 "apply_op c Q"] Cons.prems show ?case by auto
qed simp

end

sublocale queue_macros \<subseteq> queue_unlink rep first follow "\<lambda>h x. exec (Remove h x)"
proof unfold_locales
  fix H U m Q h us x vs
  assume r: "rep H U m Q" and Q: "Q h = Some (us @ x # vs)"
  have "apply_op (Remove h x) Q = Q(h \<mapsto> us @ vs)"
    using disjoint_queuesD(2) [OF rep_disjoint [OF r] Q] Q by (simp add: at_head_def remove1_split)
  then show "\<exists>m'. exec (Remove h x) m = Some m' \<and> rep H U m' (Q(h \<mapsto> us @ vs))"
    using exec_legal [OF r offers_remove, of h x] Q by simp
qed

end
