(* ===== verification/Stailq.thy ===== *)
theory Stailq
  imports Queue_Contract
begin

text \<open>
  The singly-linked tail queues of \<^verbatim>\<open>server/src/queue.h\<close> (the \<open>STAILQ_*\<close> macros): a head holds
  the first element and the address of the last link, which is a cell of the head itself as long
  as the queue is empty. Every macro is a definition; \<open>stailq_exec\<close> collects those that change a
  queue, and they meet the contract of \<open>Queue_Contract\<close>.
\<close>

subsection \<open>Declarations\<close>

record stailq_head =
  stqh_first :: ptr
  stqh_last :: loc

record stailq_entry =
  stqe_next :: ptr

record stailq_mem =
  sq_heads :: "nat \<rightharpoonup> stailq_head"
  sq_elems :: "nat \<rightharpoonup> stailq_entry"

definition STAILQ_HEAD_INITIALIZER :: "nat \<Rightarrow> stailq_head" where
  "STAILQ_HEAD_INITIALIZER head = \<lparr>stqh_first = NULL, stqh_last = First head\<rparr>"

text \<open>\<open>*l\<close> and \<open>*l = v\<close> for a cell \<open>l\<close>, \<open>(head)->stqh_last\<close> and the assignment to it.\<close>

fun sq_link :: "stailq_mem \<Rightarrow> loc \<Rightarrow> ptr option" where
  "sq_link m (First h) = map_option stqh_first (sq_heads m h)"
| "sq_link m (Next a) = map_option stqe_next (sq_elems m a)"

fun sq_set_link :: "loc \<Rightarrow> ptr \<Rightarrow> stailq_mem \<Rightarrow> stailq_mem option" where
  "sq_set_link (First h) v m = (case sq_heads m h of None \<Rightarrow> None
     | Some r \<Rightarrow> Some (m\<lparr>sq_heads := (sq_heads m)(h \<mapsto> r\<lparr>stqh_first := v\<rparr>)\<rparr>))"
| "sq_set_link (Next a) v m = (case sq_elems m a of None \<Rightarrow> None
     | Some r \<Rightarrow> Some (m\<lparr>sq_elems := (sq_elems m)(a \<mapsto> r\<lparr>stqe_next := v\<rparr>)\<rparr>))"

definition sq_last :: "stailq_mem \<Rightarrow> nat \<Rightarrow> loc option" where
  "sq_last m h = map_option stqh_last (sq_heads m h)"

definition sq_set_last :: "nat \<Rightarrow> loc \<Rightarrow> stailq_mem \<Rightarrow> stailq_mem option" where
  "sq_set_last h l m = (case sq_heads m h of None \<Rightarrow> None
     | Some r \<Rightarrow> Some (m\<lparr>sq_heads := (sq_heads m)(h \<mapsto> r\<lparr>stqh_last := l\<rparr>)\<rparr>))"

subsection \<open>Macros\<close>

definition STAILQ_FIRST :: "stailq_mem \<Rightarrow> nat \<Rightarrow> ptr option" where
  "STAILQ_FIRST m head = sq_link m (First head)"

definition STAILQ_EMPTY :: "stailq_mem \<Rightarrow> nat \<Rightarrow> bool option" where
  "STAILQ_EMPTY m head = map_option (\<lambda>p. p = NULL) (STAILQ_FIRST m head)"

definition STAILQ_NEXT :: "stailq_mem \<Rightarrow> ptr \<Rightarrow> ptr option" where
  "STAILQ_NEXT m elm = do { l \<leftarrow> next_at elm; sq_link m l }"

text \<open>\<open>STAILQ_NEXT((elm), field) = v\<close> and \<open>(head)->stqh_last = &STAILQ_NEXT((elm), field)\<close>\<close>

definition sq_set_next :: "ptr \<Rightarrow> ptr \<Rightarrow> stailq_mem \<Rightarrow> stailq_mem option" where
  "sq_set_next elm v m = do { l \<leftarrow> next_at elm; sq_set_link l v m }"

definition sq_last_is :: "nat \<Rightarrow> ptr \<Rightarrow> stailq_mem \<Rightarrow> stailq_mem option" where
  "sq_last_is head elm m = do { l \<leftarrow> next_at elm; sq_set_last head l m }"

definition STAILQ_INIT :: "nat \<Rightarrow> stailq_mem \<Rightarrow> stailq_mem option" where
  "STAILQ_INIT head m = do {
     m \<leftarrow> sq_set_link (First head) NULL m;
     sq_set_last head (First head) m
   }"

definition STAILQ_INSERT_HEAD :: "nat \<Rightarrow> ptr \<Rightarrow> stailq_mem \<Rightarrow> stailq_mem option" where
  "STAILQ_INSERT_HEAD head elm m = do {
     q \<leftarrow> STAILQ_FIRST m head;
     m \<leftarrow> sq_set_next elm q m;
     m \<leftarrow> (if q = NULL then sq_last_is head elm m else Some m);
     sq_set_link (First head) elm m
   }"

definition STAILQ_INSERT_TAIL :: "nat \<Rightarrow> ptr \<Rightarrow> stailq_mem \<Rightarrow> stailq_mem option" where
  "STAILQ_INSERT_TAIL head elm m = do {
     m \<leftarrow> sq_set_next elm NULL m;
     l \<leftarrow> sq_last m head;
     m \<leftarrow> sq_set_link l elm m;
     sq_last_is head elm m
   }"

definition STAILQ_INSERT_AFTER :: "nat \<Rightarrow> ptr \<Rightarrow> ptr \<Rightarrow> stailq_mem \<Rightarrow> stailq_mem option" where
  "STAILQ_INSERT_AFTER head tqelm elm m = do {
     q \<leftarrow> STAILQ_NEXT m tqelm;
     m \<leftarrow> sq_set_next elm q m;
     m \<leftarrow> (if q = NULL then sq_last_is head elm m else Some m);
     sq_set_next tqelm elm m
   }"

definition STAILQ_LAST :: "stailq_mem \<Rightarrow> nat \<Rightarrow> ptr option" where
  "STAILQ_LAST m head = do {
     empty \<leftarrow> STAILQ_EMPTY m head;
     if empty then Some NULL else do { l \<leftarrow> sq_last m head; container_of l }
   }"

definition STAILQ_REMOVE_HEAD :: "nat \<Rightarrow> stailq_mem \<Rightarrow> stailq_mem option" where
  "STAILQ_REMOVE_HEAD head m = do {
     p \<leftarrow> STAILQ_FIRST m head;
     q \<leftarrow> STAILQ_NEXT m p;
     m \<leftarrow> sq_set_link (First head) q m;
     if q = NULL then sq_set_last head (First head) m else Some m
   }"

definition STAILQ_REMOVE_AFTER :: "nat \<Rightarrow> ptr \<Rightarrow> stailq_mem \<Rightarrow> stailq_mem option" where
  "STAILQ_REMOVE_AFTER head elm m = do {
     p \<leftarrow> STAILQ_NEXT m elm;
     q \<leftarrow> STAILQ_NEXT m p;
     m \<leftarrow> sq_set_next elm q m;
     if q = NULL then sq_last_is head elm m else Some m
   }"

text \<open>\<open>while (STAILQ_NEXT(curelm, field) != (elm)) curelm = STAILQ_NEXT(curelm, field)\<close>\<close>

partial_function (option) stailq_seek :: "stailq_mem \<Rightarrow> ptr \<Rightarrow> ptr \<Rightarrow> ptr option" where
  "stailq_seek m elm curelm = do {
     q \<leftarrow> STAILQ_NEXT m curelm;
     if q \<noteq> elm then stailq_seek m elm q else Some curelm
   }"

definition STAILQ_REMOVE :: "nat \<Rightarrow> ptr \<Rightarrow> stailq_mem \<Rightarrow> stailq_mem option" where
  "STAILQ_REMOVE head elm m = do {
     p \<leftarrow> STAILQ_FIRST m head;
     if p = elm then STAILQ_REMOVE_HEAD head m
     else do { curelm \<leftarrow> stailq_seek m elm p; STAILQ_REMOVE_AFTER head curelm m }
   }"

definition STAILQ_CONCAT :: "nat \<Rightarrow> nat \<Rightarrow> stailq_mem \<Rightarrow> stailq_mem option" where
  "STAILQ_CONCAT head1 head2 m = do {
     empty \<leftarrow> STAILQ_EMPTY m head2;
     if \<not> empty then do {
       l \<leftarrow> sq_last m head1;
       p \<leftarrow> STAILQ_FIRST m head2;
       m \<leftarrow> sq_set_link l p m;
       k \<leftarrow> sq_last m head2;
       m \<leftarrow> sq_set_last head1 k m;
       STAILQ_INIT head2 m
     } else Some m
   }"

definition STAILQ_SWAP :: "nat \<Rightarrow> nat \<Rightarrow> stailq_mem \<Rightarrow> stailq_mem option" where
  "STAILQ_SWAP head1 head2 m = do {
     swap_first \<leftarrow> STAILQ_FIRST m head1;
     swap_last \<leftarrow> sq_last m head1;
     p \<leftarrow> STAILQ_FIRST m head2;
     m \<leftarrow> sq_set_link (First head1) p m;
     l \<leftarrow> sq_last m head2;
     m \<leftarrow> sq_set_last head1 l m;
     m \<leftarrow> sq_set_link (First head2) swap_first m;
     m \<leftarrow> sq_set_last head2 swap_last m;
     empty \<leftarrow> STAILQ_EMPTY m head1;
     m \<leftarrow> (if empty then sq_set_last head1 (First head1) m else Some m);
     empty \<leftarrow> STAILQ_EMPTY m head2;
     if empty then sq_set_last head2 (First head2) m else Some m
   }"

text \<open>The iteration macros; the \<open>_FROM\<close> variants start at \<open>var\<close> if it is set. \<open>mem\<close> is the memory in
  the state of the loop body.\<close>

definition STAILQ_FOREACH :: "('s \<Rightarrow> stailq_mem) \<Rightarrow> (nat \<Rightarrow> 's \<Rightarrow> 's option) \<Rightarrow> nat \<Rightarrow> 's \<Rightarrow> 's option" where
  "STAILQ_FOREACH mem body head s = do {
     p \<leftarrow> STAILQ_FIRST (mem s) head;
     link_loop (\<lambda>s. STAILQ_NEXT (mem s)) body p s
   }"

definition STAILQ_FOREACH_FROM ::
  "('s \<Rightarrow> stailq_mem) \<Rightarrow> (nat \<Rightarrow> 's \<Rightarrow> 's option) \<Rightarrow> ptr \<Rightarrow> nat \<Rightarrow> 's \<Rightarrow> 's option" where
  "STAILQ_FOREACH_FROM mem body var head s = do {
     p \<leftarrow> (if var \<noteq> NULL then Some var else STAILQ_FIRST (mem s) head);
     link_loop (\<lambda>s. STAILQ_NEXT (mem s)) body p s
   }"

definition STAILQ_FOREACH_SAFE :: "('s \<Rightarrow> stailq_mem) \<Rightarrow> (nat \<Rightarrow> 's \<Rightarrow> 's option) \<Rightarrow> nat \<Rightarrow> 's \<Rightarrow> 's option" where
  "STAILQ_FOREACH_SAFE mem body head s = do {
     p \<leftarrow> STAILQ_FIRST (mem s) head;
     link_safe_loop (\<lambda>s. STAILQ_NEXT (mem s)) body p s
   }"

definition STAILQ_FOREACH_FROM_SAFE ::
  "('s \<Rightarrow> stailq_mem) \<Rightarrow> (nat \<Rightarrow> 's \<Rightarrow> 's option) \<Rightarrow> ptr \<Rightarrow> nat \<Rightarrow> 's \<Rightarrow> 's option" where
  "STAILQ_FOREACH_FROM_SAFE mem body var head s = do {
     p \<leftarrow> (if var \<noteq> NULL then Some var else STAILQ_FIRST (mem s) head);
     link_safe_loop (\<lambda>s. STAILQ_NEXT (mem s)) body p s
   }"

fun stailq_exec :: "queue_op \<Rightarrow> stailq_mem \<Rightarrow> stailq_mem option" where
  "stailq_exec (Init h) m = STAILQ_INIT h m"
| "stailq_exec (Insert_Head h x) m = STAILQ_INSERT_HEAD h (Ptr x) m"
| "stailq_exec (Insert_Tail h x) m = STAILQ_INSERT_TAIL h (Ptr x) m"
| "stailq_exec (Insert_After h y x) m = STAILQ_INSERT_AFTER h (Ptr y) (Ptr x) m"
| "stailq_exec (Insert_Before h y x) m = None"
| "stailq_exec (Remove h x) m = STAILQ_REMOVE h (Ptr x) m"
| "stailq_exec (Remove_Head h) m = STAILQ_REMOVE_HEAD h m"
| "stailq_exec (Remove_After h y) m = STAILQ_REMOVE_AFTER h (Ptr y) m"
| "stailq_exec (Concat h1 h2) m = STAILQ_CONCAT h1 h2 m"
| "stailq_exec (Swap h1 h2) m = STAILQ_SWAP h1 h2 m"

fun stailq_offers :: "queue_op \<Rightarrow> bool" where
  "stailq_offers (Insert_Before h y x) \<longleftrightarrow> False"
| "stailq_offers _ \<longleftrightarrow> True"

subsection \<open>The cells as two maps\<close>

fun sq_back :: "stailq_mem \<Rightarrow> bloc \<Rightarrow> loc option" where
  "sq_back m (Last h) = sq_last m h"
| "sq_back m (Prev a) = None"

definition sq_wr :: "loc \<Rightarrow> ptr \<Rightarrow> stailq_mem \<Rightarrow> stailq_mem" where
  "sq_wr l v m = the (sq_set_link l v m)"

definition sq_wr_last :: "nat \<Rightarrow> loc \<Rightarrow> stailq_mem \<Rightarrow> stailq_mem" where
  "sq_wr_last h l m = the (sq_set_last h l m)"

lemma sq_set_link_wr: "sq_link m l \<noteq> None \<Longrightarrow> sq_set_link l v m = Some (sq_wr l v m)"
  by (cases l) (auto simp: sq_wr_def)

lemma sq_link_wr: "sq_link m l \<noteq> None \<Longrightarrow> sq_link (sq_wr l v m) = (sq_link m)(l \<mapsto> v)"
proof (rule ext)
  fix c
  assume "sq_link m l \<noteq> None"
  then show "sq_link (sq_wr l v m) c = ((sq_link m)(l \<mapsto> v)) c"
    by (cases l; cases c) (auto simp: sq_wr_def)
qed

lemma sq_back_wr: "sq_link m l \<noteq> None \<Longrightarrow> sq_back (sq_wr l v m) = sq_back m"
proof (rule ext)
  fix c
  assume "sq_link m l \<noteq> None"
  then show "sq_back (sq_wr l v m) c = sq_back m c"
    by (cases l; cases c) (auto simp: sq_wr_def sq_last_def)
qed

lemma sq_set_last_wr: "sq_back m (Last h) \<noteq> None \<Longrightarrow> sq_set_last h l m = Some (sq_wr_last h l m)"
  by (auto simp: sq_wr_last_def sq_set_last_def sq_last_def)

lemma sq_link_wr_last: "sq_back m (Last h) \<noteq> None \<Longrightarrow> sq_link (sq_wr_last h l m) = sq_link m"
proof (rule ext)
  fix c
  assume "sq_back m (Last h) \<noteq> None"
  then show "sq_link (sq_wr_last h l m) c = sq_link m c"
    by (cases c) (auto simp: sq_wr_last_def sq_set_last_def sq_last_def)
qed

lemma sq_back_wr_last: "sq_back m (Last h) \<noteq> None \<Longrightarrow> sq_back (sq_wr_last h l m) = (sq_back m)(Last h \<mapsto> l)"
proof (rule ext)
  fix c
  assume "sq_back m (Last h) \<noteq> None"
  then show "sq_back (sq_wr_last h l m) c = ((sq_back m)(Last h \<mapsto> l)) c"
    by (cases c) (auto simp: sq_wr_last_def sq_set_last_def sq_last_def)
qed

lemma sq_last_back: "sq_last m h = sq_back m (Last h)"
  by simp

declare sq_link.simps [simp del] sq_back.simps [simp del] sq_set_link.simps [simp del]

lemmas sq_cells = sq_set_link_wr sq_link_wr sq_back_wr sq_set_last_wr sq_link_wr_last sq_back_wr_last sq_last_back

lemmas sq_macros = STAILQ_FIRST_def STAILQ_EMPTY_def STAILQ_NEXT_def sq_set_next_def sq_last_is_def

definition tail_holds :: holds where
  "tail_holds lk bk h xs \<longleftrightarrow> chain_at lk (First h) xs \<and> bk (Last h) = Some (end_loc (First h) xs)"

lemma tail_holds_own: "own_cells tail_holds"
  unfolding own_cells_def tail_holds_def using chain_at_cong by (metis (no_types, lifting))

text \<open>No macro makes or loses a structure.\<close>

definition sq_same :: "stailq_mem \<Rightarrow> stailq_mem \<Rightarrow> bool" where
  "sq_same m m' \<longleftrightarrow> dom (sq_link m') = dom (sq_link m) \<and> dom (sq_back m') = dom (sq_back m)"

lemma sq_same_refl [simp]: "sq_same m m"
  by (simp add: sq_same_def)

lemma sq_same_trans [trans]: "sq_same m1 m2 \<Longrightarrow> sq_same m2 m3 \<Longrightarrow> sq_same m1 m3"
  by (simp add: sq_same_def)

lemma sq_set_link_same:
  assumes "sq_set_link l v m = Some m'"
  shows "sq_same m m'"
proof -
  have "sq_link m l \<noteq> None" using assms by (cases l) (auto simp: sq_set_link.simps sq_link.simps split: option.splits)
  then show ?thesis using assms by (auto simp: sq_same_def sq_cells split: if_splits)
qed

lemma sq_set_last_same:
  assumes "sq_set_last h l m = Some m'"
  shows "sq_same m m'"
proof -
  have "sq_back m (Last h) \<noteq> None" using assms by (auto simp: sq_set_last_def sq_back.simps sq_last_def split: option.splits)
  then show ?thesis using assms by (auto simp: sq_same_def sq_cells split: if_splits)
qed

lemma sq_set_next_same: "sq_set_next e v m = Some m' \<Longrightarrow> sq_same m m'" "sq_last_is h e m = Some m' \<Longrightarrow> sq_same m m'"
  by (auto simp: sq_set_next_def sq_last_is_def bind_eq_Some_conv dest: sq_set_link_same sq_set_last_same)

lemmas sq_sames = sq_set_link_same sq_set_last_same sq_set_next_same

lemma STAILQ_INIT_same: "STAILQ_INIT h m = Some m' \<Longrightarrow> sq_same m m'"
  by (auto simp: STAILQ_INIT_def bind_eq_Some_conv dest!: sq_sames intro: sq_same_trans)

lemma STAILQ_REMOVE_HEAD_same: "STAILQ_REMOVE_HEAD h m = Some m' \<Longrightarrow> sq_same m m'"
  by (auto simp: STAILQ_REMOVE_HEAD_def bind_eq_Some_conv dest!: sq_sames intro: sq_same_trans split: if_splits)

lemma STAILQ_REMOVE_AFTER_same: "STAILQ_REMOVE_AFTER h e m = Some m' \<Longrightarrow> sq_same m m'"
  by (auto simp: STAILQ_REMOVE_AFTER_def bind_eq_Some_conv dest!: sq_sames intro: sq_same_trans split: if_splits)

lemma STAILQ_SWAP_same: "STAILQ_SWAP h1 h2 m = Some m' \<Longrightarrow> sq_same m m'"
  by (auto simp: STAILQ_SWAP_def bind_eq_Some_conv dest!: sq_sames split: if_splits; meson sq_same_trans)

lemma stailq_exec_same: "stailq_exec c m = Some m' \<Longrightarrow> sq_same m m'"
  by (cases c) (auto simp: STAILQ_INSERT_HEAD_def STAILQ_INSERT_TAIL_def STAILQ_INSERT_AFTER_def STAILQ_REMOVE_def
    STAILQ_CONCAT_def bind_eq_Some_conv dest!: sq_sames STAILQ_INIT_same STAILQ_REMOVE_HEAD_same STAILQ_REMOVE_AFTER_same
    STAILQ_SWAP_same intro: sq_same_trans split: if_splits)

definition stailq_rep :: "nat list \<Rightarrow> nat set \<Rightarrow> stailq_mem \<Rightarrow> queues \<Rightarrow> bool" where
  "stailq_rep = queue_rep tail_holds (\<lambda>H U. Last ` set H) sq_link sq_back"

interpretation sq: linked_cells sq_link sq_back stailq_exec tail_holds "\<lambda>H U. Last ` set H"
  using tail_holds_own stailq_exec_same by unfold_locales (auto simp: sq_same_def)

lemma stailq_list:
  assumes "stailq_rep H U m Q" and "Q h = Some xs"
  shows "distinct xs \<and> path (sq_link m) (First h) xs \<and> sq_link m (end_loc (First h) xs) = Some NULL \<and>
    sq_back m (Last h) = Some (end_loc (First h) xs)"
  using sq.list_holds [OF assms(1) [unfolded stailq_rep_def] assms(2)] by (simp add: tail_holds_def chain_at_def)

lemma sq_no_prev [simp]: "sq_back m (Prev a) = None"
  by (simp add: sq_back.simps)

lemmas stailq_step = sq.step [folded stailq_rep_def]
lemmas stailq_step1 = sq.step1 [folded stailq_rep_def]
lemmas stailq_step2 = sq.step2 [folded stailq_rep_def]

lemmas stailq_holds = tail_holds_def chain_at_def at_head_def

lemma stailq_init:
  assumes "stailq_rep H U m Q" and "legal H U Q (Init h)"
  shows "\<exists>m'. stailq_exec (Init h) m = Some m' \<and> stailq_rep H U m' (apply_op (Init h) Q)"
proof -
  have c: "\<exists>p. sq_link m (First h) = Some p" "\<exists>l. sq_back m (Last h) = Some l"
    using assms sq.link_iff [OF assms(1) [unfolded stailq_rep_def], of "First h"] sq.back_iff [OF assms(1) [unfolded stailq_rep_def], of "Last h"] by auto
  then obtain m' where m': "stailq_exec (Init h) m = Some m'"
    "sq_link m' = (sq_link m)(First h \<mapsto> NULL)" "sq_back m' = (sq_back m)(Last h \<mapsto> First h)"
    by (auto simp: STAILQ_INIT_def sq_cells)
  show ?thesis
    by (rule stailq_step [OF assms m'(1)]) (use c in \<open>auto simp: m' stailq_holds op_elems_def\<close>)
qed

lemma stailq_insert_head:
  assumes "stailq_rep H U m Q" and "legal H U Q (Insert_Head h x)"
  shows "\<exists>m'. stailq_exec (Insert_Head h x) m = Some m' \<and> stailq_rep H U m' (apply_op (Insert_Head h x) Q)"
proof -
  obtain xs where Q: "Q h = Some xs" using assms(2) by auto
  note R = assms(1) [unfolded stailq_rep_def] and c = stailq_list [OF assms(1) Q]
  have x: "\<exists>p. sq_link m (Next x) = Some p" "x \<notin> set xs" using sq.unused_cell [OF R] sq.unused_in_none [OF R _ Q] assms(2) by auto
  obtain m' where m': "stailq_exec (Insert_Head h x) m = Some m'"
    "sq_link m' = (sq_link m)(Next x \<mapsto> first_of xs, First h \<mapsto> Ptr x)"
    "sq_back m' = (if xs = [] then (sq_back m)(Last h \<mapsto> Next x) else sq_back m)"
    using x c by (cases xs) (auto simp: STAILQ_INSERT_HEAD_def sq_macros sq_cells)
  show ?thesis
  proof (rule stailq_step1 [OF assms m'(1) _ Q])
    show "tail_holds (sq_link m') (sq_back m') h (x # xs)"
      using x c by (cases xs) (auto simp: m' stailq_holds)
  qed (use Q in \<open>auto simp: m' stailq_holds\<close>)
qed

lemma stailq_insert_tail:
  assumes "stailq_rep H U m Q" and "legal H U Q (Insert_Tail h x)"
  shows "\<exists>m'. stailq_exec (Insert_Tail h x) m = Some m' \<and> stailq_rep H U m' (apply_op (Insert_Tail h x) Q)"
proof -
  obtain xs where Q: "Q h = Some xs" using assms(2) by auto
  note R = assms(1) [unfolded stailq_rep_def] and c = stailq_list [OF assms(1) Q]
  have x: "\<exists>p. sq_link m (Next x) = Some p" "x \<notin> set xs" using sq.unused_cell [OF R] sq.unused_in_none [OF R _ Q] assms(2) by auto
  obtain m' where m': "stailq_exec (Insert_Tail h x) m = Some m'"
    "sq_link m' = (sq_link m)(Next x \<mapsto> NULL, end_loc (First h) xs \<mapsto> Ptr x)" "sq_back m' = (sq_back m)(Last h \<mapsto> Next x)"
    using x c by (auto simp: STAILQ_INSERT_TAIL_def sq_macros sq_cells)
  show ?thesis
  proof (rule stailq_step1 [OF assms m'(1) _ Q])
    show "tail_holds (sq_link m') (sq_back m') h (xs @ [x])"
      using x c by (auto simp: m' stailq_holds)
  qed (use Q in \<open>auto simp: m' stailq_holds\<close>)
qed

lemma stailq_insert_after:
  assumes "stailq_rep H U m Q" and "legal H U Q (Insert_After h y x)"
  shows "\<exists>m'. stailq_exec (Insert_After h y x) m = Some m' \<and> stailq_rep H U m' (apply_op (Insert_After h y x) Q)"
proof -
  obtain us vs where Q: "Q h = Some (us @ y # vs)" and y: "y \<notin> set us"
    using assms(2) lookup_queue_member by (metis legal.simps(4) split_list_first)
  note R = assms(1) [unfolded stailq_rep_def] and c = stailq_list [OF assms(1) Q]
  have x: "\<exists>p. sq_link m (Next x) = Some p" "x \<notin> set (us @ y # vs)" using sq.unused_cell [OF R] sq.unused_in_none [OF R _ Q] assms(2) by auto
  obtain m' where m': "stailq_exec (Insert_After h y x) m = Some m'"
    "sq_link m' = (sq_link m)(Next x \<mapsto> first_of vs, Next y \<mapsto> Ptr x)"
    "sq_back m' = (if vs = [] then (sq_back m)(Last h \<mapsto> Next x) else sq_back m)"
    using x c by (cases vs) (auto simp: STAILQ_INSERT_AFTER_def sq_macros sq_cells)
  show ?thesis
  proof (rule stailq_step1 [OF assms m'(1) _ Q])
    show "tail_holds (sq_link m') (sq_back m') h (us @ y # x # vs)"
      using x c by (cases vs) (auto simp: m' stailq_holds)
  qed (use Q y in \<open>auto simp: m' stailq_holds insert_after_split\<close>)
qed

lemma stailq_remove_head:
  assumes "stailq_rep H U m Q" and "Q h = Some (x # xs)"
  shows "\<exists>m'. STAILQ_REMOVE_HEAD h m = Some m' \<and> sq_link m' = (sq_link m)(First h \<mapsto> first_of xs) \<and>
    sq_back m' = (if xs = [] then (sq_back m)(Last h \<mapsto> First h) else sq_back m)"
  using stailq_list [OF assms] by (cases xs) (auto simp: STAILQ_REMOVE_HEAD_def sq_macros sq_cells)

lemma stailq_remove_after:
  assumes "stailq_rep H U m Q" and "Q h = Some (us @ y # x # vs)"
  shows "\<exists>m'. STAILQ_REMOVE_AFTER h (Ptr y) m = Some m' \<and> sq_link m' = (sq_link m)(Next y \<mapsto> first_of vs) \<and>
    sq_back m' = (if vs = [] then (sq_back m)(Last h \<mapsto> Next y) else sq_back m)"
  using stailq_list [OF assms] by (cases vs) (auto simp: STAILQ_REMOVE_AFTER_def sq_macros sq_cells)

lemma stailq_head_removed:
  assumes "stailq_rep H U m Q" and "legal H U Q c" and "Q h = Some (x # xs)" and "op_heads c = {h}"
    and "stailq_exec c m = STAILQ_REMOVE_HEAD h m" and "apply_op c Q = Q(h \<mapsto> xs)"
  shows "\<exists>m'. stailq_exec c m = Some m' \<and> stailq_rep H U m' (apply_op c Q)"
proof -
  obtain m' where m': "stailq_exec c m = Some m'" "sq_link m' = (sq_link m)(First h \<mapsto> first_of xs)"
    "sq_back m' = (if xs = [] then (sq_back m)(Last h \<mapsto> First h) else sq_back m)"
    using stailq_remove_head [OF assms(1,3)] assms(5) by auto
  show ?thesis
  proof (rule stailq_step1 [OF assms(1,2) m'(1) assms(4,3,6)])
    show "tail_holds (sq_link m') (sq_back m') h xs"
      using stailq_list [OF assms(1,3)] by (cases xs) (auto simp: m' stailq_holds)
  qed (auto simp: m')
qed

lemma stailq_next_removed:
  assumes "stailq_rep H U m Q" and "legal H U Q c" and "Q h = Some (us @ y # x # vs)" and "op_heads c = {h}"
    and "stailq_exec c m = STAILQ_REMOVE_AFTER h (Ptr y) m" and "apply_op c Q = Q(h \<mapsto> us @ y # vs)"
  shows "\<exists>m'. stailq_exec c m = Some m' \<and> stailq_rep H U m' (apply_op c Q)"
proof -
  obtain m' where m': "stailq_exec c m = Some m'" "sq_link m' = (sq_link m)(Next y \<mapsto> first_of vs)"
    "sq_back m' = (if vs = [] then (sq_back m)(Last h \<mapsto> Next y) else sq_back m)"
    using stailq_remove_after [OF assms(1,3)] assms(5) by auto
  show ?thesis
  proof (rule stailq_step1 [OF assms(1,2) m'(1) assms(4,3,6)])
    show "tail_holds (sq_link m') (sq_back m') h (us @ y # vs)"
      using stailq_list [OF assms(1,3)] by (cases vs) (auto simp: m' stailq_holds)
  qed (auto simp: m')
qed

lemma stailq_seek_found:
  "path (sq_link m) l (us @ [c, x]) \<Longrightarrow> x \<notin> set us \<Longrightarrow> x \<noteq> c \<Longrightarrow> stailq_seek m (Ptr x) (first_of (us @ [c])) = Some (Ptr c)"
proof (induction us arbitrary: l)
  case Nil
  then show ?case by (subst stailq_seek.simps) (simp add: STAILQ_NEXT_def)
next
  case (Cons u us)
  have "stailq_seek m (Ptr x) (first_of (us @ [c])) = Some (Ptr c)"
    using Cons.IH [of "Next u"] Cons.prems by simp
  moreover have "sq_link m (Next u) = Some (first_of (us @ [c]))" "first_of (us @ [c]) \<noteq> Ptr x"
    using Cons.prems by (cases us; simp)+
  ultimately show ?case by (subst stailq_seek.simps) (simp add: STAILQ_NEXT_def)
qed

lemma stailq_remove:
  assumes "stailq_rep H U m Q" and "legal H U Q (Remove h x)"
  shows "\<exists>m'. stailq_exec (Remove h x) m = Some m' \<and> stailq_rep H U m' (apply_op (Remove h x) Q)"
proof -
  obtain us vs where Q: "Q h = Some (us @ x # vs)" and x: "x \<notin> set us"
    using assms(2) lookup_queue_member by (metis legal.simps(6) split_list_first)
  note c = stailq_list [OF assms(1) Q]
  have a: "apply_op (Remove h x) Q = Q(h \<mapsto> us @ vs)"
    using Q x by (simp add: at_head_def remove1_split)
  show ?thesis
  proof (cases us rule: rev_cases)
    case Nil
    then have "Q h = Some (x # vs)" "sq_link m (First h) = Some (Ptr x)" using Q c by auto
    then show ?thesis
      using a Nil by (intro stailq_head_removed [OF assms]) (auto simp: STAILQ_REMOVE_def STAILQ_FIRST_def)
  next
    case (snoc ts y)
    then have q: "Q h = Some (ts @ y # x # vs)" using Q by simp
    have "sq_link m (First h) = Some (first_of (ts @ [y]))" "first_of (ts @ [y]) \<noteq> Ptr x"
      using c x snoc by (cases ts; auto)+
    moreover have "stailq_seek m (Ptr x) (first_of (ts @ [y])) = Some (Ptr y)"
      by (rule stailq_seek_found) (use c x snoc in auto)
    ultimately have "stailq_exec (Remove h x) m = STAILQ_REMOVE_AFTER h (Ptr y) m"
      by (simp add: STAILQ_REMOVE_def STAILQ_FIRST_def)
    then show ?thesis
      using a snoc by (intro stailq_next_removed [OF assms q]) auto
  qed
qed

lemma stailq_concat:
  assumes "stailq_rep H U m Q" and "legal H U Q (Concat h1 h2)"
  shows "\<exists>m'. stailq_exec (Concat h1 h2) m = Some m' \<and> stailq_rep H U m' (apply_op (Concat h1 h2) Q)"
proof -
  obtain xs ys where q: "Q h1 = Some xs" "Q h2 = Some ys" "h1 \<noteq> h2" using assms(2) by auto
  note c = stailq_list [OF assms(1) q(1)] stailq_list [OF assms(1) q(2)] and d = sq.two_lists [OF assms(1) [unfolded stailq_rep_def] q]
  show ?thesis
  proof (cases ys)
    case Nil
    then have "stailq_exec (Concat h1 h2) m = Some m" "apply_op (Concat h1 h2) Q = Q"
      using c q by (auto simp: STAILQ_CONCAT_def sq_macros)
    with assms(1) show ?thesis by simp
  next
    case (Cons y zs)
    obtain m' where m': "stailq_exec (Concat h1 h2) m = Some m'"
      "sq_link m' = (sq_link m)(end_loc (First h1) xs \<mapsto> Ptr y, First h2 \<mapsto> NULL)"
      "sq_back m' = (sq_back m)(Last h1 \<mapsto> end_loc (First h2) ys, Last h2 \<mapsto> First h2)"
      using c q(3) Cons by (auto simp: STAILQ_CONCAT_def STAILQ_INIT_def sq_macros sq_cells)
    show ?thesis
    proof (rule stailq_step2 [OF assms m'(1) _ q(1,2)])
      show "tail_holds (sq_link m') (sq_back m') h1 (xs @ ys)"
        using c d q(3) Cons by (auto simp: m' stailq_holds)
    qed (use q in \<open>auto simp: m' stailq_holds\<close>)
  qed
qed

lemma stailq_swap:
  assumes "stailq_rep H U m Q" and "legal H U Q (Swap h1 h2)"
  shows "\<exists>m'. stailq_exec (Swap h1 h2) m = Some m' \<and> stailq_rep H U m' (apply_op (Swap h1 h2) Q)"
proof -
  obtain xs ys where q: "Q h1 = Some xs" "Q h2 = Some ys" "h1 \<noteq> h2" using assms(2) by auto
  note c = stailq_list [OF assms(1) q(1)] stailq_list [OF assms(1) q(2)]
  have f: "sq_link m (First h1) = Some (first_of xs)" "sq_link m (First h2) = Some (first_of ys)"
    using c by (cases xs; cases ys; simp)+
  obtain m' where m': "stailq_exec (Swap h1 h2) m = Some m'"
    "sq_link m' = (sq_link m)(First h1 \<mapsto> first_of ys, First h2 \<mapsto> first_of xs)"
    "sq_back m' = (sq_back m)(Last h1 \<mapsto> end_loc (First h1) ys, Last h2 \<mapsto> end_loc (First h2) xs)"
    using c f q(3) by (cases xs; cases ys) (auto simp: STAILQ_SWAP_def sq_macros sq_cells fun_upd_twist)
  show ?thesis
  proof (rule stailq_step2 [OF assms m'(1) _ q(1,2)])
    show "tail_holds (sq_link m') (sq_back m') h1 ys"
      using c q(3) by (cases ys) (auto simp: m' stailq_holds)
    show "tail_holds (sq_link m') (sq_back m') h2 xs"
      using c q(3) by (cases xs) (auto simp: m' stailq_holds)
  qed (use q in \<open>auto simp: m'\<close>)
qed

subsection \<open>The macros meet the contract\<close>

lemma stailq_exec_legal:
  assumes "stailq_rep H U m Q" and "stailq_offers c" and "legal H U Q c"
  shows "\<exists>m'. stailq_exec c m = Some m' \<and> stailq_rep H U m' (apply_op c Q)"
proof (cases c)
  case (Remove_Head h)
  then obtain x xs where Q: "Q h = Some (x # xs)"
    using assms(3) by (cases "Q h") (auto simp: neq_Nil_conv)
  then show ?thesis
    using stailq_head_removed [OF assms(1,3) Q] Remove_Head by (simp add: at_head_def)
next
  case (Remove_After h y)
  then obtain ws where "Q h = Some ws" "y \<in> set (butlast ws)" using assms(3) by (cases "Q h") auto
  then obtain us x vs where Q: "Q h = Some (us @ y # x # vs)" "y \<notin> set us"
    using butlast_split by metis
  then show ?thesis
    using stailq_next_removed [OF assms(1,3) Q(1)] Remove_After by (simp add: at_head_def remove_after_split)
qed (use assms stailq_init stailq_insert_head stailq_insert_tail stailq_insert_after stailq_remove stailq_concat
      stailq_swap in \<open>fastforce simp del: apply_op.simps legal.simps stailq_exec.simps\<close>)+

lemma stailq_first:
  "stailq_rep H U m Q \<Longrightarrow> Q h = Some xs \<Longrightarrow> STAILQ_FIRST m h = Some (first_of xs)"
  using stailq_list [of H U m Q h xs] by (cases xs) (auto simp: STAILQ_FIRST_def)

lemma stailq_follow:
  "stailq_rep H U m Q \<Longrightarrow> Q h = Some (us @ x # vs) \<Longrightarrow> STAILQ_NEXT m (Ptr x) = Some (first_of vs)"
  using stailq_list [of H U m Q h "us @ x # vs"] by (cases vs) (auto simp: STAILQ_NEXT_def)

lemma stailq_rep_disjoint: "stailq_rep H U m Q \<Longrightarrow> disjoint_queues (set H) U Q"
  unfolding stailq_rep_def by (rule sq.queues_disjoint)

interpretation stailq: queue_macros stailq_rep STAILQ_FIRST STAILQ_NEXT stailq_offers stailq_exec
  by unfold_locales (simp_all add: stailq_exec_legal stailq_first stailq_follow stailq_rep_disjoint)

lemma STAILQ_LAST_spec:
  assumes "stailq_rep H U m Q" and "Q h = Some xs"
  shows "STAILQ_LAST m h = Some (last_of xs)"
  using stailq_list [OF assms] stailq_first [OF assms]
  by (cases xs rule: rev_cases)
    (auto simp: STAILQ_LAST_def STAILQ_EMPTY_def last_of_def sq_last_back neq_Nil_conv split: option.split)

lemma STAILQ_EMPTY_spec:
  assumes "stailq_rep H U m Q" and "Q h = Some xs"
  shows "STAILQ_EMPTY m h = Some (xs = [])"
  using stailq_first [OF assms] by (cases xs) (auto simp: STAILQ_EMPTY_def)

lemma STAILQ_FOREACH_each:
  assumes "keeps mem body" and "stailq_rep H U (mem s) Q" and "Q h = Some xs"
  shows "STAILQ_FOREACH mem body h s = each body xs s"
  unfolding STAILQ_FOREACH_def by (rule stailq.foreach_visits [OF assms])

lemma STAILQ_FOREACH_FROM_each:
  assumes "keeps mem body" and "stailq_rep H U (mem s) Q" and "Q h = Some (us @ x # vs)"
  shows "STAILQ_FOREACH_FROM mem body (Ptr x) h s = each body (x # vs) s"
  using stailq.loop_visits [OF assms] by (simp add: STAILQ_FOREACH_FROM_def)

text \<open>Memory in which the heads \<open>H\<close> and the elements \<open>U\<close> exist, not yet initialised.\<close>

definition stailq_fresh :: "nat list \<Rightarrow> nat set \<Rightarrow> stailq_mem \<Rightarrow> bool" where
  "stailq_fresh H U m \<longleftrightarrow> dom (sq_heads m) = set H \<and> dom (sq_elems m) = U"

lemma stailq_fresh_rep:
  assumes "stailq_fresh H U m"
  shows "stailq_rep H U m Map.empty"
proof -
  have "sq_link m c \<noteq> None \<longleftrightarrow> c \<in> First ` set H \<union> Next ` U" for c
    using assms by (cases c) (auto simp: stailq_fresh_def sq_link.simps domIff [symmetric] image_iff)
  moreover have "sq_back m c \<noteq> None \<longleftrightarrow> c \<in> Last ` set H" for c
    using assms by (cases c) (auto simp: stailq_fresh_def sq_back.simps sq_last_def domIff [symmetric] image_iff)
  ultimately have "dom (sq_link m) = First ` set H \<union> Next ` U" "dom (sq_back m) = Last ` set H"
    by (auto simp: domIff set_eq_iff)
  then show ?thesis by (simp add: stailq_rep_def queue_rep_def represents_def disjoint_queues_def)
qed

text \<open>C37: Any sequence of \<open>STAILQ_*\<close> calls on any number of queues does to them what the list operations
  do to lists: every call has a defined outcome, and afterwards each queue is walked by
  \<open>STAILQ_FOREACH\<close> in the order of its list and ends in \<open>STAILQ_LAST\<close>.
\<close>

theorem stailq_run_refines:
  assumes "stailq_fresh H U m" and "legal_run stailq_offers H U cs Map.empty"
  shows "\<exists>m'. run_ops stailq_exec cs m = Some m' \<and>
    (\<forall>h xs. apply_ops cs Map.empty h = Some xs \<longrightarrow>
       STAILQ_FOREACH fst note_elem h (m', []) = Some (m', xs) \<and>
       STAILQ_EMPTY m' h = Some (xs = []) \<and> STAILQ_LAST m' h = Some (last_of xs))"
proof -
  obtain m' where m': "run_ops stailq_exec cs m = Some m'" "stailq_rep H U m' (apply_ops cs Map.empty)"
    using stailq.run_legal [OF stailq_fresh_rep [OF assms(1)] assms(2)] by blast
  show ?thesis
    using m'(1) STAILQ_FOREACH_each [of fst note_elem H U "(m', [])" "apply_ops cs Map.empty"]
      STAILQ_EMPTY_spec [OF m'(2)] STAILQ_LAST_spec [OF m'(2)] m'(2)
    by (intro exI [of _ m']) (simp add: each_note_elem)
qed

definition stailq_sample :: stailq_mem where
  "stailq_sample = \<lparr>sq_heads = [0 \<mapsto> \<lparr>stqh_first = NULL, stqh_last = First 7\<rparr>, 1 \<mapsto> \<lparr>stqh_first = NULL, stqh_last = First 7\<rparr>],
     sq_elems = [5 \<mapsto> \<lparr>stqe_next = NULL\<rparr>, 6 \<mapsto> \<lparr>stqe_next = NULL\<rparr>, 7 \<mapsto> \<lparr>stqe_next = Ptr 5\<rparr>]\<rparr>"

theorem stailq_run_refines_witness:
  "\<exists>m'. run_ops stailq_exec [Init 0, Init 1, Insert_Tail 0 5, Insert_Head 1 6, Insert_After 0 5 7, Concat 0 1, Remove 0 7] stailq_sample = Some m' \<and>
     STAILQ_FOREACH fst note_elem 0 (m', []) = Some (m', [5, 6]) \<and> STAILQ_LAST m' 0 = Some (Ptr 6)"
proof -
  let ?cs = "[Init 0, Init 1, Insert_Tail 0 5, Insert_Head 1 6, Insert_After 0 5 7, Concat 0 1, Remove 0 7]"
  have "stailq_fresh [0, 1] {5, 6, 7} stailq_sample"
    by (auto simp: stailq_fresh_def stailq_sample_def)
  moreover have "legal_run stailq_offers [0, 1] {5, 6, 7} ?cs Map.empty"
    by (simp add: at_head_def)
  moreover have "apply_ops ?cs Map.empty 0 = Some [5, 6]"
    by (simp add: at_head_def)
  ultimately show ?thesis
    using stailq_run_refines [of "[0, 1]" "{5, 6, 7}" stailq_sample ?cs] by (auto simp: last_of_def)
qed

text \<open>
  \<open>STAILQ_FOREACH_SAFE\<close> may unlink the element it is at: a loop that removes the elements that
  satisfy \<open>P\<close> leaves the others, in order.
\<close>

lemma stailq_unlink: "(\<lambda>h x. stailq_exec (Remove h x)) = (\<lambda>h x. STAILQ_REMOVE h (Ptr x))"
  by (intro ext) simp

lemma stailq_foreach_safe_filters:
  assumes "stailq_rep H U m Q" and "Q h = Some xs"
  shows "\<exists>m'. STAILQ_FOREACH_SAFE id (drop_if (\<lambda>h x. STAILQ_REMOVE h (Ptr x)) P h) h m = Some m' \<and>
    stailq_rep H U m' (Q(h \<mapsto> filter (\<lambda>x. \<not> P x) xs))"
  using stailq.foreach_filters [OF assms, of P] by (simp add: STAILQ_FOREACH_SAFE_def stailq_unlink)

end
