(* ===== verification/List_Queue.thy ===== *)
theory List_Queue
  imports Queue_Contract
begin

text \<open>
  The doubly-linked lists of \<^verbatim>\<open>server/src/queue.h\<close> (the \<open>LIST_*\<close> macros): every element holds the
  address of the link that leads to it, so that it can be removed, or another put before it,
  without the head. Every macro is a definition; \<open>list_exec\<close> collects those that change a list, and
  they meet the contract of \<open>Queue_Contract\<close>.
\<close>

subsection \<open>Declarations\<close>

record list_head =
  lh_first :: ptr

record list_entry =
  le_next :: ptr
  le_prev :: loc

record list_mem =
  ls_heads :: "nat \<rightharpoonup> list_head"
  ls_elems :: "nat \<rightharpoonup> list_entry"

definition LIST_HEAD_INITIALIZER :: list_head where
  "LIST_HEAD_INITIALIZER = \<lparr>lh_first = NULL\<rparr>"

text \<open>\<open>*l\<close> and \<open>*l = v\<close> for a cell \<open>l\<close>, \<open>(elm)->field.le_prev\<close> and the assignment to it.\<close>

fun ls_link :: "list_mem \<Rightarrow> loc \<Rightarrow> ptr option" where
  "ls_link m (First h) = map_option lh_first (ls_heads m h)"
| "ls_link m (Next a) = map_option le_next (ls_elems m a)"

fun ls_set_link :: "loc \<Rightarrow> ptr \<Rightarrow> list_mem \<Rightarrow> list_mem option" where
  "ls_set_link (First h) v m = (case ls_heads m h of None \<Rightarrow> None
     | Some r \<Rightarrow> Some (m\<lparr>ls_heads := (ls_heads m)(h \<mapsto> r\<lparr>lh_first := v\<rparr>)\<rparr>))"
| "ls_set_link (Next a) v m = (case ls_elems m a of None \<Rightarrow> None
     | Some r \<Rightarrow> Some (m\<lparr>ls_elems := (ls_elems m)(a \<mapsto> r\<lparr>le_next := v\<rparr>)\<rparr>))"

fun ls_prev :: "list_mem \<Rightarrow> ptr \<Rightarrow> loc option" where
  "ls_prev m NULL = None"
| "ls_prev m (Ptr a) = map_option le_prev (ls_elems m a)"

fun ls_set_prev :: "ptr \<Rightarrow> loc \<Rightarrow> list_mem \<Rightarrow> list_mem option" where
  "ls_set_prev NULL l m = None"
| "ls_set_prev (Ptr a) l m = (case ls_elems m a of None \<Rightarrow> None
     | Some r \<Rightarrow> Some (m\<lparr>ls_elems := (ls_elems m)(a \<mapsto> r\<lparr>le_prev := l\<rparr>)\<rparr>))"

subsection \<open>Macros\<close>

definition LIST_FIRST :: "list_mem \<Rightarrow> nat \<Rightarrow> ptr option" where
  "LIST_FIRST m head = ls_link m (First head)"

definition LIST_EMPTY :: "list_mem \<Rightarrow> nat \<Rightarrow> bool option" where
  "LIST_EMPTY m head = map_option (\<lambda>p. p = NULL) (LIST_FIRST m head)"

definition LIST_NEXT :: "list_mem \<Rightarrow> ptr \<Rightarrow> ptr option" where
  "LIST_NEXT m elm = do { l \<leftarrow> next_at elm; ls_link m l }"

text \<open>\<open>LIST_NEXT((elm), field) = v\<close>\<close>

definition ls_set_next :: "ptr \<Rightarrow> ptr \<Rightarrow> list_mem \<Rightarrow> list_mem option" where
  "ls_set_next elm v m = do { l \<leftarrow> next_at elm; ls_set_link l v m }"

definition LIST_PREV :: "list_mem \<Rightarrow> ptr \<Rightarrow> nat \<Rightarrow> ptr option" where
  "LIST_PREV m elm head = do {
     l \<leftarrow> ls_prev m elm;
     if l = First head then Some NULL else container_of l
   }"

definition LIST_INIT :: "nat \<Rightarrow> list_mem \<Rightarrow> list_mem option" where
  "LIST_INIT head m = ls_set_link (First head) NULL m"

definition LIST_INSERT_HEAD :: "nat \<Rightarrow> ptr \<Rightarrow> list_mem \<Rightarrow> list_mem option" where
  "LIST_INSERT_HEAD head elm m = do {
     q \<leftarrow> LIST_FIRST m head;
     m \<leftarrow> ls_set_next elm q m;
     m \<leftarrow> (if q \<noteq> NULL then do { p \<leftarrow> LIST_FIRST m head; l \<leftarrow> next_at elm; ls_set_prev p l m } else Some m);
     m \<leftarrow> ls_set_link (First head) elm m;
     ls_set_prev elm (First head) m
   }"

definition LIST_INSERT_AFTER :: "ptr \<Rightarrow> ptr \<Rightarrow> list_mem \<Rightarrow> list_mem option" where
  "LIST_INSERT_AFTER listelm elm m = do {
     q \<leftarrow> LIST_NEXT m listelm;
     m \<leftarrow> ls_set_next elm q m;
     m \<leftarrow> (if q \<noteq> NULL then do { p \<leftarrow> LIST_NEXT m listelm; l \<leftarrow> next_at elm; ls_set_prev p l m } else Some m);
     m \<leftarrow> ls_set_next listelm elm m;
     l \<leftarrow> next_at listelm;
     ls_set_prev elm l m
   }"

definition LIST_INSERT_BEFORE :: "ptr \<Rightarrow> ptr \<Rightarrow> list_mem \<Rightarrow> list_mem option" where
  "LIST_INSERT_BEFORE listelm elm m = do {
     l \<leftarrow> ls_prev m listelm;
     m \<leftarrow> ls_set_prev elm l m;
     m \<leftarrow> ls_set_next elm listelm m;
     l \<leftarrow> ls_prev m listelm;
     m \<leftarrow> ls_set_link l elm m;
     l \<leftarrow> next_at elm;
     ls_set_prev listelm l m
   }"

definition LIST_REMOVE :: "ptr \<Rightarrow> list_mem \<Rightarrow> list_mem option" where
  "LIST_REMOVE elm m = do {
     q \<leftarrow> LIST_NEXT m elm;
     m \<leftarrow> (if q \<noteq> NULL then do { l \<leftarrow> ls_prev m elm; ls_set_prev q l m } else Some m);
     l \<leftarrow> ls_prev m elm;
     q \<leftarrow> LIST_NEXT m elm;
     ls_set_link l q m
   }"

text \<open>\<open>while (LIST_NEXT(curelm, field) != NULL) curelm = LIST_NEXT(curelm, field)\<close>\<close>

partial_function (option) list_seek_last :: "list_mem \<Rightarrow> ptr \<Rightarrow> ptr option" where
  "list_seek_last m curelm = do {
     q \<leftarrow> LIST_NEXT m curelm;
     if q \<noteq> NULL then list_seek_last m q else Some curelm
   }"

definition LIST_CONCAT :: "nat \<Rightarrow> nat \<Rightarrow> list_mem \<Rightarrow> list_mem option" where
  "LIST_CONCAT head1 head2 m = do {
     curelm \<leftarrow> LIST_FIRST m head1;
     if curelm = NULL then do {
       p \<leftarrow> LIST_FIRST m head2;
       m \<leftarrow> ls_set_link (First head1) p m;
       if p \<noteq> NULL then do {
         p \<leftarrow> LIST_FIRST m head2;
         m \<leftarrow> ls_set_prev p (First head1) m;
         LIST_INIT head2 m
       } else Some m
     } else do {
       p \<leftarrow> LIST_FIRST m head2;
       if p \<noteq> NULL then do {
         curelm \<leftarrow> list_seek_last m curelm;
         m \<leftarrow> ls_set_next curelm p m;
         p \<leftarrow> LIST_FIRST m head2;
         l \<leftarrow> next_at curelm;
         m \<leftarrow> ls_set_prev p l m;
         LIST_INIT head2 m
       } else Some m
     }
   }"

definition LIST_SWAP :: "nat \<Rightarrow> nat \<Rightarrow> list_mem \<Rightarrow> list_mem option" where
  "LIST_SWAP head1 head2 m = do {
     swap_tmp \<leftarrow> LIST_FIRST m head1;
     p \<leftarrow> LIST_FIRST m head2;
     m \<leftarrow> ls_set_link (First head1) p m;
     m \<leftarrow> ls_set_link (First head2) swap_tmp m;
     swap_tmp \<leftarrow> LIST_FIRST m head1;
     m \<leftarrow> (if swap_tmp \<noteq> NULL then ls_set_prev swap_tmp (First head1) m else Some m);
     swap_tmp \<leftarrow> LIST_FIRST m head2;
     if swap_tmp \<noteq> NULL then ls_set_prev swap_tmp (First head2) m else Some m
   }"

text \<open>The iteration macros; the \<open>_FROM\<close> variants start at \<open>var\<close> if it is set.\<close>

definition LIST_FOREACH :: "('s \<Rightarrow> list_mem) \<Rightarrow> (nat \<Rightarrow> 's \<Rightarrow> 's option) \<Rightarrow> nat \<Rightarrow> 's \<Rightarrow> 's option" where
  "LIST_FOREACH mem body head s = do {
     p \<leftarrow> LIST_FIRST (mem s) head;
     link_loop (\<lambda>s. LIST_NEXT (mem s)) body p s
   }"

definition LIST_FOREACH_FROM ::
  "('s \<Rightarrow> list_mem) \<Rightarrow> (nat \<Rightarrow> 's \<Rightarrow> 's option) \<Rightarrow> ptr \<Rightarrow> nat \<Rightarrow> 's \<Rightarrow> 's option" where
  "LIST_FOREACH_FROM mem body var head s = do {
     p \<leftarrow> (if var \<noteq> NULL then Some var else LIST_FIRST (mem s) head);
     link_loop (\<lambda>s. LIST_NEXT (mem s)) body p s
   }"

definition LIST_FOREACH_SAFE :: "('s \<Rightarrow> list_mem) \<Rightarrow> (nat \<Rightarrow> 's \<Rightarrow> 's option) \<Rightarrow> nat \<Rightarrow> 's \<Rightarrow> 's option" where
  "LIST_FOREACH_SAFE mem body head s = do {
     p \<leftarrow> LIST_FIRST (mem s) head;
     link_safe_loop (\<lambda>s. LIST_NEXT (mem s)) body p s
   }"

definition LIST_FOREACH_FROM_SAFE ::
  "('s \<Rightarrow> list_mem) \<Rightarrow> (nat \<Rightarrow> 's \<Rightarrow> 's option) \<Rightarrow> ptr \<Rightarrow> nat \<Rightarrow> 's \<Rightarrow> 's option" where
  "LIST_FOREACH_FROM_SAFE mem body var head s = do {
     p \<leftarrow> (if var \<noteq> NULL then Some var else LIST_FIRST (mem s) head);
     link_safe_loop (\<lambda>s. LIST_NEXT (mem s)) body p s
   }"

fun list_exec :: "queue_op \<Rightarrow> list_mem \<Rightarrow> list_mem option" where
  "list_exec (Init h) m = LIST_INIT h m"
| "list_exec (Insert_Head h x) m = LIST_INSERT_HEAD h (Ptr x) m"
| "list_exec (Insert_After h y x) m = LIST_INSERT_AFTER (Ptr y) (Ptr x) m"
| "list_exec (Insert_Before h y x) m = LIST_INSERT_BEFORE (Ptr y) (Ptr x) m"
| "list_exec (Remove h x) m = LIST_REMOVE (Ptr x) m"
| "list_exec (Concat h1 h2) m = LIST_CONCAT h1 h2 m"
| "list_exec (Swap h1 h2) m = LIST_SWAP h1 h2 m"
| "list_exec _ m = None"

fun list_offers :: "queue_op \<Rightarrow> bool" where
  "list_offers (Insert_Tail h x) \<longleftrightarrow> False"
| "list_offers (Remove_Head h) \<longleftrightarrow> False"
| "list_offers (Remove_After h y) \<longleftrightarrow> False"
| "list_offers _ \<longleftrightarrow> True"

subsection \<open>The cells as two maps\<close>

fun ls_back :: "list_mem \<Rightarrow> bloc \<Rightarrow> loc option" where
  "ls_back m (Last h) = None"
| "ls_back m (Prev a) = ls_prev m (Ptr a)"

definition ls_wr :: "loc \<Rightarrow> ptr \<Rightarrow> list_mem \<Rightarrow> list_mem" where
  "ls_wr l v m = the (ls_set_link l v m)"

definition ls_wr_prev :: "nat \<Rightarrow> loc \<Rightarrow> list_mem \<Rightarrow> list_mem" where
  "ls_wr_prev a l m = the (ls_set_prev (Ptr a) l m)"

lemma ls_set_link_wr: "ls_link m l \<noteq> None \<Longrightarrow> ls_set_link l v m = Some (ls_wr l v m)"
  by (cases l) (auto simp: ls_wr_def)

lemma ls_link_wr: "ls_link m l \<noteq> None \<Longrightarrow> ls_link (ls_wr l v m) = (ls_link m)(l \<mapsto> v)"
proof (rule ext)
  fix c
  assume "ls_link m l \<noteq> None"
  then show "ls_link (ls_wr l v m) c = ((ls_link m)(l \<mapsto> v)) c"
    by (cases l; cases c) (auto simp: ls_wr_def)
qed

lemma ls_back_wr: "ls_link m l \<noteq> None \<Longrightarrow> ls_back (ls_wr l v m) = ls_back m"
proof (rule ext)
  fix c
  assume "ls_link m l \<noteq> None"
  then show "ls_back (ls_wr l v m) c = ls_back m c"
    by (cases l; cases c) (auto simp: ls_wr_def)
qed

lemma ls_set_prev_wr: "ls_back m (Prev a) \<noteq> None \<Longrightarrow> ls_set_prev (Ptr a) l m = Some (ls_wr_prev a l m)"
  by (auto simp: ls_wr_prev_def)

lemma ls_link_wr_prev: "ls_back m (Prev a) \<noteq> None \<Longrightarrow> ls_link (ls_wr_prev a l m) = ls_link m"
proof (rule ext)
  fix c
  assume "ls_back m (Prev a) \<noteq> None"
  then show "ls_link (ls_wr_prev a l m) c = ls_link m c"
    by (cases c) (auto simp: ls_wr_prev_def)
qed

lemma ls_back_wr_prev: "ls_back m (Prev a) \<noteq> None \<Longrightarrow> ls_back (ls_wr_prev a l m) = (ls_back m)(Prev a \<mapsto> l)"
proof (rule ext)
  fix c
  assume "ls_back m (Prev a) \<noteq> None"
  then show "ls_back (ls_wr_prev a l m) c = ((ls_back m)(Prev a \<mapsto> l)) c"
    by (cases c) (auto simp: ls_wr_prev_def)
qed

lemma ls_prev_back: "ls_prev m (Ptr a) = ls_back m (Prev a)"
  by simp

lemma ls_cell_both: "ls_link m (Next a) = None \<longleftrightarrow> ls_back m (Prev a) = None"
  by simp

lemma ls_no_last: "ls_back m (Last h) = None"
  by simp

declare ls_link.simps [simp del] ls_back.simps [simp del] ls_set_link.simps [simp del] ls_set_prev.simps(2) [simp del]
  ls_prev.simps(2) [simp del]

lemmas ls_cells = ls_set_link_wr ls_link_wr ls_back_wr ls_set_prev_wr ls_link_wr_prev ls_back_wr_prev ls_prev_back

lemmas ls_macros = LIST_FIRST_def LIST_EMPTY_def LIST_NEXT_def ls_set_next_def

text \<open>No macro makes or loses a structure.\<close>

definition ls_same :: "list_mem \<Rightarrow> list_mem \<Rightarrow> bool" where
  "ls_same m m' \<longleftrightarrow> dom (ls_link m') = dom (ls_link m) \<and> dom (ls_back m') = dom (ls_back m)"

lemma ls_same_refl [simp]: "ls_same m m"
  by (simp add: ls_same_def)

lemma ls_same_trans [trans]: "ls_same m1 m2 \<Longrightarrow> ls_same m2 m3 \<Longrightarrow> ls_same m1 m3"
  by (simp add: ls_same_def)

lemma ls_set_link_same:
  assumes "ls_set_link l v m = Some m'"
  shows "ls_same m m'"
proof -
  have "ls_link m l \<noteq> None" using assms by (cases l) (auto simp: ls_set_link.simps ls_link.simps split: option.splits)
  then show ?thesis using assms by (auto simp: ls_same_def ls_cells split: if_splits)
qed

lemma ls_set_prev_same:
  assumes "ls_set_prev p l m = Some m'"
  shows "ls_same m m'"
proof (cases p)
  case (Ptr a)
  then have "ls_back m (Prev a) \<noteq> None"
    using assms by (auto simp: ls_set_prev.simps(2) ls_back.simps ls_prev.simps(2) split: option.splits)
  then show ?thesis using assms Ptr by (auto simp: ls_same_def ls_cells split: if_splits)
qed (use assms in simp)

lemma ls_set_next_same: "ls_set_next e v m = Some m' \<Longrightarrow> ls_same m m'"
  by (auto simp: ls_set_next_def bind_eq_Some_conv dest: ls_set_link_same)

lemmas ls_sames = ls_set_link_same ls_set_prev_same ls_set_next_same

lemma LIST_SWAP_same: "LIST_SWAP h1 h2 m = Some m' \<Longrightarrow> ls_same m m'"
  by (auto simp: LIST_SWAP_def bind_eq_Some_conv dest!: ls_sames split: if_splits; meson ls_same_trans)

lemma LIST_CONCAT_same: "LIST_CONCAT h1 h2 m = Some m' \<Longrightarrow> ls_same m m'"
  by (auto simp: LIST_CONCAT_def LIST_INIT_def bind_eq_Some_conv dest!: ls_sames intro: ls_same_trans split: if_splits)

lemma LIST_INSERT_BEFORE_same: "LIST_INSERT_BEFORE p q m = Some m' \<Longrightarrow> ls_same m m'"
  by (auto simp: LIST_INSERT_BEFORE_def bind_eq_Some_conv dest!: ls_sames; meson ls_same_trans)

lemma LIST_INSERT_AFTER_same: "LIST_INSERT_AFTER p q m = Some m' \<Longrightarrow> ls_same m m'"
  by (auto simp: LIST_INSERT_AFTER_def bind_eq_Some_conv dest!: ls_sames split: if_splits; meson ls_same_trans)

lemma LIST_INSERT_HEAD_same: "LIST_INSERT_HEAD h q m = Some m' \<Longrightarrow> ls_same m m'"
  by (auto simp: LIST_INSERT_HEAD_def bind_eq_Some_conv dest!: ls_sames split: if_splits; meson ls_same_trans)

lemma list_exec_same: "list_exec c m = Some m' \<Longrightarrow> ls_same m m'"
  by (cases c) (auto simp: LIST_INIT_def LIST_REMOVE_def bind_eq_Some_conv dest!: ls_sames LIST_SWAP_same LIST_CONCAT_same
    LIST_INSERT_BEFORE_same LIST_INSERT_AFTER_same LIST_INSERT_HEAD_same intro: ls_same_trans split: if_splits)

subsection \<open>The macros do what the list operations do\<close>

definition backed_holds :: holds where
  "backed_holds lk bk h xs \<longleftrightarrow> chain_at lk (First h) xs \<and> backs bk (First h) xs"

lemma backed_holds_own: "own_cells backed_holds"
  unfolding own_cells_def backed_holds_def using chain_at_cong backs_cong by (metis (no_types, lifting))

definition list_rep :: "nat list \<Rightarrow> nat set \<Rightarrow> list_mem \<Rightarrow> queues \<Rightarrow> bool" where
  "list_rep = queue_rep backed_holds (\<lambda>H U. Prev ` U) ls_link ls_back"

interpretation ls: linked_cells ls_link ls_back list_exec backed_holds "\<lambda>H U. Prev ` U"
  using backed_holds_own list_exec_same by unfold_locales (auto simp: ls_same_def)

lemmas list_step = ls.step [folded list_rep_def]
lemmas list_step1 = ls.step1 [folded list_rep_def]
lemmas list_step2 = ls.step2 [folded list_rep_def]

lemma list_list:
  assumes "list_rep H U m Q" and "Q h = Some xs"
  shows "distinct xs \<and> path (ls_link m) (First h) xs \<and> ls_link m (end_loc (First h) xs) = Some NULL \<and>
    backs (ls_back m) (First h) xs"
  using ls.list_holds [OF assms(1) [unfolded list_rep_def] assms(2)] by (simp add: backed_holds_def chain_at_def)

lemma list_cell:
  assumes "list_rep H U m Q" and "Q h = Some xs" and "a \<in> set xs"
  shows "\<exists>p. ls_link m (Next a) = Some p" and "\<exists>l. ls_back m (Prev a) = Some l"
  using ls.link_iff [OF assms(1) [unfolded list_rep_def], of "Next a"] ls.list_in(2) [OF assms(1) [unfolded list_rep_def] assms(2,3)]
    ls.back_iff [OF assms(1) [unfolded list_rep_def], of "Prev a"] by auto

lemma list_unused:
  assumes "list_rep H U m Q" and "x \<in> U" and "unused H Q x" and "Q h = Some xs"
  shows "x \<notin> set xs \<and> (\<exists>p l. ls_link m (Next x) = Some p \<and> ls_back m (Prev x) = Some l)"
  using ls.unused_in_none [OF assms(1) [unfolded list_rep_def] assms(3,4)] ls_cell_both [of m x]
    ls.unused_cell [OF assms(1) [unfolded list_rep_def] assms(2)] by auto

lemmas list_holds = backed_holds_def chain_at_def at_head_def

lemma list_init:
  assumes "list_rep H U m Q" and "legal H U Q (Init h)"
  shows "\<exists>m'. list_exec (Init h) m = Some m' \<and> list_rep H U m' (apply_op (Init h) Q)"
proof -
  have c: "\<exists>p. ls_link m (First h) = Some p"
    using assms(2) ls.link_iff [OF assms(1) [unfolded list_rep_def], of "First h"] by auto
  then obtain m' where m': "list_exec (Init h) m = Some m'" "ls_link m' = (ls_link m)(First h \<mapsto> NULL)" "ls_back m' = ls_back m"
    by (auto simp: LIST_INIT_def ls_cells)
  show ?thesis
    by (rule list_step [OF assms m'(1)]) (use c in \<open>auto simp: m' list_holds op_elems_def\<close>)
qed

lemma list_insert_head:
  assumes "list_rep H U m Q" and "legal H U Q (Insert_Head h x)"
  shows "\<exists>m'. list_exec (Insert_Head h x) m = Some m' \<and> list_rep H U m' (apply_op (Insert_Head h x) Q)"
proof -
  obtain xs where Q: "Q h = Some xs" using assms(2) by auto
  note c = list_list [OF assms(1) Q]
  have x: "x \<notin> set xs" "\<exists>p. ls_link m (Next x) = Some p" "\<exists>l. ls_back m (Prev x) = Some l"
    using list_unused [OF assms(1) _ _ Q, of x] assms(2) by auto
  obtain m' where m': "list_exec (Insert_Head h x) m = Some m'"
    "ls_link m' = (ls_link m)(Next x \<mapsto> first_of xs, First h \<mapsto> Ptr x)"
    "ls_back m' = (case xs of [] \<Rightarrow> ls_back m | z # _ \<Rightarrow> (ls_back m)(Prev z \<mapsto> Next x))(Prev x \<mapsto> First h)"
    using x c by (cases xs) (auto simp: LIST_INSERT_HEAD_def ls_macros ls_cells)
  show ?thesis
  proof (rule list_step1 [OF assms m'(1) _ Q])
    show "backed_holds (ls_link m') (ls_back m') h (x # xs)"
      using x c by (cases xs) (auto simp: m' list_holds)
  qed (use Q in \<open>auto simp: m' list_holds split: list.splits\<close>)
qed

lemma list_insert_after:
  assumes "list_rep H U m Q" and "legal H U Q (Insert_After h y x)"
  shows "\<exists>m'. list_exec (Insert_After h y x) m = Some m' \<and> list_rep H U m' (apply_op (Insert_After h y x) Q)"
proof -
  obtain us vs where Q: "Q h = Some (us @ y # vs)" and y: "y \<notin> set us"
    using assms(2) lookup_queue_member by (metis legal.simps(4) split_list_first)
  note c = list_list [OF assms(1) Q]
  have x: "x \<notin> set (us @ y # vs)" "\<exists>p. ls_link m (Next x) = Some p" "\<exists>l. ls_back m (Prev x) = Some l"
    using list_unused [OF assms(1) _ _ Q, of x] assms(2) by auto
  obtain m' where m': "list_exec (Insert_After h y x) m = Some m'"
    "ls_link m' = (ls_link m)(Next x \<mapsto> first_of vs, Next y \<mapsto> Ptr x)"
    "ls_back m' = (case vs of [] \<Rightarrow> ls_back m | z # _ \<Rightarrow> (ls_back m)(Prev z \<mapsto> Next x))(Prev x \<mapsto> Next y)"
    using x c by (cases vs) (auto simp: LIST_INSERT_AFTER_def ls_macros ls_cells)
  show ?thesis
  proof (rule list_step1 [OF assms m'(1) _ Q])
    show "backed_holds (ls_link m') (ls_back m') h (us @ y # x # vs)"
      using x c by (cases vs) (auto simp: m' list_holds)
  qed (use Q y in \<open>auto simp: m' list_holds insert_after_split split: list.splits\<close>)
qed

lemma list_insert_before:
  assumes "list_rep H U m Q" and "legal H U Q (Insert_Before h y x)"
  shows "\<exists>m'. list_exec (Insert_Before h y x) m = Some m' \<and> list_rep H U m' (apply_op (Insert_Before h y x) Q)"
proof -
  obtain us vs where Q: "Q h = Some (us @ y # vs)" and y: "y \<notin> set us"
    using assms(2) lookup_queue_member by (metis legal.simps(5) split_list_first)
  note c = list_list [OF assms(1) Q]
  have x: "x \<notin> set (us @ y # vs)" "\<exists>p. ls_link m (Next x) = Some p" "\<exists>l. ls_back m (Prev x) = Some l"
    using list_unused [OF assms(1) _ _ Q, of x] assms(2) by auto
  obtain m' where m': "list_exec (Insert_Before h y x) m = Some m'"
    "ls_link m' = (ls_link m)(Next x \<mapsto> Ptr y, end_loc (First h) us \<mapsto> Ptr x)"
    "ls_back m' = (ls_back m)(Prev x \<mapsto> end_loc (First h) us, Prev y \<mapsto> Next x)"
    using x c by (auto simp: LIST_INSERT_BEFORE_def ls_macros ls_cells)
  show ?thesis
  proof (rule list_step1 [OF assms m'(1) _ Q])
    show "backed_holds (ls_link m') (ls_back m') h (us @ x # y # vs)"
      using x c by (auto simp: m' list_holds)
  qed (use Q y in \<open>auto simp: m' list_holds insert_before_split\<close>)
qed

lemma list_remove:
  assumes "list_rep H U m Q" and "legal H U Q (Remove h x)"
  shows "\<exists>m'. list_exec (Remove h x) m = Some m' \<and> list_rep H U m' (apply_op (Remove h x) Q)"
proof -
  obtain us vs where Q: "Q h = Some (us @ x # vs)" and x: "x \<notin> set us"
    using assms(2) lookup_queue_member by (metis legal.simps(6) split_list_first)
  note c = list_list [OF assms(1) Q]
  obtain m' where m': "list_exec (Remove h x) m = Some m'"
    "ls_link m' = (ls_link m)(end_loc (First h) us \<mapsto> first_of vs)"
    "ls_back m' = (case vs of [] \<Rightarrow> ls_back m | z # _ \<Rightarrow> (ls_back m)(Prev z \<mapsto> end_loc (First h) us))"
    using c by (cases vs) (auto simp: LIST_REMOVE_def ls_macros ls_cells)
  show ?thesis
  proof (rule list_step1 [OF assms m'(1) _ Q])
    show "backed_holds (ls_link m') (ls_back m') h (us @ vs)"
      using c by (cases vs) (auto simp: m' list_holds)
  qed (use Q x in \<open>auto simp: m' list_holds remove1_split split: list.splits\<close>)
qed

lemma list_seek_last_found:
  "path (ls_link m) l (us @ [c]) \<Longrightarrow> ls_link m (Next c) = Some NULL \<Longrightarrow> list_seek_last m (first_of (us @ [c])) = Some (Ptr c)"
proof (induction us arbitrary: l)
  case Nil
  then show ?case by (subst list_seek_last.simps) (simp add: LIST_NEXT_def)
next
  case (Cons u us)
  have "list_seek_last m (first_of (us @ [c])) = Some (Ptr c)"
    using Cons.IH [of "Next u"] Cons.prems by simp
  moreover have "ls_link m (Next u) = Some (first_of (us @ [c]))" "first_of (us @ [c]) \<noteq> NULL"
    using Cons.prems by (cases us; simp)+
  ultimately show ?case by (subst list_seek_last.simps) (simp add: LIST_NEXT_def)
qed

lemma list_concat:
  assumes "list_rep H U m Q" and "legal H U Q (Concat h1 h2)"
  shows "\<exists>m'. list_exec (Concat h1 h2) m = Some m' \<and> list_rep H U m' (apply_op (Concat h1 h2) Q)"
proof -
  obtain xs ys where q: "Q h1 = Some xs" "Q h2 = Some ys" "h1 \<noteq> h2" using assms(2) by auto
  note c = list_list [OF assms(1) q(1)] list_list [OF assms(1) q(2)]
    and d = ls.two_lists [OF assms(1) [unfolded list_rep_def] q]
  have "\<exists>m'. list_exec (Concat h1 h2) m = Some m' \<and> (ys \<noteq> [] \<longrightarrow>
      ls_link m' = (ls_link m)(end_loc (First h1) xs \<mapsto> first_of ys, First h2 \<mapsto> NULL) \<and>
      ls_back m' = (ls_back m)(Prev (hd ys) \<mapsto> end_loc (First h1) xs)) \<and>
      (ys = [] \<longrightarrow> ls_link m' = ls_link m \<and> ls_back m' = ls_back m)"
  proof (cases xs rule: rev_cases)
    case Nil
    then show ?thesis
      using c q(3) by (cases ys) (auto simp: LIST_CONCAT_def LIST_INIT_def ls_macros ls_cells)
  next
    case (snoc us x)
    have "ls_link m (First h1) = Some (first_of (us @ [x]))" "first_of (us @ [x]) \<noteq> NULL"
      using c snoc by (cases us; simp)+
    moreover have "list_seek_last m (first_of (us @ [x])) = Some (Ptr x)"
      by (rule list_seek_last_found) (use c snoc in auto)
    ultimately show ?thesis
      using c q(3) snoc by (cases ys) (auto simp: LIST_CONCAT_def LIST_INIT_def ls_macros ls_cells)
  qed
  then obtain m' where m': "list_exec (Concat h1 h2) m = Some m'"
    "ys \<noteq> [] \<Longrightarrow> ls_link m' = (ls_link m)(end_loc (First h1) xs \<mapsto> first_of ys, First h2 \<mapsto> NULL)"
    "ys \<noteq> [] \<Longrightarrow> ls_back m' = (ls_back m)(Prev (hd ys) \<mapsto> end_loc (First h1) xs)"
    "ys = [] \<Longrightarrow> ls_link m' = ls_link m" "ys = [] \<Longrightarrow> ls_back m' = ls_back m"
    by blast
  show ?thesis
  proof (rule list_step2 [OF assms m'(1) _ q(1,2)])
    show "backed_holds (ls_link m') (ls_back m') h1 (xs @ ys)" "backed_holds (ls_link m') (ls_back m') h2 []"
      using c d q(3) by (cases ys; auto simp: m' list_holds)+
  qed (use q in \<open>cases ys; auto simp: m' list_holds\<close>)+
qed

lemma list_swap:
  assumes "list_rep H U m Q" and "legal H U Q (Swap h1 h2)"
  shows "\<exists>m'. list_exec (Swap h1 h2) m = Some m' \<and> list_rep H U m' (apply_op (Swap h1 h2) Q)"
proof -
  obtain xs ys where q: "Q h1 = Some xs" "Q h2 = Some ys" "h1 \<noteq> h2" using assms(2) by auto
  note c = list_list [OF assms(1) q(1)] list_list [OF assms(1) q(2)]
    and d = ls.two_lists [OF assms(1) [unfolded list_rep_def] q]
  have f: "ls_link m (First h1) = Some (first_of xs)" "ls_link m (First h2) = Some (first_of ys)"
    using c by (cases xs; cases ys; simp)+
  define b1 where "b1 = (case ys of [] \<Rightarrow> ls_back m | y # _ \<Rightarrow> (ls_back m)(Prev y \<mapsto> First h1))"
  define b2 where "b2 = (case xs of [] \<Rightarrow> b1 | x # _ \<Rightarrow> b1(Prev x \<mapsto> First h2))"
  obtain m' where m': "list_exec (Swap h1 h2) m = Some m'"
    "ls_link m' = (ls_link m)(First h1 \<mapsto> first_of ys, First h2 \<mapsto> first_of xs)" "ls_back m' = b2"
    using c d f q(3) by (cases xs; cases ys) (auto simp: LIST_SWAP_def ls_macros ls_cells b1_def b2_def)
  show ?thesis
  proof (rule list_step2 [OF assms m'(1) _ q(1,2)])
    show "backed_holds (ls_link m') (ls_back m') h1 ys" "backed_holds (ls_link m') (ls_back m') h2 xs"
      using c d q(3) by (cases xs; cases ys; auto simp: m' list_holds b1_def b2_def)+
  qed (use q in \<open>auto simp: m' b1_def b2_def split: list.splits\<close>)
qed

subsection \<open>The macros meet the contract\<close>

lemma list_exec_legal:
  assumes "list_rep H U m Q" and "list_offers c" and "legal H U Q c"
  shows "\<exists>m'. list_exec c m = Some m' \<and> list_rep H U m' (apply_op c Q)"
proof (cases c)
qed (use assms list_init list_insert_head list_insert_after list_insert_before list_remove list_concat
      list_swap in \<open>fastforce simp del: apply_op.simps legal.simps list_exec.simps\<close>)+

lemma list_first:
  "list_rep H U m Q \<Longrightarrow> Q h = Some xs \<Longrightarrow> LIST_FIRST m h = Some (first_of xs)"
  using list_list [of H U m Q h xs] by (cases xs) (auto simp: LIST_FIRST_def)

lemma list_follow:
  "list_rep H U m Q \<Longrightarrow> Q h = Some (us @ x # vs) \<Longrightarrow> LIST_NEXT m (Ptr x) = Some (first_of vs)"
  using list_list [of H U m Q h "us @ x # vs"] by (cases vs) (auto simp: LIST_NEXT_def)

lemma list_rep_disjoint: "list_rep H U m Q \<Longrightarrow> disjoint_queues (set H) U Q"
  unfolding list_rep_def by (rule ls.queues_disjoint)

interpretation list_macros: queue_macros list_rep LIST_FIRST LIST_NEXT list_offers list_exec
  by unfold_locales (simp_all add: list_exec_legal list_first list_follow list_rep_disjoint)

lemma LIST_PREV_spec:
  assumes "list_rep H U m Q" and "Q h = Some (us @ x # vs)"
  shows "LIST_PREV m (Ptr x) h = Some (last_of us)"
  using list_list [OF assms]
  by (cases us rule: rev_cases) (auto simp: LIST_PREV_def last_of_def ls_prev_back)

lemma LIST_PREV_nth:
  assumes "list_rep H U m Q" and "Q h = Some xs" and "i < length xs"
  shows "LIST_PREV m (Ptr (xs ! i)) h = Some (if i = 0 then NULL else Ptr (xs ! (i - 1)))"
proof -
  have "Q h = Some (take i xs @ xs ! i # drop (Suc i) xs)" using assms(2,3) by (simp add: id_take_nth_drop [symmetric])
  from LIST_PREV_spec [OF assms(1) this] show ?thesis using assms(3) by (simp add: last_of_take)
qed

lemma LIST_EMPTY_spec:
  assumes "list_rep H U m Q" and "Q h = Some xs"
  shows "LIST_EMPTY m h = Some (xs = [])"
  using list_first [OF assms] by (cases xs) (auto simp: LIST_EMPTY_def)

lemma LIST_FOREACH_each:
  assumes "keeps mem body" and "list_rep H U (mem s) Q" and "Q h = Some xs"
  shows "LIST_FOREACH mem body h s = each body xs s"
  unfolding LIST_FOREACH_def by (rule list_macros.foreach_visits [OF assms])

lemma LIST_FOREACH_FROM_each:
  assumes "keeps mem body" and "list_rep H U (mem s) Q" and "Q h = Some (us @ x # vs)"
  shows "LIST_FOREACH_FROM mem body (Ptr x) h s = each body (x # vs) s"
  using list_macros.loop_visits [OF assms] by (simp add: LIST_FOREACH_FROM_def)

lemma list_unlink: "(\<lambda>h x. list_exec (Remove h x)) = (\<lambda>h x. LIST_REMOVE (Ptr x))"
  by (intro ext) simp

lemma list_foreach_safe_filters:
  assumes "list_rep H U m Q" and "Q h = Some xs"
  shows "\<exists>m'. LIST_FOREACH_SAFE id (drop_if (\<lambda>h x. LIST_REMOVE (Ptr x)) P h) h m = Some m' \<and>
    list_rep H U m' (Q(h \<mapsto> filter (\<lambda>x. \<not> P x) xs))"
  using list_macros.foreach_filters [OF assms, of P] by (simp add: LIST_FOREACH_SAFE_def list_unlink)

text \<open>Memory in which the heads \<open>H\<close> and the elements \<open>U\<close> exist, not yet initialised.\<close>

definition list_fresh :: "nat list \<Rightarrow> nat set \<Rightarrow> list_mem \<Rightarrow> bool" where
  "list_fresh H U m \<longleftrightarrow> dom (ls_heads m) = set H \<and> dom (ls_elems m) = U"

lemma list_fresh_rep:
  assumes "list_fresh H U m"
  shows "list_rep H U m Map.empty"
proof -
  have "ls_link m c \<noteq> None \<longleftrightarrow> c \<in> First ` set H \<union> Next ` U" for c
    using assms by (cases c) (auto simp: list_fresh_def ls_link.simps domIff [symmetric] image_iff)
  moreover have "ls_back m c \<noteq> None \<longleftrightarrow> c \<in> Prev ` U" for c
    using assms by (cases c) (auto simp: list_fresh_def ls_back.simps ls_prev.simps(2) domIff [symmetric] image_iff)
  ultimately have "dom (ls_link m) = First ` set H \<union> Next ` U" "dom (ls_back m) = Prev ` U"
    by (auto simp: domIff set_eq_iff)
  then show ?thesis by (simp add: list_rep_def queue_rep_def represents_def disjoint_queues_def)
qed

text \<open>C36: Any sequence of \<open>LIST_*\<close> calls on any number of lists does to them what the list operations do:
  every call has a defined outcome, and afterwards each list is walked by \<open>LIST_FOREACH\<close> in order,
  and \<open>LIST_PREV\<close> leads from every element to the one before it.
\<close>

theorem list_run_refines:
  assumes "list_fresh H U m" and "legal_run list_offers H U cs Map.empty"
  shows "\<exists>m'. run_ops list_exec cs m = Some m' \<and>
    (\<forall>h xs. apply_ops cs Map.empty h = Some xs \<longrightarrow>
       LIST_FOREACH fst note_elem h (m', []) = Some (m', xs) \<and> LIST_EMPTY m' h = Some (xs = []) \<and>
       (\<forall>i < length xs. LIST_PREV m' (Ptr (xs ! i)) h = Some (if i = 0 then NULL else Ptr (xs ! (i - 1)))))"
proof -
  obtain m' where m': "run_ops list_exec cs m = Some m'" "list_rep H U m' (apply_ops cs Map.empty)"
    using list_macros.run_legal [OF list_fresh_rep [OF assms(1)] assms(2)] by blast
  show ?thesis
    using m'(1) LIST_FOREACH_each [of fst note_elem H U "(m', [])" "apply_ops cs Map.empty"]
      LIST_EMPTY_spec [OF m'(2)] LIST_PREV_nth [OF m'(2)] m'(2)
    by (intro exI [of _ m']) (simp add: each_note_elem)
qed

definition list_sample :: list_mem where
  "list_sample = \<lparr>ls_heads = [0 \<mapsto> \<lparr>lh_first = NULL\<rparr>, 1 \<mapsto> \<lparr>lh_first = Ptr 5\<rparr>],
     ls_elems = [5 \<mapsto> \<lparr>le_next = NULL, le_prev = First 7\<rparr>, 6 \<mapsto> \<lparr>le_next = NULL, le_prev = Next 5\<rparr>,
       7 \<mapsto> \<lparr>le_next = Ptr 5, le_prev = First 0\<rparr>]\<rparr>"

theorem list_run_refines_witness:
  "\<exists>m'. run_ops list_exec [Init 0, Init 1, Insert_Head 0 5, Insert_Before 0 5 7, Insert_Head 1 6, Swap 0 1, Concat 0 1, Remove 0 7] list_sample = Some m' \<and>
     LIST_FOREACH fst note_elem 0 (m', []) = Some (m', [6, 5]) \<and> LIST_PREV m' (Ptr 5) 0 = Some (Ptr 6)"
proof -
  let ?cs = "[Init 0, Init 1, Insert_Head 0 5, Insert_Before 0 5 7, Insert_Head 1 6, Swap 0 1, Concat 0 1, Remove 0 7]"
  have fresh: "list_fresh [0, 1] {5, 6, 7} list_sample"
    by (auto simp: list_fresh_def list_sample_def)
  have legal: "legal_run list_offers [0, 1] {5, 6, 7} ?cs Map.empty"
    by (simp add: at_head_def)
  have abs: "apply_ops ?cs Map.empty 0 = Some [6, 5]"
    by (simp add: at_head_def)
  show ?thesis
    using list_run_refines [OF fresh legal] abs
    by (elim exE conjE) (erule allE [of _ 0], erule allE [of _ "[6, 5]"], auto dest: spec [of _ 1])
qed

end
