(* ===== verification/Tailq.thy ===== *)
theory Tailq
  imports Queue_Contract
begin

text \<open>
  The doubly-linked tail queues of \<^verbatim>\<open>server/src/queue.h\<close> (the \<open>TAILQ_*\<close> macros). A head and an
  element's entry have the same layout, a pointer and the address of a pointer; \<open>TAILQ_LAST\<close> and
  \<open>TAILQ_PREV\<close> rely on it: they read the cell a back link points to as the start of a head, whose
  second word leads back one step further (\<open>second\<close>). Every macro is a definition; \<open>tailq_exec\<close>
  collects those that change a queue, and they meet the contract of \<open>Queue_Contract\<close>.
\<close>

subsection \<open>Declarations\<close>

record tailq_head =
  tqh_first :: ptr
  tqh_last :: loc

record tailq_entry =
  tqe_next :: ptr
  tqe_prev :: loc

record tailq_mem =
  tq_heads :: "nat \<rightharpoonup> tailq_head"
  tq_elems :: "nat \<rightharpoonup> tailq_entry"

definition TAILQ_HEAD_INITIALIZER :: "nat \<Rightarrow> tailq_head" where
  "TAILQ_HEAD_INITIALIZER head = \<lparr>tqh_first = NULL, tqh_last = First head\<rparr>"

text \<open>Reading and writing the two words of heads and entries.\<close>

fun tq_link :: "tailq_mem \<Rightarrow> loc \<Rightarrow> ptr option" where
  "tq_link m (First h) = map_option tqh_first (tq_heads m h)"
| "tq_link m (Next a) = map_option tqe_next (tq_elems m a)"

fun tq_set_link :: "loc \<Rightarrow> ptr \<Rightarrow> tailq_mem \<Rightarrow> tailq_mem option" where
  "tq_set_link (First h) v m = (case tq_heads m h of None \<Rightarrow> None
     | Some r \<Rightarrow> Some (m\<lparr>tq_heads := (tq_heads m)(h \<mapsto> r\<lparr>tqh_first := v\<rparr>)\<rparr>))"
| "tq_set_link (Next a) v m = (case tq_elems m a of None \<Rightarrow> None
     | Some r \<Rightarrow> Some (m\<lparr>tq_elems := (tq_elems m)(a \<mapsto> r\<lparr>tqe_next := v\<rparr>)\<rparr>))"

fun tq_back :: "tailq_mem \<Rightarrow> bloc \<Rightarrow> loc option" where
  "tq_back m (Last h) = map_option tqh_last (tq_heads m h)"
| "tq_back m (Prev a) = map_option tqe_prev (tq_elems m a)"

fun tq_set_back :: "bloc \<Rightarrow> loc \<Rightarrow> tailq_mem \<Rightarrow> tailq_mem option" where
  "tq_set_back (Last h) l m = (case tq_heads m h of None \<Rightarrow> None
     | Some r \<Rightarrow> Some (m\<lparr>tq_heads := (tq_heads m)(h \<mapsto> r\<lparr>tqh_last := l\<rparr>)\<rparr>))"
| "tq_set_back (Prev a) l m = (case tq_elems m a of None \<Rightarrow> None
     | Some r \<Rightarrow> Some (m\<lparr>tq_elems := (tq_elems m)(a \<mapsto> r\<lparr>tqe_prev := l\<rparr>)\<rparr>))"

subsection \<open>Macros\<close>

definition TAILQ_FIRST :: "tailq_mem \<Rightarrow> nat \<Rightarrow> ptr option" where
  "TAILQ_FIRST m head = tq_link m (First head)"

definition TAILQ_EMPTY :: "tailq_mem \<Rightarrow> nat \<Rightarrow> bool option" where
  "TAILQ_EMPTY m head = map_option (\<lambda>p. p = NULL) (TAILQ_FIRST m head)"

definition TAILQ_NEXT :: "tailq_mem \<Rightarrow> ptr \<Rightarrow> ptr option" where
  "TAILQ_NEXT m elm = do { l \<leftarrow> next_at elm; tq_link m l }"

text \<open>\<open>(*(((struct headname *)(l))->tqh_last))\<close>\<close>

definition tq_step_back :: "tailq_mem \<Rightarrow> loc \<Rightarrow> ptr option" where
  "tq_step_back m l = do { k \<leftarrow> tq_back m (second l); tq_link m k }"

definition TAILQ_LAST :: "tailq_mem \<Rightarrow> nat \<Rightarrow> ptr option" where
  "TAILQ_LAST m head = do { l \<leftarrow> tq_back m (Last head); tq_step_back m l }"

definition TAILQ_PREV :: "tailq_mem \<Rightarrow> ptr \<Rightarrow> ptr option" where
  "TAILQ_PREV m elm = do { b \<leftarrow> prev_at elm; l \<leftarrow> tq_back m b; tq_step_back m l }"

text \<open>\<open>TAILQ_NEXT((elm), field) = v\<close>, \<open>(elm)->field.tqe_prev = l\<close>, \<open>(head)->tqh_last = &TAILQ_NEXT((elm), field)\<close>
  and \<open>(elm)->field.tqe_prev = &TAILQ_NEXT((other), field)\<close>\<close>

definition tq_set_next :: "ptr \<Rightarrow> ptr \<Rightarrow> tailq_mem \<Rightarrow> tailq_mem option" where
  "tq_set_next elm v m = do { l \<leftarrow> next_at elm; tq_set_link l v m }"

definition tq_set_prev :: "ptr \<Rightarrow> loc \<Rightarrow> tailq_mem \<Rightarrow> tailq_mem option" where
  "tq_set_prev elm l m = do { b \<leftarrow> prev_at elm; tq_set_back b l m }"

definition tq_last_is :: "nat \<Rightarrow> ptr \<Rightarrow> tailq_mem \<Rightarrow> tailq_mem option" where
  "tq_last_is head elm m = do { l \<leftarrow> next_at elm; tq_set_back (Last head) l m }"

definition tq_prev_is :: "ptr \<Rightarrow> ptr \<Rightarrow> tailq_mem \<Rightarrow> tailq_mem option" where
  "tq_prev_is elm other m = do { l \<leftarrow> next_at other; tq_set_prev elm l m }"

definition tq_prev :: "tailq_mem \<Rightarrow> ptr \<Rightarrow> loc option" where
  "tq_prev m elm = do { b \<leftarrow> prev_at elm; tq_back m b }"

definition TAILQ_INIT :: "nat \<Rightarrow> tailq_mem \<Rightarrow> tailq_mem option" where
  "TAILQ_INIT head m = do {
     m \<leftarrow> tq_set_link (First head) NULL m;
     tq_set_back (Last head) (First head) m
   }"

definition TAILQ_INSERT_HEAD :: "nat \<Rightarrow> ptr \<Rightarrow> tailq_mem \<Rightarrow> tailq_mem option" where
  "TAILQ_INSERT_HEAD head elm m = do {
     q \<leftarrow> TAILQ_FIRST m head;
     m \<leftarrow> tq_set_next elm q m;
     m \<leftarrow> (if q \<noteq> NULL then do { p \<leftarrow> TAILQ_FIRST m head; tq_prev_is p elm m } else tq_last_is head elm m);
     m \<leftarrow> tq_set_link (First head) elm m;
     tq_set_prev elm (First head) m
   }"

definition TAILQ_INSERT_TAIL :: "nat \<Rightarrow> ptr \<Rightarrow> tailq_mem \<Rightarrow> tailq_mem option" where
  "TAILQ_INSERT_TAIL head elm m = do {
     m \<leftarrow> tq_set_next elm NULL m;
     l \<leftarrow> tq_back m (Last head);
     m \<leftarrow> tq_set_prev elm l m;
     l \<leftarrow> tq_back m (Last head);
     m \<leftarrow> tq_set_link l elm m;
     tq_last_is head elm m
   }"

definition TAILQ_INSERT_AFTER :: "nat \<Rightarrow> ptr \<Rightarrow> ptr \<Rightarrow> tailq_mem \<Rightarrow> tailq_mem option" where
  "TAILQ_INSERT_AFTER head listelm elm m = do {
     q \<leftarrow> TAILQ_NEXT m listelm;
     m \<leftarrow> tq_set_next elm q m;
     m \<leftarrow> (if q \<noteq> NULL then do { p \<leftarrow> TAILQ_NEXT m elm; tq_prev_is p elm m } else tq_last_is head elm m);
     m \<leftarrow> tq_set_next listelm elm m;
     tq_prev_is elm listelm m
   }"

definition TAILQ_INSERT_BEFORE :: "ptr \<Rightarrow> ptr \<Rightarrow> tailq_mem \<Rightarrow> tailq_mem option" where
  "TAILQ_INSERT_BEFORE listelm elm m = do {
     l \<leftarrow> tq_prev m listelm;
     m \<leftarrow> tq_set_prev elm l m;
     m \<leftarrow> tq_set_next elm listelm m;
     l \<leftarrow> tq_prev m listelm;
     m \<leftarrow> tq_set_link l elm m;
     tq_prev_is listelm elm m
   }"

definition TAILQ_REMOVE :: "nat \<Rightarrow> ptr \<Rightarrow> tailq_mem \<Rightarrow> tailq_mem option" where
  "TAILQ_REMOVE head elm m = do {
     q \<leftarrow> TAILQ_NEXT m elm;
     l \<leftarrow> tq_prev m elm;
     m \<leftarrow> (if q \<noteq> NULL then tq_set_prev q l m else tq_set_back (Last head) l m);
     l \<leftarrow> tq_prev m elm;
     q \<leftarrow> TAILQ_NEXT m elm;
     tq_set_link l q m
   }"

definition TAILQ_CONCAT :: "nat \<Rightarrow> nat \<Rightarrow> tailq_mem \<Rightarrow> tailq_mem option" where
  "TAILQ_CONCAT head1 head2 m = do {
     empty \<leftarrow> TAILQ_EMPTY m head2;
     if \<not> empty then do {
       l \<leftarrow> tq_back m (Last head1);
       p \<leftarrow> TAILQ_FIRST m head2;
       m \<leftarrow> tq_set_link l p m;
       p \<leftarrow> TAILQ_FIRST m head2;
       l \<leftarrow> tq_back m (Last head1);
       m \<leftarrow> tq_set_prev p l m;
       k \<leftarrow> tq_back m (Last head2);
       m \<leftarrow> tq_set_back (Last head1) k m;
       TAILQ_INIT head2 m
     } else Some m
   }"

definition TAILQ_SWAP :: "nat \<Rightarrow> nat \<Rightarrow> tailq_mem \<Rightarrow> tailq_mem option" where
  "TAILQ_SWAP head1 head2 m = do {
     swap_first \<leftarrow> TAILQ_FIRST m head1;
     swap_last \<leftarrow> tq_back m (Last head1);
     p \<leftarrow> TAILQ_FIRST m head2;
     m \<leftarrow> tq_set_link (First head1) p m;
     l \<leftarrow> tq_back m (Last head2);
     m \<leftarrow> tq_set_back (Last head1) l m;
     m \<leftarrow> tq_set_link (First head2) swap_first m;
     m \<leftarrow> tq_set_back (Last head2) swap_last m;
     swap_first \<leftarrow> TAILQ_FIRST m head1;
     m \<leftarrow> (if swap_first \<noteq> NULL then tq_set_prev swap_first (First head1) m
           else tq_set_back (Last head1) (First head1) m);
     swap_first \<leftarrow> TAILQ_FIRST m head2;
     if swap_first \<noteq> NULL then tq_set_prev swap_first (First head2) m
     else tq_set_back (Last head2) (First head2) m
   }"

text \<open>The iteration macros; the \<open>_FROM\<close> variants start at \<open>var\<close> if it is set.\<close>

definition TAILQ_FOREACH :: "('s \<Rightarrow> tailq_mem) \<Rightarrow> (nat \<Rightarrow> 's \<Rightarrow> 's option) \<Rightarrow> nat \<Rightarrow> 's \<Rightarrow> 's option" where
  "TAILQ_FOREACH mem body head s = do {
     p \<leftarrow> TAILQ_FIRST (mem s) head;
     link_loop (\<lambda>s. TAILQ_NEXT (mem s)) body p s
   }"

definition TAILQ_FOREACH_FROM ::
  "('s \<Rightarrow> tailq_mem) \<Rightarrow> (nat \<Rightarrow> 's \<Rightarrow> 's option) \<Rightarrow> ptr \<Rightarrow> nat \<Rightarrow> 's \<Rightarrow> 's option" where
  "TAILQ_FOREACH_FROM mem body var head s = do {
     p \<leftarrow> (if var \<noteq> NULL then Some var else TAILQ_FIRST (mem s) head);
     link_loop (\<lambda>s. TAILQ_NEXT (mem s)) body p s
   }"

definition TAILQ_FOREACH_SAFE :: "('s \<Rightarrow> tailq_mem) \<Rightarrow> (nat \<Rightarrow> 's \<Rightarrow> 's option) \<Rightarrow> nat \<Rightarrow> 's \<Rightarrow> 's option" where
  "TAILQ_FOREACH_SAFE mem body head s = do {
     p \<leftarrow> TAILQ_FIRST (mem s) head;
     link_safe_loop (\<lambda>s. TAILQ_NEXT (mem s)) body p s
   }"

definition TAILQ_FOREACH_FROM_SAFE ::
  "('s \<Rightarrow> tailq_mem) \<Rightarrow> (nat \<Rightarrow> 's \<Rightarrow> 's option) \<Rightarrow> ptr \<Rightarrow> nat \<Rightarrow> 's \<Rightarrow> 's option" where
  "TAILQ_FOREACH_FROM_SAFE mem body var head s = do {
     p \<leftarrow> (if var \<noteq> NULL then Some var else TAILQ_FIRST (mem s) head);
     link_safe_loop (\<lambda>s. TAILQ_NEXT (mem s)) body p s
   }"

definition TAILQ_FOREACH_REVERSE :: "('s \<Rightarrow> tailq_mem) \<Rightarrow> (nat \<Rightarrow> 's \<Rightarrow> 's option) \<Rightarrow> nat \<Rightarrow> 's \<Rightarrow> 's option" where
  "TAILQ_FOREACH_REVERSE mem body head s = do {
     p \<leftarrow> TAILQ_LAST (mem s) head;
     link_loop (\<lambda>s. TAILQ_PREV (mem s)) body p s
   }"

definition TAILQ_FOREACH_REVERSE_FROM ::
  "('s \<Rightarrow> tailq_mem) \<Rightarrow> (nat \<Rightarrow> 's \<Rightarrow> 's option) \<Rightarrow> ptr \<Rightarrow> nat \<Rightarrow> 's \<Rightarrow> 's option" where
  "TAILQ_FOREACH_REVERSE_FROM mem body var head s = do {
     p \<leftarrow> (if var \<noteq> NULL then Some var else TAILQ_LAST (mem s) head);
     link_loop (\<lambda>s. TAILQ_PREV (mem s)) body p s
   }"

definition TAILQ_FOREACH_REVERSE_SAFE :: "('s \<Rightarrow> tailq_mem) \<Rightarrow> (nat \<Rightarrow> 's \<Rightarrow> 's option) \<Rightarrow> nat \<Rightarrow> 's \<Rightarrow> 's option" where
  "TAILQ_FOREACH_REVERSE_SAFE mem body head s = do {
     p \<leftarrow> TAILQ_LAST (mem s) head;
     link_safe_loop (\<lambda>s. TAILQ_PREV (mem s)) body p s
   }"

definition TAILQ_FOREACH_REVERSE_FROM_SAFE ::
  "('s \<Rightarrow> tailq_mem) \<Rightarrow> (nat \<Rightarrow> 's \<Rightarrow> 's option) \<Rightarrow> ptr \<Rightarrow> nat \<Rightarrow> 's \<Rightarrow> 's option" where
  "TAILQ_FOREACH_REVERSE_FROM_SAFE mem body var head s = do {
     p \<leftarrow> (if var \<noteq> NULL then Some var else TAILQ_LAST (mem s) head);
     link_safe_loop (\<lambda>s. TAILQ_PREV (mem s)) body p s
   }"

fun tailq_exec :: "queue_op \<Rightarrow> tailq_mem \<Rightarrow> tailq_mem option" where
  "tailq_exec (Init h) m = TAILQ_INIT h m"
| "tailq_exec (Insert_Head h x) m = TAILQ_INSERT_HEAD h (Ptr x) m"
| "tailq_exec (Insert_Tail h x) m = TAILQ_INSERT_TAIL h (Ptr x) m"
| "tailq_exec (Insert_After h y x) m = TAILQ_INSERT_AFTER h (Ptr y) (Ptr x) m"
| "tailq_exec (Insert_Before h y x) m = TAILQ_INSERT_BEFORE (Ptr y) (Ptr x) m"
| "tailq_exec (Remove h x) m = TAILQ_REMOVE h (Ptr x) m"
| "tailq_exec (Concat h1 h2) m = TAILQ_CONCAT h1 h2 m"
| "tailq_exec (Swap h1 h2) m = TAILQ_SWAP h1 h2 m"
| "tailq_exec _ m = None"

fun tailq_offers :: "queue_op \<Rightarrow> bool" where
  "tailq_offers (Remove_Head h) \<longleftrightarrow> False"
| "tailq_offers (Remove_After h y) \<longleftrightarrow> False"
| "tailq_offers _ \<longleftrightarrow> True"

subsection \<open>The cells as two maps\<close>

definition tq_wr :: "loc \<Rightarrow> ptr \<Rightarrow> tailq_mem \<Rightarrow> tailq_mem" where
  "tq_wr l v m = the (tq_set_link l v m)"

definition tq_wr_back :: "bloc \<Rightarrow> loc \<Rightarrow> tailq_mem \<Rightarrow> tailq_mem" where
  "tq_wr_back b l m = the (tq_set_back b l m)"

lemma tq_set_link_wr: "tq_link m l \<noteq> None \<Longrightarrow> tq_set_link l v m = Some (tq_wr l v m)"
  by (cases l) (auto simp: tq_wr_def)

lemma tq_link_wr: "tq_link m l \<noteq> None \<Longrightarrow> tq_link (tq_wr l v m) = (tq_link m)(l \<mapsto> v)"
proof (rule ext)
  fix c
  assume "tq_link m l \<noteq> None"
  then show "tq_link (tq_wr l v m) c = ((tq_link m)(l \<mapsto> v)) c"
    by (cases l; cases c) (auto simp: tq_wr_def)
qed

lemma tq_back_wr: "tq_link m l \<noteq> None \<Longrightarrow> tq_back (tq_wr l v m) = tq_back m"
proof (rule ext)
  fix c
  assume "tq_link m l \<noteq> None"
  then show "tq_back (tq_wr l v m) c = tq_back m c"
    by (cases l; cases c) (auto simp: tq_wr_def)
qed

lemma tq_set_back_wr: "tq_back m b \<noteq> None \<Longrightarrow> tq_set_back b l m = Some (tq_wr_back b l m)"
  by (cases b) (auto simp: tq_wr_back_def)

lemma tq_link_wr_back: "tq_back m b \<noteq> None \<Longrightarrow> tq_link (tq_wr_back b l m) = tq_link m"
proof (rule ext)
  fix c
  assume "tq_back m b \<noteq> None"
  then show "tq_link (tq_wr_back b l m) c = tq_link m c"
    by (cases b; cases c) (auto simp: tq_wr_back_def)
qed

lemma tq_back_wr_back: "tq_back m b \<noteq> None \<Longrightarrow> tq_back (tq_wr_back b l m) = (tq_back m)(b \<mapsto> l)"
proof (rule ext)
  fix c
  assume "tq_back m b \<noteq> None"
  then show "tq_back (tq_wr_back b l m) c = ((tq_back m)(b \<mapsto> l)) c"
    by (cases b; cases c) (auto simp: tq_wr_back_def)
qed

lemma tq_cell_both: "tq_link m (Next a) = None \<longleftrightarrow> tq_back m (Prev a) = None"
  and tq_head_both: "tq_link m (First h) = None \<longleftrightarrow> tq_back m (Last h) = None"
  by simp_all

declare tq_link.simps [simp del] tq_back.simps [simp del] tq_set_link.simps [simp del] tq_set_back.simps [simp del]

lemmas tq_cells = tq_set_link_wr tq_link_wr tq_back_wr tq_set_back_wr tq_link_wr_back tq_back_wr_back

lemmas tq_macros = TAILQ_FIRST_def TAILQ_EMPTY_def TAILQ_NEXT_def tq_set_next_def tq_set_prev_def tq_last_is_def
  tq_prev_is_def tq_prev_def

text \<open>No macro makes or loses a structure.\<close>

definition tq_same :: "tailq_mem \<Rightarrow> tailq_mem \<Rightarrow> bool" where
  "tq_same m m' \<longleftrightarrow> dom (tq_link m') = dom (tq_link m) \<and> dom (tq_back m') = dom (tq_back m)"

lemma tq_same_refl [simp]: "tq_same m m"
  by (simp add: tq_same_def)

lemma tq_same_trans [trans]: "tq_same m1 m2 \<Longrightarrow> tq_same m2 m3 \<Longrightarrow> tq_same m1 m3"
  by (simp add: tq_same_def)

lemma tq_set_link_same:
  assumes "tq_set_link l v m = Some m'"
  shows "tq_same m m'"
proof -
  have "tq_link m l \<noteq> None" using assms by (cases l) (auto simp: tq_set_link.simps tq_link.simps split: option.splits)
  then show ?thesis using assms by (auto simp: tq_same_def tq_cells split: if_splits)
qed

lemma tq_set_back_same:
  assumes "tq_set_back b l m = Some m'"
  shows "tq_same m m'"
proof -
  have "tq_back m b \<noteq> None" using assms by (cases b) (auto simp: tq_set_back.simps tq_back.simps split: option.splits)
  then show ?thesis using assms by (auto simp: tq_same_def tq_cells split: if_splits)
qed

lemma tq_set_next_same:
  "tq_set_next e v m = Some m' \<Longrightarrow> tq_same m m'" "tq_set_prev e l m = Some m' \<Longrightarrow> tq_same m m'"
  "tq_last_is h e m = Some m' \<Longrightarrow> tq_same m m'" "tq_prev_is e f m = Some m' \<Longrightarrow> tq_same m m'"
  by (auto simp: tq_set_next_def tq_set_prev_def tq_last_is_def tq_prev_is_def bind_eq_Some_conv
    dest: tq_set_link_same tq_set_back_same)

lemmas tq_sames = tq_set_link_same tq_set_back_same tq_set_next_same

lemma TAILQ_INIT_same: "TAILQ_INIT h m = Some m' \<Longrightarrow> tq_same m m'"
  by (auto simp: TAILQ_INIT_def bind_eq_Some_conv dest!: tq_sames intro: tq_same_trans)

lemma TAILQ_SWAP_same: "TAILQ_SWAP h1 h2 m = Some m' \<Longrightarrow> tq_same m m'"
  by (auto simp: TAILQ_SWAP_def bind_eq_Some_conv dest!: tq_sames split: if_splits; meson tq_same_trans)

lemma TAILQ_CONCAT_same: "TAILQ_CONCAT h1 h2 m = Some m' \<Longrightarrow> tq_same m m'"
  by (auto simp: TAILQ_CONCAT_def bind_eq_Some_conv dest!: tq_sames TAILQ_INIT_same split: if_splits; meson tq_same_trans)

lemma TAILQ_INSERT_same:
  "TAILQ_INSERT_BEFORE p q m = Some m' \<Longrightarrow> tq_same m m'" "TAILQ_INSERT_AFTER h p q m = Some m' \<Longrightarrow> tq_same m m'"
  "TAILQ_INSERT_HEAD h q m = Some m' \<Longrightarrow> tq_same m m'" "TAILQ_INSERT_TAIL h q m = Some m' \<Longrightarrow> tq_same m m'"
  by (auto simp: TAILQ_INSERT_BEFORE_def TAILQ_INSERT_AFTER_def TAILQ_INSERT_HEAD_def TAILQ_INSERT_TAIL_def bind_eq_Some_conv
    dest!: tq_sames split: if_splits; meson tq_same_trans)+

lemma TAILQ_REMOVE_same: "TAILQ_REMOVE h p m = Some m' \<Longrightarrow> tq_same m m'"
  by (auto simp: TAILQ_REMOVE_def bind_eq_Some_conv dest!: tq_sames intro: tq_same_trans split: if_splits)

lemma tailq_exec_same: "tailq_exec c m = Some m' \<Longrightarrow> tq_same m m'"
  by (cases c) (auto dest: TAILQ_INIT_same TAILQ_SWAP_same TAILQ_CONCAT_same TAILQ_INSERT_same TAILQ_REMOVE_same)

subsection \<open>The macros do what the list operations do\<close>

definition tailq_holds :: holds where
  "tailq_holds lk bk h xs \<longleftrightarrow>
     chain_at lk (First h) xs \<and> backs bk (First h) xs \<and> bk (Last h) = Some (end_loc (First h) xs)"

lemma tailq_holds_own: "own_cells tailq_holds"
  unfolding own_cells_def tailq_holds_def using chain_at_cong backs_cong by (metis (no_types, lifting))

definition tailq_rep :: "nat list \<Rightarrow> nat set \<Rightarrow> tailq_mem \<Rightarrow> queues \<Rightarrow> bool" where
  "tailq_rep = queue_rep tailq_holds (\<lambda>H U. Last ` set H \<union> Prev ` U) tq_link tq_back"

interpretation tq: linked_cells tq_link tq_back tailq_exec tailq_holds "\<lambda>H U. Last ` set H \<union> Prev ` U"
  using tailq_holds_own tailq_exec_same by unfold_locales (auto simp: tq_same_def)

lemmas tailq_step = tq.step [folded tailq_rep_def]
lemmas tailq_step1 = tq.step1 [folded tailq_rep_def]
lemmas tailq_step2 = tq.step2 [folded tailq_rep_def]

lemma tailq_list:
  assumes "tailq_rep H U m Q" and "Q h = Some xs"
  shows "distinct xs \<and> path (tq_link m) (First h) xs \<and> tq_link m (end_loc (First h) xs) = Some NULL \<and>
    backs (tq_back m) (First h) xs \<and> tq_back m (Last h) = Some (end_loc (First h) xs)"
  using tq.list_holds [OF assms(1) [unfolded tailq_rep_def] assms(2)] by (simp add: tailq_holds_def chain_at_def)

lemma tailq_unused:
  assumes "tailq_rep H U m Q" and "x \<in> U" and "unused H Q x" and "Q h = Some xs"
  shows "x \<notin> set xs \<and> (\<exists>p l. tq_link m (Next x) = Some p \<and> tq_back m (Prev x) = Some l)"
  using tq.unused_in_none [OF assms(1) [unfolded tailq_rep_def] assms(3,4)] tq_cell_both [of m x]
    tq.unused_cell [OF assms(1) [unfolded tailq_rep_def] assms(2)] by auto

lemmas tailq_unfold = tailq_holds_def chain_at_def at_head_def

lemma tailq_init:
  assumes "tailq_rep H U m Q" and "legal H U Q (Init h)"
  shows "\<exists>m'. tailq_exec (Init h) m = Some m' \<and> tailq_rep H U m' (apply_op (Init h) Q)"
proof -
  have c: "\<exists>p. tq_link m (First h) = Some p" "\<exists>l. tq_back m (Last h) = Some l"
    using assms(2) tq.link_iff [OF assms(1) [unfolded tailq_rep_def], of "First h"]
      tq.back_iff [OF assms(1) [unfolded tailq_rep_def], of "Last h"] by auto
  then obtain m' where m': "tailq_exec (Init h) m = Some m'" "tq_link m' = (tq_link m)(First h \<mapsto> NULL)"
    "tq_back m' = (tq_back m)(Last h \<mapsto> First h)"
    by (auto simp: TAILQ_INIT_def tq_cells)
  show ?thesis
    by (rule tailq_step [OF assms m'(1)]) (use c in \<open>auto simp: m' tailq_unfold op_elems_def\<close>)
qed

lemma tailq_insert_head:
  assumes "tailq_rep H U m Q" and "legal H U Q (Insert_Head h x)"
  shows "\<exists>m'. tailq_exec (Insert_Head h x) m = Some m' \<and> tailq_rep H U m' (apply_op (Insert_Head h x) Q)"
proof -
  obtain xs where Q: "Q h = Some xs" using assms(2) by auto
  note c = tailq_list [OF assms(1) Q]
  have x: "x \<notin> set xs" "\<exists>p. tq_link m (Next x) = Some p" "\<exists>l. tq_back m (Prev x) = Some l"
    using tailq_unused [OF assms(1) _ _ Q, of x] assms(2) by auto
  obtain m' where m': "tailq_exec (Insert_Head h x) m = Some m'"
    "tq_link m' = (tq_link m)(Next x \<mapsto> first_of xs, First h \<mapsto> Ptr x)"
    "tq_back m' = (tq_back m)((case xs of [] \<Rightarrow> Last h | z # _ \<Rightarrow> Prev z) \<mapsto> Next x, Prev x \<mapsto> First h)"
    using x c by (cases xs) (auto simp: TAILQ_INSERT_HEAD_def tq_macros tq_cells)
  show ?thesis
  proof (rule tailq_step1 [OF assms m'(1) _ Q])
    show "tailq_holds (tq_link m') (tq_back m') h (x # xs)"
      using x c by (cases xs) (auto simp: m' tailq_unfold)
  qed (use Q in \<open>auto simp: m' tailq_unfold split: list.splits\<close>)
qed

lemma tailq_insert_tail:
  assumes "tailq_rep H U m Q" and "legal H U Q (Insert_Tail h x)"
  shows "\<exists>m'. tailq_exec (Insert_Tail h x) m = Some m' \<and> tailq_rep H U m' (apply_op (Insert_Tail h x) Q)"
proof -
  obtain xs where Q: "Q h = Some xs" using assms(2) by auto
  note c = tailq_list [OF assms(1) Q]
  have x: "x \<notin> set xs" "\<exists>p. tq_link m (Next x) = Some p" "\<exists>l. tq_back m (Prev x) = Some l"
    using tailq_unused [OF assms(1) _ _ Q, of x] assms(2) by auto
  obtain m' where m': "tailq_exec (Insert_Tail h x) m = Some m'"
    "tq_link m' = (tq_link m)(Next x \<mapsto> NULL, end_loc (First h) xs \<mapsto> Ptr x)"
    "tq_back m' = (tq_back m)(Prev x \<mapsto> end_loc (First h) xs, Last h \<mapsto> Next x)"
    using x c by (auto simp: TAILQ_INSERT_TAIL_def tq_macros tq_cells)
  show ?thesis
  proof (rule tailq_step1 [OF assms m'(1) _ Q])
    show "tailq_holds (tq_link m') (tq_back m') h (xs @ [x])"
      using x c by (auto simp: m' tailq_unfold)
  qed (use Q in \<open>auto simp: m' tailq_unfold\<close>)
qed

lemma tailq_insert_after:
  assumes "tailq_rep H U m Q" and "legal H U Q (Insert_After h y x)"
  shows "\<exists>m'. tailq_exec (Insert_After h y x) m = Some m' \<and> tailq_rep H U m' (apply_op (Insert_After h y x) Q)"
proof -
  obtain us vs where Q: "Q h = Some (us @ y # vs)" and y: "y \<notin> set us"
    using assms(2) lookup_queue_member by (metis legal.simps(4) split_list_first)
  note c = tailq_list [OF assms(1) Q]
  have x: "x \<notin> set (us @ y # vs)" "\<exists>p. tq_link m (Next x) = Some p" "\<exists>l. tq_back m (Prev x) = Some l"
    using tailq_unused [OF assms(1) _ _ Q, of x] assms(2) by auto
  obtain m' where m': "tailq_exec (Insert_After h y x) m = Some m'"
    "tq_link m' = (tq_link m)(Next x \<mapsto> first_of vs, Next y \<mapsto> Ptr x)"
    "tq_back m' = (tq_back m)((case vs of [] \<Rightarrow> Last h | z # _ \<Rightarrow> Prev z) \<mapsto> Next x, Prev x \<mapsto> Next y)"
    using x c by (cases vs) (auto simp: TAILQ_INSERT_AFTER_def tq_macros tq_cells)
  show ?thesis
  proof (rule tailq_step1 [OF assms m'(1) _ Q])
    show "tailq_holds (tq_link m') (tq_back m') h (us @ y # x # vs)"
      using x c by (cases vs) (auto simp: m' tailq_unfold)
  qed (use Q y in \<open>auto simp: m' tailq_unfold insert_after_split split: list.splits\<close>)
qed

lemma tailq_insert_before:
  assumes "tailq_rep H U m Q" and "legal H U Q (Insert_Before h y x)"
  shows "\<exists>m'. tailq_exec (Insert_Before h y x) m = Some m' \<and> tailq_rep H U m' (apply_op (Insert_Before h y x) Q)"
proof -
  obtain us vs where Q: "Q h = Some (us @ y # vs)" and y: "y \<notin> set us"
    using assms(2) lookup_queue_member by (metis legal.simps(5) split_list_first)
  note c = tailq_list [OF assms(1) Q]
  have x: "x \<notin> set (us @ y # vs)" "\<exists>p. tq_link m (Next x) = Some p" "\<exists>l. tq_back m (Prev x) = Some l"
    using tailq_unused [OF assms(1) _ _ Q, of x] assms(2) by auto
  obtain m' where m': "tailq_exec (Insert_Before h y x) m = Some m'"
    "tq_link m' = (tq_link m)(Next x \<mapsto> Ptr y, end_loc (First h) us \<mapsto> Ptr x)"
    "tq_back m' = (tq_back m)(Prev x \<mapsto> end_loc (First h) us, Prev y \<mapsto> Next x)"
    using x c by (auto simp: TAILQ_INSERT_BEFORE_def tq_macros tq_cells)
  show ?thesis
  proof (rule tailq_step1 [OF assms m'(1) _ Q])
    show "tailq_holds (tq_link m') (tq_back m') h (us @ x # y # vs)"
      using x c by (auto simp: m' tailq_unfold)
  qed (use Q y in \<open>auto simp: m' tailq_unfold insert_before_split\<close>)
qed

lemma tailq_remove:
  assumes "tailq_rep H U m Q" and "legal H U Q (Remove h x)"
  shows "\<exists>m'. tailq_exec (Remove h x) m = Some m' \<and> tailq_rep H U m' (apply_op (Remove h x) Q)"
proof -
  obtain us vs where Q: "Q h = Some (us @ x # vs)" and x: "x \<notin> set us"
    using assms(2) lookup_queue_member by (metis legal.simps(6) split_list_first)
  note c = tailq_list [OF assms(1) Q]
  obtain m' where m': "tailq_exec (Remove h x) m = Some m'"
    "tq_link m' = (tq_link m)(end_loc (First h) us \<mapsto> first_of vs)"
    "tq_back m' = (tq_back m)((case vs of [] \<Rightarrow> Last h | z # _ \<Rightarrow> Prev z) \<mapsto> end_loc (First h) us)"
    using c by (cases vs) (auto simp: TAILQ_REMOVE_def tq_macros tq_cells)
  show ?thesis
  proof (rule tailq_step1 [OF assms m'(1) _ Q])
    show "tailq_holds (tq_link m') (tq_back m') h (us @ vs)"
      using c by (cases vs) (auto simp: m' tailq_unfold)
  qed (use Q x in \<open>auto simp: m' tailq_unfold remove1_split split: list.splits\<close>)
qed

lemma tailq_concat:
  assumes "tailq_rep H U m Q" and "legal H U Q (Concat h1 h2)"
  shows "\<exists>m'. tailq_exec (Concat h1 h2) m = Some m' \<and> tailq_rep H U m' (apply_op (Concat h1 h2) Q)"
proof -
  obtain xs ys where q: "Q h1 = Some xs" "Q h2 = Some ys" "h1 \<noteq> h2" using assms(2) by auto
  note c = tailq_list [OF assms(1) q(1)] tailq_list [OF assms(1) q(2)]
    and d = tq.two_lists [OF assms(1) [unfolded tailq_rep_def] q]
  show ?thesis
  proof (cases ys)
    case Nil
    then have "tailq_exec (Concat h1 h2) m = Some m" "apply_op (Concat h1 h2) Q = Q"
      using c q by (auto simp: TAILQ_CONCAT_def tq_macros)
    with assms(1) show ?thesis by simp
  next
    case (Cons y zs)
    obtain m' where m': "tailq_exec (Concat h1 h2) m = Some m'"
      "tq_link m' = (tq_link m)(end_loc (First h1) xs \<mapsto> Ptr y, First h2 \<mapsto> NULL)"
      "tq_back m' = (tq_back m)(Prev y \<mapsto> end_loc (First h1) xs, Last h1 \<mapsto> end_loc (First h2) ys, Last h2 \<mapsto> First h2)"
      using c q(3) Cons by (auto simp: TAILQ_CONCAT_def TAILQ_INIT_def tq_macros tq_cells)
    show ?thesis
    proof (rule tailq_step2 [OF assms m'(1) _ q(1,2)])
      show "tailq_holds (tq_link m') (tq_back m') h1 (xs @ ys)"
        using c d q(3) Cons by (auto simp: m' tailq_unfold)
    qed (use q Cons in \<open>auto simp: m' tailq_unfold\<close>)
  qed
qed

lemma tailq_swap:
  assumes "tailq_rep H U m Q" and "legal H U Q (Swap h1 h2)"
  shows "\<exists>m'. tailq_exec (Swap h1 h2) m = Some m' \<and> tailq_rep H U m' (apply_op (Swap h1 h2) Q)"
proof -
  obtain xs ys where q: "Q h1 = Some xs" "Q h2 = Some ys" "h1 \<noteq> h2" using assms(2) by auto
  note c = tailq_list [OF assms(1) q(1)] tailq_list [OF assms(1) q(2)]
    and d = tq.two_lists [OF assms(1) [unfolded tailq_rep_def] q]
  have f: "tq_link m (First h1) = Some (first_of xs)" "tq_link m (First h2) = Some (first_of ys)"
    using c by (cases xs; cases ys; simp)+
  define b1 where "b1 = (case ys of [] \<Rightarrow> tq_back m | y # _ \<Rightarrow> (tq_back m)(Prev y \<mapsto> First h1))"
  define b2 where "b2 = (case xs of [] \<Rightarrow> b1 | x # _ \<Rightarrow> b1(Prev x \<mapsto> First h2))"
  obtain m' where m': "tailq_exec (Swap h1 h2) m = Some m'"
    "tq_link m' = (tq_link m)(First h1 \<mapsto> first_of ys, First h2 \<mapsto> first_of xs)"
    "tq_back m' = b2(Last h1 \<mapsto> end_loc (First h1) ys, Last h2 \<mapsto> end_loc (First h2) xs)"
    using c d f q(3) by (cases xs; cases ys) (auto simp: TAILQ_SWAP_def tq_macros tq_cells b1_def b2_def fun_upd_twist)
  show ?thesis
  proof (rule tailq_step2 [OF assms m'(1) _ q(1,2)])
    show "tailq_holds (tq_link m') (tq_back m') h1 ys" "tailq_holds (tq_link m') (tq_back m') h2 xs"
      using c d q(3) by (cases xs; cases ys; auto simp: m' tailq_unfold b1_def b2_def)+
  qed (use q in \<open>auto simp: m' b1_def b2_def split: list.splits\<close>)
qed

subsection \<open>The macros meet the contract\<close>

lemma tailq_exec_legal:
  assumes "tailq_rep H U m Q" and "tailq_offers c" and "legal H U Q c"
  shows "\<exists>m'. tailq_exec c m = Some m' \<and> tailq_rep H U m' (apply_op c Q)"
proof (cases c)
qed (use assms tailq_init tailq_insert_head tailq_insert_tail tailq_insert_after tailq_insert_before tailq_remove
      tailq_concat tailq_swap in \<open>fastforce simp del: apply_op.simps legal.simps tailq_exec.simps\<close>)+

lemma tailq_first:
  "tailq_rep H U m Q \<Longrightarrow> Q h = Some xs \<Longrightarrow> TAILQ_FIRST m h = Some (first_of xs)"
  using tailq_list [of H U m Q h xs] by (cases xs) (auto simp: TAILQ_FIRST_def)

lemma tailq_follow:
  "tailq_rep H U m Q \<Longrightarrow> Q h = Some (us @ x # vs) \<Longrightarrow> TAILQ_NEXT m (Ptr x) = Some (first_of vs)"
  using tailq_list [of H U m Q h "us @ x # vs"] by (cases vs) (auto simp: TAILQ_NEXT_def)

lemma tailq_rep_disjoint: "tailq_rep H U m Q \<Longrightarrow> disjoint_queues (set H) U Q"
  unfolding tailq_rep_def by (rule tq.queues_disjoint)

interpretation tailq: queue_macros tailq_rep TAILQ_FIRST TAILQ_NEXT tailq_offers tailq_exec
  by unfold_locales (simp_all add: tailq_exec_legal tailq_first tailq_follow tailq_rep_disjoint)

lemma TAILQ_EMPTY_spec:
  assumes "tailq_rep H U m Q" and "Q h = Some xs"
  shows "TAILQ_EMPTY m h = Some (xs = [])"
  using tailq_first [OF assms] by (cases xs) (auto simp: TAILQ_EMPTY_def)

subsection \<open>Backwards\<close>

text \<open>One step back from the link that leads to an element.\<close>

lemma tq_step_back_spec:
  assumes "tailq_rep H U m Q" and "Q h = Some (us @ vs)"
  shows "tq_step_back m (end_loc (First h) us) = Some (last_of us)"
  using tailq_list [OF assms] by (cases us rule: rev_cases) (auto simp: tq_step_back_def last_of_def)

lemma TAILQ_LAST_spec:
  assumes "tailq_rep H U m Q" and "Q h = Some xs"
  shows "TAILQ_LAST m h = Some (last_of xs)"
  using tq_step_back_spec [of H U m Q h xs "[]"] tailq_list [OF assms] assms by (simp add: TAILQ_LAST_def)

lemma TAILQ_PREV_spec:
  assumes "tailq_rep H U m Q" and "Q h = Some (us @ x # vs)"
  shows "TAILQ_PREV m (Ptr x) = Some (last_of us)"
  using tq_step_back_spec [OF assms] tailq_list [OF assms] by (simp add: TAILQ_PREV_def)

text \<open>The reversed lists are walked by \<open>TAILQ_LAST\<close> and \<open>TAILQ_PREV\<close>.\<close>

definition tailq_rep_rev :: "nat list \<Rightarrow> nat set \<Rightarrow> tailq_mem \<Rightarrow> queues \<Rightarrow> bool" where
  "tailq_rep_rev H U m Q \<longleftrightarrow> tailq_rep H U m (map_option rev \<circ> Q)"

lemma last_of_rev: "last_of (rev xs) = first_of xs"
  by (cases xs) (auto simp: last_of_def)

lemma tailq_rev_first: "tailq_rep_rev H U m Q \<Longrightarrow> Q h = Some xs \<Longrightarrow> TAILQ_LAST m h = Some (first_of xs)"
  using TAILQ_LAST_spec [of H U m "map_option rev \<circ> Q" h "rev xs"] by (simp add: tailq_rep_rev_def last_of_rev)

lemma tailq_rev_follow:
  "tailq_rep_rev H U m Q \<Longrightarrow> Q h = Some (us @ x # vs) \<Longrightarrow> TAILQ_PREV m (Ptr x) = Some (first_of vs)"
  using TAILQ_PREV_spec [of H U m "map_option rev \<circ> Q" h "rev vs" x "rev us"] by (simp add: tailq_rep_rev_def last_of_rev)

lemma tailq_unlink: "(\<lambda>h x. tailq_exec (Remove h x)) = (\<lambda>h x. TAILQ_REMOVE h (Ptr x))"
  by (intro ext) simp

lemma tailq_rev_unlink:
  assumes "tailq_rep_rev H U m Q" and "Q h = Some (us @ x # vs)"
  shows "\<exists>m'. TAILQ_REMOVE h (Ptr x) m = Some m' \<and> tailq_rep_rev H U m' (Q(h \<mapsto> us @ vs))"
proof -
  have "(map_option rev \<circ> Q) h = Some (rev vs @ x # rev us)" using assms(2) by simp
  moreover have "map_option rev \<circ> Q(h \<mapsto> us @ vs) = (map_option rev \<circ> Q)(h \<mapsto> rev vs @ rev us)" by auto
  ultimately show ?thesis
    using tailq.unlink_rep [OF assms(1) [unfolded tailq_rep_rev_def], of h "rev vs" x "rev us"]
    by (simp add: tailq_rep_rev_def)
qed

interpretation tailq_back: queue_unlink tailq_rep_rev TAILQ_LAST TAILQ_PREV "\<lambda>h x. TAILQ_REMOVE h (Ptr x)"
  by unfold_locales (simp_all add: tailq_rev_first tailq_rev_follow tailq_rev_unlink)

lemma tailq_rep_rev_rev: "tailq_rep_rev H U m (map_option rev \<circ> Q) \<longleftrightarrow> tailq_rep H U m Q"
proof -
  have "map_option rev \<circ> (map_option rev \<circ> Q) = Q" by (simp add: comp_def option.map_comp option.map_ident)
  then show ?thesis by (simp add: tailq_rep_rev_def)
qed

lemma tailq_rep_rev_filter:
  "tailq_rep_rev H U m ((map_option rev \<circ> Q)(h \<mapsto> filter P (rev xs))) \<longleftrightarrow> tailq_rep H U m (Q(h \<mapsto> filter P xs))"
proof -
  have "(map_option rev \<circ> Q)(h \<mapsto> filter P (rev xs)) = map_option rev \<circ> Q(h \<mapsto> filter P xs)"
    by (rule ext) (simp add: rev_filter)
  then show ?thesis by (simp only: tailq_rep_rev_rev)
qed

subsection \<open>The loops\<close>

lemma TAILQ_FOREACH_each:
  assumes "keeps mem body" and "tailq_rep H U (mem s) Q" and "Q h = Some xs"
  shows "TAILQ_FOREACH mem body h s = each body xs s"
  unfolding TAILQ_FOREACH_def by (rule tailq.foreach_visits [OF assms])

lemma TAILQ_FOREACH_FROM_each:
  assumes "keeps mem body" and "tailq_rep H U (mem s) Q" and "Q h = Some (us @ x # vs)"
  shows "TAILQ_FOREACH_FROM mem body (Ptr x) h s = each body (x # vs) s"
  using tailq.loop_visits [OF assms] by (simp add: TAILQ_FOREACH_FROM_def)

lemma TAILQ_FOREACH_REVERSE_FROM_each:
  assumes "keeps mem body" and "tailq_rep H U (mem s) Q" and "Q h = Some (us @ x # vs)"
  shows "TAILQ_FOREACH_REVERSE_FROM mem body (Ptr x) h s = each body (rev (us @ [x])) s"
  using tailq_back.loop_visits [OF assms(1), of H U s "map_option rev \<circ> Q" h "rev vs" "x # rev us"] assms(2,3)
  by (simp add: TAILQ_FOREACH_REVERSE_FROM_def tailq_rep_rev_rev)

text \<open>\<open>TAILQ_FOREACH_REVERSE\<close>, for every body that leaves the links alone, is the body run on the
  elements from the last to the first: the layout trick of \<open>TAILQ_LAST\<close> and \<open>TAILQ_PREV\<close> is sound.
\<close>

lemma tailq_reverse_equals_rev:
  assumes "keeps mem body" and "tailq_rep H U (mem s) Q" and "Q h = Some xs"
  shows "TAILQ_FOREACH mem body h s = each body xs s \<and> TAILQ_FOREACH_REVERSE mem body h s = each body (rev xs) s"
proof
  show "TAILQ_FOREACH mem body h s = each body xs s" by (rule TAILQ_FOREACH_each [OF assms])
  show "TAILQ_FOREACH_REVERSE mem body h s = each body (rev xs) s"
    using tailq_back.foreach_visits [OF assms(1), of H U s "map_option rev \<circ> Q" h "rev xs"] assms(2,3)
    by (simp add: TAILQ_FOREACH_REVERSE_def tailq_rep_rev_rev)
qed

text \<open>
  The safe loops, in both directions, may unlink the element they are at: a loop that removes the
  elements that satisfy \<open>P\<close> leaves the others, in order.
\<close>

lemma tailq_safe_loops_filter:
  assumes "tailq_rep H U m Q" and "Q h = Some xs"
  shows "(\<exists>m'. TAILQ_FOREACH_SAFE id (drop_if (\<lambda>h x. TAILQ_REMOVE h (Ptr x)) P h) h m = Some m' \<and>
      tailq_rep H U m' (Q(h \<mapsto> filter (\<lambda>x. \<not> P x) xs))) \<and>
    (\<exists>m'. TAILQ_FOREACH_REVERSE_SAFE id (drop_if (\<lambda>h x. TAILQ_REMOVE h (Ptr x)) P h) h m = Some m' \<and>
      tailq_rep H U m' (Q(h \<mapsto> filter (\<lambda>x. \<not> P x) xs)))"
proof
  show "\<exists>m'. TAILQ_FOREACH_SAFE id (drop_if (\<lambda>h x. TAILQ_REMOVE h (Ptr x)) P h) h m = Some m' \<and>
      tailq_rep H U m' (Q(h \<mapsto> filter (\<lambda>x. \<not> P x) xs))"
    using tailq.foreach_filters [OF assms, of P] by (simp add: TAILQ_FOREACH_SAFE_def tailq_unlink)
  show "\<exists>m'. TAILQ_FOREACH_REVERSE_SAFE id (drop_if (\<lambda>h x. TAILQ_REMOVE h (Ptr x)) P h) h m = Some m' \<and>
      tailq_rep H U m' (Q(h \<mapsto> filter (\<lambda>x. \<not> P x) xs))"
    using tailq_back.foreach_filters [of H U m "map_option rev \<circ> Q" h "rev xs" P] assms
    by (simp add: TAILQ_FOREACH_REVERSE_SAFE_def tailq_rep_rev_rev tailq_rep_rev_filter)
qed

subsection \<open>Runs of calls\<close>

text \<open>Memory in which the heads \<open>H\<close> and the elements \<open>U\<close> exist, not yet initialised.\<close>

definition tailq_fresh :: "nat list \<Rightarrow> nat set \<Rightarrow> tailq_mem \<Rightarrow> bool" where
  "tailq_fresh H U m \<longleftrightarrow> dom (tq_heads m) = set H \<and> dom (tq_elems m) = U"

lemma tailq_fresh_rep:
  assumes "tailq_fresh H U m"
  shows "tailq_rep H U m Map.empty"
proof -
  have "tq_link m c \<noteq> None \<longleftrightarrow> c \<in> First ` set H \<union> Next ` U" for c
    using assms by (cases c) (auto simp: tailq_fresh_def tq_link.simps domIff [symmetric] image_iff)
  moreover have "tq_back m c \<noteq> None \<longleftrightarrow> c \<in> Last ` set H \<union> Prev ` U" for c
    using assms by (cases c) (auto simp: tailq_fresh_def tq_back.simps domIff [symmetric] image_iff)
  ultimately have "dom (tq_link m) = First ` set H \<union> Next ` U" "dom (tq_back m) = Last ` set H \<union> Prev ` U"
    by (auto simp: domIff set_eq_iff)
  then show ?thesis by (simp add: tailq_rep_def queue_rep_def represents_def disjoint_queues_def)
qed

text \<open>C35: Any sequence of \<open>TAILQ_*\<close> calls on any number of queues does to them what the list operations do
  to lists: every call has a defined outcome, and afterwards \<open>TAILQ_FOREACH\<close> walks each queue in the
  order of its list and \<open>TAILQ_FOREACH_REVERSE\<close> in the opposite order.
\<close>

theorem tailq_run_refines:
  assumes "tailq_fresh H U m" and "legal_run tailq_offers H U cs Map.empty"
  shows "\<exists>m'. run_ops tailq_exec cs m = Some m' \<and>
    (\<forall>h xs. apply_ops cs Map.empty h = Some xs \<longrightarrow>
       TAILQ_FOREACH fst note_elem h (m', []) = Some (m', xs) \<and>
       TAILQ_FOREACH_REVERSE fst note_elem h (m', []) = Some (m', rev xs) \<and> TAILQ_EMPTY m' h = Some (xs = []))"
proof -
  obtain m' where m': "run_ops tailq_exec cs m = Some m'" "tailq_rep H U m' (apply_ops cs Map.empty)"
    using tailq.run_legal [OF tailq_fresh_rep [OF assms(1)] assms(2)] by blast
  have "TAILQ_FOREACH_REVERSE fst note_elem h (m', []) = Some (m', rev xs)" if "apply_ops cs Map.empty h = Some xs" for h xs
    using tailq_back.foreach_visits [of fst note_elem H U "(m', [])" "map_option rev \<circ> apply_ops cs Map.empty" h "rev xs"] m'(2) that
    by (simp add: TAILQ_FOREACH_REVERSE_def tailq_rep_rev_rev each_note_elem)
  then show ?thesis
    using m'(1) TAILQ_FOREACH_each [of fst note_elem H U "(m', [])" "apply_ops cs Map.empty"] TAILQ_EMPTY_spec [OF m'(2)] m'(2)
    by (intro exI [of _ m']) (simp add: each_note_elem)
qed

definition tailq_sample :: tailq_mem where
  "tailq_sample = \<lparr>tq_heads = [0 \<mapsto> \<lparr>tqh_first = NULL, tqh_last = First 7\<rparr>, 1 \<mapsto> \<lparr>tqh_first = Ptr 5, tqh_last = Next 5\<rparr>],
     tq_elems = [5 \<mapsto> \<lparr>tqe_next = NULL, tqe_prev = First 7\<rparr>, 6 \<mapsto> \<lparr>tqe_next = NULL, tqe_prev = Next 5\<rparr>,
       7 \<mapsto> \<lparr>tqe_next = Ptr 5, tqe_prev = First 0\<rparr>]\<rparr>"

lemma tailq_sample_fresh: "tailq_fresh [0, 1] {5, 6, 7} tailq_sample"
  by (auto simp: tailq_fresh_def tailq_sample_def)

theorem tailq_run_refines_witness:
  "\<exists>m'. run_ops tailq_exec [Init 0, Init 1, Insert_Tail 0 5, Insert_Before 0 5 7, Insert_Tail 1 6, Concat 0 1, Swap 0 1] tailq_sample = Some m' \<and>
     TAILQ_FOREACH fst note_elem 1 (m', []) = Some (m', [7, 5, 6]) \<and>
     TAILQ_FOREACH_REVERSE fst note_elem 1 (m', []) = Some (m', [6, 5, 7])"
proof -
  let ?cs = "[Init 0, Init 1, Insert_Tail 0 5, Insert_Before 0 5 7, Insert_Tail 1 6, Concat 0 1, Swap 0 1]"
  have legal: "legal_run tailq_offers [0, 1] {5, 6, 7} ?cs Map.empty"
    by (simp add: at_head_def)
  have abs: "apply_ops ?cs Map.empty 1 = Some [7, 5, 6]"
    by (simp add: at_head_def)
  show ?thesis
    using tailq_run_refines [OF tailq_sample_fresh legal] abs
    by (elim exE conjE) (erule allE [of _ 1], erule allE [of _ "[7, 5, 6]"], auto)
qed

text \<open>A queue with two elements, as a program sees it after its calls.\<close>

definition tailq_pair :: tailq_mem where
  "tailq_pair = \<lparr>tq_heads = [0 \<mapsto> \<lparr>tqh_first = Ptr 5, tqh_last = Next 6\<rparr>],
     tq_elems = [5 \<mapsto> \<lparr>tqe_next = Ptr 6, tqe_prev = First 0\<rparr>, 6 \<mapsto> \<lparr>tqe_next = NULL, tqe_prev = Next 5\<rparr>]\<rparr>"

lemma tailq_pair_rep: "tailq_rep [0] {5, 6} tailq_pair [0 \<mapsto> [5, 6]]"
proof -
  have "tq_link tailq_pair c \<noteq> None \<longleftrightarrow> c \<in> {First 0, Next 5, Next 6}" for c
    by (cases c) (auto simp: tailq_pair_def tq_link.simps)
  moreover have "tq_back tailq_pair c \<noteq> None \<longleftrightarrow> c \<in> {Last 0, Prev 5, Prev 6}" for c
    by (cases c) (auto simp: tailq_pair_def tq_back.simps)
  ultimately have "dom (tq_link tailq_pair) = {First 0, Next 5, Next 6}" "dom (tq_back tailq_pair) = {Last 0, Prev 5, Prev 6}"
    by (auto simp: domIff set_eq_iff)
  then show ?thesis
    by (auto simp: tailq_rep_def queue_rep_def represents_def disjoint_queues_def tailq_holds_def chain_at_def
      tailq_pair_def tq_link.simps tq_back.simps split: if_splits)
qed

lemma tailq_reverse_equals_rev_witness:
  "TAILQ_FOREACH fst note_elem 0 (tailq_pair, []) = Some (tailq_pair, [5, 6]) \<and>
   TAILQ_FOREACH_REVERSE fst note_elem 0 (tailq_pair, []) = Some (tailq_pair, [6, 5])"
  using tailq_reverse_equals_rev [of fst note_elem "[0]" "{5, 6}" "(tailq_pair, [])" "[0 \<mapsto> [5, 6]]" 0 "[5, 6]"] tailq_pair_rep
  by (simp add: each_note_elem)

lemma tailq_safe_loops_filter_witness:
  "\<exists>m'. TAILQ_FOREACH_SAFE id (drop_if (\<lambda>h x. TAILQ_REMOVE h (Ptr x)) (\<lambda>x. x = 5) 0) 0 tailq_pair = Some m' \<and>
     tailq_rep [0] {5, 6} m' [0 \<mapsto> [6]]"
  using tailq_safe_loops_filter [OF tailq_pair_rep, of 0 "[5, 6]" "\<lambda>x. x = 5"] by simp

end
