(* ===== verification/Queue_Checks.thy ===== *)
theory Queue_Checks
  imports List_Queue Tailq
begin

text \<open>
  The consistency checks of \<^verbatim>\<open>server/src/queue.h\<close> (the \<open>QMD_LIST_CHECK_*\<close> and \<open>QMD_TAILQ_CHECK_*\<close> macros),
  which the \<open>LIST\<close> and \<open>TAILQ\<close> macros contain when they are built for a kernel with \<open>INVARIANTS\<close>. A
  check reads links and panics on a bad one; \<open>list_checks\<close> and \<open>tailq_checks\<close> name the checks of each
  macro, all of which run before the macro writes. The locale \<open>checked_macros\<close> is the contract that legal
  calls pass their checks; in it the checked build does what the plain one does.
\<close>

subsection \<open>Checks\<close>

datatype panic = Bad_Head nat | Bad_Tail nat | Bad_Next ptr | Bad_Prev ptr

text \<open>A check has no defined outcome (\<open>None\<close>), passes (\<open>Some None\<close>) or panics.\<close>

type_synonym check = "panic option option"

definition panic_if :: "bool \<Rightarrow> panic \<Rightarrow> check" where
  "panic_if bad e = Some (if bad then Some e else None)"

definition QMD_LIST_CHECK_HEAD :: "nat \<Rightarrow> list_mem \<Rightarrow> check" where
  "QMD_LIST_CHECK_HEAD head m = do {
     p \<leftarrow> LIST_FIRST m head;
     if p \<noteq> NULL then do { l \<leftarrow> ls_prev m p; panic_if (l \<noteq> First head) (Bad_Head head) } else Some None
   }"

definition QMD_LIST_CHECK_NEXT :: "ptr \<Rightarrow> list_mem \<Rightarrow> check" where
  "QMD_LIST_CHECK_NEXT elm m = do {
     p \<leftarrow> LIST_NEXT m elm;
     if p \<noteq> NULL then do { l \<leftarrow> ls_prev m p; k \<leftarrow> next_at elm; panic_if (l \<noteq> k) (Bad_Next elm) } else Some None
   }"

definition QMD_LIST_CHECK_PREV :: "ptr \<Rightarrow> list_mem \<Rightarrow> check" where
  "QMD_LIST_CHECK_PREV elm m = do {
     l \<leftarrow> ls_prev m elm;
     p \<leftarrow> ls_link m l;
     panic_if (p \<noteq> elm) (Bad_Prev elm)
   }"

definition QMD_TAILQ_CHECK_HEAD :: "nat \<Rightarrow> tailq_mem \<Rightarrow> check" where
  "QMD_TAILQ_CHECK_HEAD head m = do {
     empty \<leftarrow> TAILQ_EMPTY m head;
     if \<not> empty then do {
       p \<leftarrow> TAILQ_FIRST m head;
       l \<leftarrow> tq_prev m p;
       panic_if (l \<noteq> First head) (Bad_Head head)
     } else Some None
   }"

definition QMD_TAILQ_CHECK_TAIL :: "nat \<Rightarrow> tailq_mem \<Rightarrow> check" where
  "QMD_TAILQ_CHECK_TAIL head m = do {
     l \<leftarrow> tq_back m (Last head);
     p \<leftarrow> tq_link m l;
     panic_if (p \<noteq> NULL) (Bad_Tail head)
   }"

definition QMD_TAILQ_CHECK_NEXT :: "ptr \<Rightarrow> tailq_mem \<Rightarrow> check" where
  "QMD_TAILQ_CHECK_NEXT elm m = do {
     p \<leftarrow> TAILQ_NEXT m elm;
     if p \<noteq> NULL then do { l \<leftarrow> tq_prev m p; k \<leftarrow> next_at elm; panic_if (l \<noteq> k) (Bad_Next elm) } else Some None
   }"

definition QMD_TAILQ_CHECK_PREV :: "ptr \<Rightarrow> tailq_mem \<Rightarrow> check" where
  "QMD_TAILQ_CHECK_PREV elm m = do {
     l \<leftarrow> tq_prev m elm;
     p \<leftarrow> tq_link m l;
     panic_if (p \<noteq> elm) (Bad_Prev elm)
   }"

text \<open>One check after another; a panic does not return.\<close>

definition and_then :: "check \<Rightarrow> check \<Rightarrow> check" where
  "and_then c d = do { e \<leftarrow> c; case e of None \<Rightarrow> d | Some p \<Rightarrow> Some (Some p) }"

fun list_checks :: "queue_op \<Rightarrow> list_mem \<Rightarrow> check" where
  "list_checks (Insert_After h y x) m = QMD_LIST_CHECK_NEXT (Ptr y) m"
| "list_checks (Insert_Before h y x) m = QMD_LIST_CHECK_PREV (Ptr y) m"
| "list_checks (Insert_Head h x) m = QMD_LIST_CHECK_HEAD h m"
| "list_checks (Remove h x) m = and_then (QMD_LIST_CHECK_NEXT (Ptr x) m) (QMD_LIST_CHECK_PREV (Ptr x) m)"
| "list_checks _ m = Some None"

fun tailq_checks :: "queue_op \<Rightarrow> tailq_mem \<Rightarrow> check" where
  "tailq_checks (Insert_After h y x) m = QMD_TAILQ_CHECK_NEXT (Ptr y) m"
| "tailq_checks (Insert_Before h y x) m = QMD_TAILQ_CHECK_PREV (Ptr y) m"
| "tailq_checks (Insert_Head h x) m = QMD_TAILQ_CHECK_HEAD h m"
| "tailq_checks (Insert_Tail h x) m = QMD_TAILQ_CHECK_TAIL h m"
| "tailq_checks (Remove h x) m = and_then (QMD_TAILQ_CHECK_NEXT (Ptr x) m) (QMD_TAILQ_CHECK_PREV (Ptr x) m)"
| "tailq_checks _ m = Some None"

text \<open>A run of calls in the checked build ends with a panic or a heap.\<close>

primrec run_checked ::
  "(queue_op \<Rightarrow> 'm \<Rightarrow> check) \<Rightarrow> (queue_op \<Rightarrow> 'm \<Rightarrow> 'm option) \<Rightarrow> queue_op list \<Rightarrow> 'm \<Rightarrow> (panic + 'm) option" where
  "run_checked checks exec [] m = Some (Inr m)"
| "run_checked checks exec (c # cs) m = do {
     e \<leftarrow> checks c m;
     case e of Some p \<Rightarrow> Some (Inl p) | None \<Rightarrow> do { m \<leftarrow> exec c m; run_checked checks exec cs m }
   }"

lemma panic_if_pass [simp]: "panic_if bad e = Some None \<longleftrightarrow> \<not> bad"
  by (simp add: panic_if_def)

lemma and_then_pass [simp]: "and_then c d = Some None \<longleftrightarrow> c = Some None \<and> d = Some None"
  by (auto simp: and_then_def bind_eq_Some_conv split: option.splits)

subsection \<open>Legal calls pass their checks\<close>

locale checked_macros = queue_macros +
  fixes checks :: "queue_op \<Rightarrow> 'a \<Rightarrow> check"
  assumes legal_passes: "rep H U m Q \<Longrightarrow> offers c \<Longrightarrow> legal H U Q c \<Longrightarrow> checks c m = Some None"
begin

lemma run_checked_same:
  "rep H U m Q \<Longrightarrow> legal_run offers H U cs Q \<Longrightarrow> run_checked checks exec cs m = map_option Inr (run_ops exec cs m)"
proof (induction cs arbitrary: m Q)
  case (Cons c cs)
  then obtain m1 where "exec c m = Some m1" "rep H U m1 (apply_op c Q)"
    using exec_legal [of H U m Q c] by auto
  with Cons show ?case using legal_passes [of H U m Q c] by simp
qed simp

lemma run_checked_legal:
  assumes "rep H U m Q" and "legal_run offers H U cs Q"
  shows "\<exists>m'. run_checked checks exec cs m = Some (Inr m') \<and> run_ops exec cs m = Some m' \<and> rep H U m' (apply_ops cs Q)"
  using run_checked_same [OF assms] run_legal [OF assms] by auto

end

lemmas list_checks_defs = QMD_LIST_CHECK_HEAD_def QMD_LIST_CHECK_NEXT_def QMD_LIST_CHECK_PREV_def ls_macros ls_prev_back

lemmas tailq_checks_defs = QMD_TAILQ_CHECK_HEAD_def QMD_TAILQ_CHECK_TAIL_def QMD_TAILQ_CHECK_NEXT_def QMD_TAILQ_CHECK_PREV_def
  tq_macros

lemma list_head_passes:
  assumes "list_rep H U m Q" and "Q h = Some xs"
  shows "QMD_LIST_CHECK_HEAD h m = Some None"
  using list_list [OF assms] by (cases xs) (auto simp: list_checks_defs)

lemma list_elem_passes:
  assumes "list_rep H U m Q" and "Q h = Some xs" and "x \<in> set xs"
  shows "QMD_LIST_CHECK_NEXT (Ptr x) m = Some None" and "QMD_LIST_CHECK_PREV (Ptr x) m = Some None"
proof -
  obtain us vs where xs: "xs = us @ x # vs" using split_list [OF assms(3)] by blast
  note c = list_list [OF assms(1,2), unfolded xs]
  show "QMD_LIST_CHECK_NEXT (Ptr x) m = Some None" using c by (cases vs) (simp_all add: list_checks_defs)
  show "QMD_LIST_CHECK_PREV (Ptr x) m = Some None" using c by (simp add: list_checks_defs)
qed

lemma list_legal_passes:
  assumes "list_rep H U m Q" and "legal H U Q c"
  shows "list_checks c m = Some None"
  using assms list_head_passes [OF assms(1)] list_elem_passes [OF assms(1)]
  by (cases c) (auto simp del: lookup_queue.simps dest!: lookup_queue_member)

interpretation list_checked: checked_macros list_rep LIST_FIRST LIST_NEXT list_offers list_exec list_checks
  by unfold_locales (rule list_legal_passes)

lemma tailq_head_passes:
  assumes "tailq_rep H U m Q" and "Q h = Some xs"
  shows "QMD_TAILQ_CHECK_HEAD h m = Some None" and "QMD_TAILQ_CHECK_TAIL h m = Some None"
proof -
  note c = tailq_list [OF assms]
  show "QMD_TAILQ_CHECK_HEAD h m = Some None" using c by (cases xs) (simp_all add: tailq_checks_defs)
  show "QMD_TAILQ_CHECK_TAIL h m = Some None" using c by (simp add: tailq_checks_defs)
qed

lemma tailq_elem_passes:
  assumes "tailq_rep H U m Q" and "Q h = Some xs" and "x \<in> set xs"
  shows "QMD_TAILQ_CHECK_NEXT (Ptr x) m = Some None" and "QMD_TAILQ_CHECK_PREV (Ptr x) m = Some None"
proof -
  obtain us vs where xs: "xs = us @ x # vs" using split_list [OF assms(3)] by blast
  note c = tailq_list [OF assms(1,2), unfolded xs]
  show "QMD_TAILQ_CHECK_NEXT (Ptr x) m = Some None" using c by (cases vs) (simp_all add: tailq_checks_defs)
  show "QMD_TAILQ_CHECK_PREV (Ptr x) m = Some None" using c by (simp add: tailq_checks_defs)
qed

lemma tailq_legal_passes:
  assumes "tailq_rep H U m Q" and "legal H U Q c"
  shows "tailq_checks c m = Some None"
  using assms tailq_head_passes [OF assms(1)] tailq_elem_passes [OF assms(1)]
  by (cases c) (auto simp del: lookup_queue.simps dest!: lookup_queue_member)

interpretation tailq_checked: checked_macros tailq_rep TAILQ_FIRST TAILQ_NEXT tailq_offers tailq_exec tailq_checks
  by unfold_locales (rule tailq_legal_passes)

text \<open>C38: A program that uses the \<open>LIST\<close> and \<open>TAILQ\<close> macros legally never panics in the checked build: every run of
  calls, from uninitialised memory on, ends with exactly the heap that the build without checks ends
  with, and it does end.\<close>

theorem queue_checks_never_panic:
  assumes "list_fresh H U m" and "legal_run list_offers H U cs Map.empty"
    and "tailq_fresh H' U' n" and "legal_run tailq_offers H' U' ds Map.empty"
  shows "(\<exists>m'. run_checked list_checks list_exec cs m = Some (Inr m') \<and> run_ops list_exec cs m = Some m') \<and>
    (\<exists>n'. run_checked tailq_checks tailq_exec ds n = Some (Inr n') \<and> run_ops tailq_exec ds n = Some n')"
  using list_checked.run_checked_legal [OF list_fresh_rep [OF assms(1)] assms(2)]
    tailq_checked.run_checked_legal [OF tailq_fresh_rep [OF assms(3)] assms(4)] by blast

theorem queue_checks_never_panic_witness:
  "(\<exists>m'. run_checked list_checks list_exec [Init 0, Insert_Head 0 5, Insert_Before 0 5 7, Insert_After 0 5 6, Remove 0 5] list_sample = Some (Inr m')) \<and>
   (\<exists>n'. run_checked tailq_checks tailq_exec [Init 0, Insert_Tail 0 5, Insert_Head 0 7, Insert_Tail 0 6, Remove 0 6] tailq_sample = Some (Inr n'))"
proof -
  have fresh: "list_fresh [0, 1] {5, 6, 7} list_sample"
    by (auto simp: list_fresh_def list_sample_def)
  have list: "legal_run list_offers [0, 1] {5, 6, 7} [Init 0, Insert_Head 0 5, Insert_Before 0 5 7, Insert_After 0 5 6, Remove 0 5] Map.empty"
    by (simp add: at_head_def)
  have tailq: "legal_run tailq_offers [0, 1] {5, 6, 7} [Init 0, Insert_Tail 0 5, Insert_Head 0 7, Insert_Tail 0 6, Remove 0 6] Map.empty"
    by (simp add: at_head_def)
  show ?thesis
    using queue_checks_never_panic [OF fresh list tailq_sample_fresh tailq] by blast
qed

subsection \<open>What the checks find\<close>

text \<open>On a heap whose forward links are in order, the checks of the head and of all elements pass
  exactly if all back links are in order: no other damage to a list goes unnoticed, and
  \<open>QMD_LIST_CHECK_PREV\<close> finds nothing more.\<close>

lemma list_next_checks:
  assumes "chain_at (ls_link m) (Next y) xs"
  shows "backs (ls_back m) (Next y) xs \<longleftrightarrow> (\<forall>x \<in> set (y # xs). QMD_LIST_CHECK_NEXT (Ptr x) m = Some None)"
  using assms
proof (induction xs arbitrary: y)
  case (Cons x xs)
  have "QMD_LIST_CHECK_NEXT (Ptr y) m = Some None \<longleftrightarrow> ls_back m (Prev x) = Some (Next y)"
    using Cons.prems by (auto simp: chain_at_Cons list_checks_defs bind_eq_Some_conv)
  with Cons.IH [of x] Cons.prems show ?case by (simp add: chain_at_Cons)
qed (simp add: list_checks_defs)

lemma list_checks_complete:
  assumes "chain_at (ls_link m) (First h) xs"
  shows "backed_holds (ls_link m) (ls_back m) h xs \<longleftrightarrow>
    QMD_LIST_CHECK_HEAD h m = Some None \<and> (\<forall>x \<in> set xs. QMD_LIST_CHECK_NEXT (Ptr x) m = Some None)"
proof (cases xs)
  case (Cons x ys)
  have "QMD_LIST_CHECK_HEAD h m = Some None \<longleftrightarrow> ls_back m (Prev x) = Some (First h)"
    using assms Cons by (auto simp: chain_at_Cons list_checks_defs bind_eq_Some_conv)
  then show ?thesis
    using assms Cons list_next_checks [of m x ys] by (auto simp: backed_holds_def chain_at_Cons)
qed (use assms in \<open>simp add: backed_holds_def list_checks_defs\<close>)

lemma tailq_next_checks:
  assumes "chain_at (tq_link m) (Next y) xs"
  shows "backs (tq_back m) (Next y) xs \<longleftrightarrow> (\<forall>x \<in> set (y # xs). QMD_TAILQ_CHECK_NEXT (Ptr x) m = Some None)"
  using assms
proof (induction xs arbitrary: y)
  case (Cons x xs)
  have "QMD_TAILQ_CHECK_NEXT (Ptr y) m = Some None \<longleftrightarrow> tq_back m (Prev x) = Some (Next y)"
    using Cons.prems by (auto simp: chain_at_Cons tailq_checks_defs bind_eq_Some_conv)
  with Cons.IH [of x] Cons.prems show ?case by (simp add: chain_at_Cons)
qed (simp add: tailq_checks_defs)

text \<open>For tail queues the same holds of the back links of the elements. The tail pointer of the
  head is only known to lead to some \<open>NULL\<close> link.\<close>

lemma tailq_checks_complete:
  assumes "chain_at (tq_link m) (First h) xs"
  shows "backs (tq_back m) (First h) xs \<longleftrightarrow>
    QMD_TAILQ_CHECK_HEAD h m = Some None \<and> (\<forall>x \<in> set xs. QMD_TAILQ_CHECK_NEXT (Ptr x) m = Some None)"
proof (cases xs)
  case (Cons x ys)
  have "QMD_TAILQ_CHECK_HEAD h m = Some None \<longleftrightarrow> tq_back m (Prev x) = Some (First h)"
    using assms Cons by (auto simp: chain_at_Cons tailq_checks_defs bind_eq_Some_conv)
  then show ?thesis
    using assms Cons tailq_next_checks [of m x ys] by (auto simp: chain_at_Cons)
qed (use assms in \<open>simp add: tailq_checks_defs\<close>)

lemma tailq_tail_check:
  "QMD_TAILQ_CHECK_TAIL h m = Some None \<longleftrightarrow> (\<exists>l. tq_back m (Last h) = Some l \<and> tq_link m l = Some NULL)"
  by (auto simp: QMD_TAILQ_CHECK_TAIL_def bind_eq_Some_conv)

text \<open>An empty queue whose tail pointer leads to the link of an element that is in no queue passes all
  its checks, and a call at its tail loses the inserted element.\<close>

definition tailq_stray :: tailq_mem where
  "tailq_stray = \<lparr>tq_heads = [0 \<mapsto> \<lparr>tqh_first = NULL, tqh_last = Next 5\<rparr>],
     tq_elems = [5 \<mapsto> \<lparr>tqe_next = NULL, tqe_prev = First 0\<rparr>, 6 \<mapsto> \<lparr>tqe_next = NULL, tqe_prev = First 0\<rparr>]\<rparr>"

lemma tail_check_misses_stray:
  "\<exists>m'. run_checked tailq_checks tailq_exec [Insert_Tail 0 6] tailq_stray = Some (Inr m') \<and> TAILQ_FIRST m' 0 = Some NULL"
  by (simp add: tailq_stray_def QMD_TAILQ_CHECK_TAIL_def TAILQ_INSERT_TAIL_def panic_if_def tq_macros
    tq_link.simps tq_back.simps tq_set_link.simps tq_set_back.simps)

text \<open>An element that was removed and is removed again: the second call panics.\<close>

lemma double_remove_panics:
  "run_checked tailq_checks tailq_exec [Remove 0 5, Remove 0 5] tailq_pair = Some (Inl (Bad_Next (Ptr 5)))"
  by (simp add: tailq_pair_def QMD_TAILQ_CHECK_NEXT_def QMD_TAILQ_CHECK_PREV_def TAILQ_REMOVE_def and_then_def panic_if_def tq_macros
    tq_link.simps tq_back.simps tq_set_link.simps tq_set_back.simps)

end
