(* ===== verification/Autotest_Validate.thy ===== *)
theory Autotest_Validate
  imports Aesd_Prelude
begin

text \<open>
  The program that validates a test setup (\<^verbatim>\<open>examples/autotest-validate\<close>) and the unit test of its user name
  (\<^verbatim>\<open>student-test/assignment1/Test_validate_username.c\<close>). The contents of the configuration file and the
  assertion are parameters: the functions that read and compare are in a submodule.
\<close>

definition this_function_returns_true :: bool where
  "this_function_returns_true = True"

definition this_function_returns_false :: bool where
  "this_function_returns_false = False"

definition my_username :: string where
  "my_username = ''CiroDonnarumma89''"

text \<open>The global of the main program; nothing reads it.\<close>

definition git_username :: string where
  "git_username = ''akshita-bhasin''"

definition bool_text :: "bool \<Rightarrow> string" where
  "bool_text b = (if b then ''true'' else ''false'')"

text \<open>What \<open>main\<close> prints and, in the absence of a return statement, its exit code.\<close>

definition autotest_main :: "string \<times> int" where
  "autotest_main =
    (''this_function_returns_true returned '' @ bool_text this_function_returns_true @ [CHR 0x0A] @
     ''this_function_returns_false returned '' @ bool_text this_function_returns_false @ [CHR 0x0A], 0)"

definition test_validate_my_username :: "(string \<Rightarrow> string \<Rightarrow> bool) \<Rightarrow> string \<Rightarrow> bool" where
  "test_validate_my_username assert_equal_string username_from_config_file =
    assert_equal_string my_username username_from_config_file"

text \<open>The output is one line per function, each ending with the name of the returned value.\<close>

lemma autotest_main_lines:
  "fst autotest_main = concat (map (\<lambda>(f, b). f @ '' returned '' @ bool_text b @ [CHR 0x0A])
     [(''this_function_returns_true'', True), (''this_function_returns_false'', False)])"
  by (simp add: autotest_main_def this_function_returns_true_def this_function_returns_false_def)

text \<open>With an assertion that compares its arguments, the test passes for exactly one user name, which is not the
  one the main program declares.\<close>

lemma username_test_passes:
  assumes "\<And>a b. assert_equal_string a b \<longleftrightarrow> a = b"
  shows "test_validate_my_username assert_equal_string name \<longleftrightarrow> name = ''CiroDonnarumma89''"
    and "\<not> test_validate_my_username assert_equal_string git_username"
  using assms by (auto simp: test_validate_my_username_def my_username_def git_username_def)

end
