(* ===== verification/Spec2Isabelle.thy ===== *)
theory Spec2Isabelle
  imports Driver_Run Whole_Server Timer_Build Systemcalls Threading Stailq Queue_Checks Autotest_Validate
begin

text \<open>
  Verification of the AESD character driver, the socket server on top of it, and the example programs
  of the same repository.

  \<^bold>\<open>The program.\<close> The kernel module (\<^verbatim>\<open>aesd-char-driver\<close>) keeps the newest ten commands that were written to
  \<open>/dev/aesdchar\<close>, a command being everything up to a newline, in a ring buffer of heap blocks; files on
  the device read the concatenated commands and can be positioned by command and offset. The server
  (\<^verbatim>\<open>server/src\<close>) accepts TCP clients; each connection has a thread that stores every received line on the
  device and answers with the device's contents, under a mutex that all threads share. The remaining
  C programs stand alone: running other programs (\<^verbatim>\<open>examples/systemcalls\<close>), threads that take a mutex
  (\<^verbatim>\<open>examples/threading\<close>), a check of the test setup (\<^verbatim>\<open>examples/autotest-validate\<close>) and a program that writes a file (\<^verbatim>\<open>finder-app/writer.c\<close>).

  \<^bold>\<open>Theories, in the order of the imports.\<close>
  \<^item> \<open>Aesd_Prelude\<close>: the machine integers, error numbers, and facts on words and lists.
  \<^item> \<open>C_Memory\<close>: heaps of byte blocks; loads, stores, \<open>memcpy\<close>, \<open>free\<close>. An access outside a block, a double free
    and any other undefined behaviour is the result \<open>None\<close>, here and everywhere below.
  \<^item> \<open>Circular_Buffer\<close>: \<^verbatim>\<open>aesd-circular-buffer.c\<close> and its header, every function and macro. The invariant
    \<open>cb_inv\<close>, the refinement to a bounded queue (locale \<open>command_log\<close>, interpreted on the C structures),
    the search by position and its inverse.
  \<^item> \<open>Kernel_Api\<close>: the kernel services as a parameter (\<open>kernel_api\<close>) with their documented behaviour
    (\<open>kernel_ok\<close>), and an instance for the witnesses.
  \<^item> \<open>Char_Driver\<close>, \<open>Char_Driver_Ops\<close>: \<^verbatim>\<open>aesd-char-driver/main.c\<close>: \<open>aesd_open\<close>, \<open>aesd_release\<close>, \<open>aesd_read\<close>, \<open>aesd_write\<close>,
    \<open>aesd_llseek\<close>, \<open>aesd_ioctl\<close>, module loading and unloading over \<open>kstate\<close> (device, kernel heap, user memory). The
    invariant \<open>dev_inv\<close> says which heap block belongs to which entry; \<open>log_of\<close> is the abstract log and
    \<open>spec_write\<close>, \<open>spec_read\<close>, \<open>seek_target\<close> are its operations, which the driver's refine on every branch.
  \<^item> \<open>Slist\<close>: the SLIST macros of \<^verbatim>\<open>queue.h\<close> over linked elements; the locale \<open>worklist_loop\<close> is the argument for
    loops that consume a list, interpreted for the iteration macros and for the shutdown loop.
  \<^item> \<open>Libc\<close>: allocation, strings and sockets of the server, with the peer and the network as scripts.
  \<^item> \<open>Tcp_Connection\<close>: \<^verbatim>\<open>tcp_connection.c\<close>; receiving with a growing buffer, sending a file through the
    interface \<open>chunk_reader\<close>.
  \<^item> \<open>Seek_Command\<close>: \<open>decode_ioctl_command\<close> with the parts of \<open>strncmp\<close> and \<open>sscanf\<close> it uses.
  \<^item> \<open>File_Stream\<close>: system calls on a file as a parameter (\<open>sys_file\<close>), C streams on top, and the contract
    \<open>line_device\<close> that the server relies on; a \<open>sublocale\<close> makes a flushed stream a \<open>chunk_reader\<close>.
  \<^item> \<open>Connection_Manager\<close>: \<^verbatim>\<open>connection_manager.c\<close>: the list of connections, \<open>handle_message\<close>,
    \<open>thread_routine\<close>.
  \<^item> \<open>Session\<close>: the specification \<open>respond\<close>, \<open>session\<close> of what a client sees, proved for \<open>thread_routine\<close> inside
    \<open>line_device\<close>.
  \<^item> \<open>Device_File\<close>: the driver as such a file; the interpretation \<open>aesdchar\<close> of \<open>line_device\<close> connects the server's
    lemmas with the driver's.
  \<^item> \<open>Driver_Run\<close>: runs of the driver under system calls of any number of processes.
  \<^item> \<open>Server_Threads\<close>: all connection threads together as a step relation, one step per call of the loop.
  \<^item> \<open>Tcp_Server\<close>, \<open>Server_Main\<close>: \<^verbatim>\<open>tcp_server.c\<close> and \<^verbatim>\<open>main.c\<close>: sockets, accepting, daemon mode, the accept loop and
    the shutdown.
  \<^item> \<open>Server_System\<close>: the whole server as one step relation: \<open>main\<close> from \<open>start_up\<close> over the accept loop to its return, the
    signal, and every connection thread from \<open>pthread_create\<close> to the return of \<open>thread_routine\<close>; what a thread's step may
    change, and who owns which block, socket and context.
  \<^item> \<open>System_Invariant\<close>, \<open>System_Threads\<close>, \<open>System_Service\<close>: every step keeps the ownership (\<open>resources_ok\<close>), the
    threads, contexts and the manager (\<open>threads_ok\<close>, \<open>manager_ok\<close>), and the explanation of all answers by the history
    (\<open>served\<close>), also when addresses and descriptors are used again.
  \<^item> \<open>Whole_Server\<close>: the resulting properties from the start of the process on, and the shutdown.
  \<^item> \<open>Plain_File\<close>, \<open>Timer_Build\<close>: what the build without \<open>USE_AESD_CHAR_DEVICE\<close> does differently (time stamps, the
    regular file), \<open>save_packet\<close>, and \<^verbatim>\<open>writer.c\<close>.
  \<^item> \<open>Systemcalls\<close>, \<open>Threading\<close>: the two example programs.
  \<^item> \<open>Link_Memory\<close>, \<open>Queue_Contract\<close>: heaps in which the address of a link is a value, as in the STAILQ, LIST and TAILQ
    structures, and the contract of the queues as locales: every macro is a list operation, loops visit
    the elements in order, removal during a safe loop is allowed.
  \<^item> \<open>Stailq\<close>, \<open>List_Queue\<close>, \<open>Tailq\<close>: these three families of macros of \<^verbatim>\<open>queue.h\<close> and the interpretations of the contract
    on them, for \<open>Tailq\<close> also backwards.
  \<^item> \<open>Queue_Checks\<close>: the consistency checks that \<open>LIST\<close> and \<open>TAILQ\<close> contain in a kernel with \<open>INVARIANTS\<close> (locale \<open>checked_macros\<close>):
    legal calls pass them, and on forward chains they accept exactly the right back links.
  \<^item> \<open>Autotest_Validate\<close>: the program that validates the test setup, and the unit test of its user name.

  \<^bold>\<open>What is shown.\<close> For the ring buffer and the driver: every operation completes, keeps the invariant and refines
  the log, alone and in arbitrary runs of many processes; what was ever written is equivalent to cutting it
  into lines and keeping the last ten; the two defects (a write of nothing, the block leaked at unloading) are
  theorems. For the server: receiving and sending end and deliver exactly the specified bytes, with the
  exact limits (\<open>2 ^ 30\<close> bytes, partial sends); one client's session, and any interleaving of many
  clients, is equivalent to serving the lines serially; all threads finish. For the whole server, with clients
  that come and go while \<open>main\<close> accepts: the same equivalence, one owner for every block, socket, connection, context
  and thread in every reachable state, and a shutdown that ends within a stated number of steps and leaves nothing
  behind. The shutdown joins every thread
  once; registering, creating and destroying release what they own except for the leaks
  stated. For the queue macros: any legal sequence of operations refines the list operations, with the same result and without a panic
  when the consistency checks are built in. For the examples: which exit codes are reported, mutual exclusion, what
  success means, and the range of \<open>wait_ms\<close>.

  \<^bold>\<open>Bounds and loops.\<close> C loops are \<open>partial_function (option)\<close>; \<open>None\<close> covers a loop that does not end, so each
  theorem that states a result also states termination. There is no fuel. Integers have their C widths: 8-bit
  ring offsets, 32-bit \<open>int\<close> and ioctl fields, 64-bit sizes and positions. A kernel block is
  at most \<open>kmalloc_max\<close> bytes with ten of them below \<open>2 ^ 31\<close>, as in the kernel (4 MiB); the server's lines are
  below \<open>2 ^ 30\<close> bytes because of the overflow shown by \<open>receive_message_overflow\<close>. A
  run of the connection threads has at most eight steps per line plus eight per client; after the accept loop the
  whole server makes at most eight steps per line, thirteen per client and four more.

  \<^bold>\<open>Granularity of concurrency.\<close> A driver operation is one step because it runs under the device lock. A step of a
  connection thread is one call of its loop, a step of \<open>main\<close> one call of its body (registering a connection is one step:
  the new thread uses nothing that \<open>main\<close> writes after \<open>pthread_create\<close>). Steps of all threads, of \<open>main\<close> and the
  signal interleave freely. In the whole server every thread can be created, with an identifier of its own, and clients
  close their side in the end; what happens otherwise is said by \<open>register_connection_correct\<close> and
  \<open>connection_manager_destroy_correct\<close>.

  \<^bold>\<open>Not modelled.\<close> Output to the terminal and the system log (except in the writer and the check of the test setup), whose content nothing
  depends on; the
  trace buffers and the overwriting of removed links in the queue macros' debug build (\<open>QUEUE_MACRO_DEBUG\<close>) and their C++ variants; shell
  scripts and makefiles. The kernel, the C library and the network are parameters.
\<close>

section \<open>Properties across components\<close>

text \<open>C4: A client that sends any sequence of lines and closes gets, from the server running on the character
  device, exactly the specified answers in order: after each ordinary line the whole contents of
  the device, after a seek command the contents from the named byte on. The thread ends; the
  driver's log is the one the lines describe and its invariant holds; the connection is closed and
  destroyed, and the only memory the thread leaves released or allocated differently is the
  connection's own. Hypotheses: memory is available, the library writes out what is printed,
  lines have no newline inside and fit the driver's block size, seek numbers fit 32 bits, and every
  send takes its whole chunk.\<close>

theorem client_session_correct:
  assumes "libc_ok L" and "memory_up_to L (2 ^ 30)" and "stdio_ok io" and "device_env K U F" and "dev_inv K F (dk (tf t))"
    and "cs ctx = Some e" and "connection (payload e) = Ptr c" and "conns (tp t) c = Some conn" and "is_open conn"
    and "tmutex t = Unlocked" and "whole_sends (pnet (tp t))" and "finite (dom (pheap (tp t)))"
    and "set (addrs (client_address conn)) \<subseteq> dom (pheap (tp t))" and "inbox (pnet (tp t)) (socket conn) = client_events sent"
    and "\<forall>m\<in>set sent. newline \<notin> set m \<and> decode_ioctl_command (line_text m) \<noteq> None \<and>
       length (pending (log_of (dk (tf t)))) + length m + 1 \<le> device_limit K"
  shows "\<exists>cs' t'. thread_routine L io (device_file K U) (\<lambda>k. False) ctx cs t = Some (True, cs', t') \<and>
    outbox (pnet (tp t')) = (outbox (pnet (tp t)))(socket conn :=
      outbox (pnet (tp t)) (socket conn) @ fst (session sent (log_of (dk (tf t))))) \<and>
    log_of (dk (tf t')) = snd (session sent (log_of (dk (tf t)))) \<and> dev_inv K F (dk (tf t')) \<and>
    tmutex t' = Unlocked \<and> conns (tp t') = (conns (tp t))(c := None) \<and>
    open_socks (pnet (tp t')) = remove1 (socket conn) (open_socks (pnet (tp t))) \<and>
    pheap (tp t') = pheap (tp t) |` (- set (addrs (client_address conn))) \<and>
    cs' = cs(ctx \<mapsto> e\<lparr>payload := (payload e)\<lparr>connection := NULL\<rparr>\<rparr>)"
  using assms by (rule device_session [where cs = cs and ctx = ctx])

text \<open>An accepted client on socket 4 that sends two lines and a seek command, served by a server on an
  empty device; the stream library keeps all output until it is flushed.\<close>

definition sample_stdio :: stdio where
  "sample_stdio = \<lparr>split_out = (\<lambda>bs. ([], bs)), retained = (\<lambda>bs. bs)\<rparr>"

definition sample_lines :: "byte list list" where
  "sample_lines = [''one'', ''two'', ''AESDCHAR_IOCSEEKTO:1,1'']"

definition sample_thread :: "devfile tstate" where
  "sample_thread = \<lparr>tp = sample_pstate (client_events sample_lines), tf = \<lparr>dfile = closed_file, dk = empty_device\<rparr>, tmutex = Unlocked\<rparr>"

definition sample_ctxs :: ctx_heap where
  "sample_ctxs = [4 \<mapsto> \<lparr>payload = \<lparr>manager = Ptr 0, connection = Ptr 1, thread = 1\<rparr>, sle_next = NULL\<rparr>]"

lemma sample_stdio_ok: "stdio_ok sample_stdio"
  by (simp add: stdio_ok_def sample_stdio_def)

lemma sample_lines_decode: "decode_ioctl_command (line_text m) \<noteq> None" if "m \<in> set sample_lines"
proof -
  have "decode_ioctl_command ''AESDCHAR_IOCSEEKTO:1,1'' = Some (Some \<lparr>write_cmd = 1, write_cmd_offset = 1\<rparr>)"
    using decode_decimal [of 1 1 "[]"] by (simp add: seek_prefix_def decimal.simps digit_def char_of_def bit_Suc_0_iff)
  moreover have "decode_ioctl_command ''one'' = Some None" "decode_ioctl_command ''two'' = Some None"
    by (rule decode_no_prefix, simp add: seek_prefix_def)+
  ultimately show ?thesis using that by (auto simp: sample_lines_def line_text_def)
qed

theorem client_session_correct_witness:
  "\<exists>cs' t'. thread_routine demo_libc sample_stdio (device_file big_kernel sample_bufs) (\<lambda>k. False) 4 sample_ctxs sample_thread = Some (True, cs', t') \<and>
    outbox (pnet (tp t')) = (outbox (pnet (tp sample_thread)))(socket sample_conn :=
      outbox (pnet (tp sample_thread)) (socket sample_conn) @ fst (session sample_lines (log_of (dk (tf sample_thread))))) \<and>
    log_of (dk (tf t')) = snd (session sample_lines (log_of (dk (tf sample_thread)))) \<and> dev_inv big_kernel {} (dk (tf t')) \<and>
    tmutex t' = Unlocked \<and> conns (tp t') = (conns (tp sample_thread))(1 := None) \<and>
    open_socks (pnet (tp t')) = remove1 (socket sample_conn) (open_socks (pnet (tp sample_thread))) \<and>
    pheap (tp t') = pheap (tp sample_thread) |` (- set (addrs (client_address sample_conn))) \<and>
    cs' = sample_ctxs(4 \<mapsto> \<lparr>payload = \<lparr>manager = Ptr 0, connection = Ptr 1, thread = 1\<rparr>, sle_next = NULL\<rparr>
      \<lparr>payload := (payload \<lparr>payload = \<lparr>manager = Ptr 0, connection = Ptr 1, thread = 1\<rparr>, sle_next = NULL\<rparr>)\<lparr>connection := NULL\<rparr>\<rparr>)"
proof (rule client_session_correct [OF demo_libc_ok demo_libc_memory sample_stdio_ok big_kernel_env])
  show "\<forall>m\<in>set sample_lines. newline \<notin> set m \<and> decode_ioctl_command (line_text m) \<noteq> None \<and>
       length (pending (log_of (dk (tf sample_thread)))) + length m + 1 \<le> device_limit big_kernel"
  proof (intro ballI conjI)
    fix m
    assume m: "m \<in> set sample_lines"
    then show "decode_ioctl_command (line_text m) \<noteq> None" by (rule sample_lines_decode)
    show "newline \<notin> set m" "length (pending (log_of (dk (tf sample_thread)))) + length m + 1 \<le> device_limit big_kernel"
      using m by (auto simp: sample_lines_def sample_thread_def empty_device_log device_limit_def big_kernel_def demo_kernel_def)
  qed
qed (simp_all add: sample_thread_def sample_ctxs_def sample_pstate_def sample_conn_def empty_device_inv whole_sends_def)


text \<open>C15: Clients that only send ordinary lines see a log of the newest ten lines: after any number of lines the
  device holds the newest ten of what it held before and what was sent, each with its newline, and
  the last answer the client got is exactly their concatenation.\<close>

theorem server_keeps_newest_lines:
  assumes "libc_ok L" and "memory_up_to L (2 ^ 30)" and "stdio_ok io" and "device_env K U F" and "dev_inv K F (dk (tf t))"
    and "cs ctx = Some e" and "connection (payload e) = Ptr c" and "conns (tp t) c = Some conn" and "is_open conn"
    and "tmutex t = Unlocked" and "whole_sends (pnet (tp t))" and "finite (dom (pheap (tp t)))"
    and "set (addrs (client_address conn)) \<subseteq> dom (pheap (tp t))" and "inbox (pnet (tp t)) (socket conn) = client_events sent"
    and "pending (log_of (dk (tf t))) = []" and "sent \<noteq> []"
    and "\<forall>m\<in>set sent. newline \<notin> set m \<and> nul \<notin> set m \<and> take (length seek_prefix) m \<noteq> seek_prefix \<and> length m + 1 \<le> device_limit K"
  shows "\<exists>cs' t' earlier. thread_routine L io (device_file K U) (\<lambda>k. False) ctx cs t = Some (True, cs', t') \<and>
    log_of (dk (tf t')) = \<lparr>commands = newest 10 (commands (log_of (dk (tf t))) @ map (\<lambda>m. m @ [newline]) sent), pending = []\<rparr> \<and>
    outbox (pnet (tp t')) (socket conn) = outbox (pnet (tp t)) (socket conn) @ earlier @
      concat (newest 10 (commands (log_of (dk (tf t))) @ map (\<lambda>m. m @ [newline]) sent))"
proof -
  have whole: "line_text m = m" if "m \<in> set sent" for m
    using assms(17) that by (auto simp: line_text_def takeWhile_eq_all_conv)
  have plain: "\<forall>m\<in>set sent. decode_ioctl_command (line_text m) = Some None"
    using assms(17) whole decode_no_prefix by auto
  have ok: "\<forall>m\<in>set sent. newline \<notin> set m \<and> decode_ioctl_command (line_text m) \<noteq> None \<and>
       length (pending (log_of (dk (tf t)))) + length m + 1 \<le> device_limit K"
    using assms(15,17) plain by auto
  have lines: "map (\<lambda>m. line_text m @ [newline]) sent = map (\<lambda>m. m @ [newline]) sent"
    using whole by simp
  obtain earlier where s: "snd (session sent (log_of (dk (tf t)))) =
        \<lparr>commands = newest 10 (commands (log_of (dk (tf t))) @ map (\<lambda>m. m @ [newline]) sent), pending = []\<rparr>"
      "fst (session sent (log_of (dk (tf t)))) = earlier @ concat (newest 10 (commands (log_of (dk (tf t))) @ map (\<lambda>m. m @ [newline]) sent))"
    using session_plain [OF plain assms(15,16)] unfolding lines by blast
  obtain cs' t' where "thread_routine L io (device_file K U) (\<lambda>k. False) ctx cs t = Some (True, cs', t')"
      "outbox (pnet (tp t')) = (outbox (pnet (tp t)))(socket conn := outbox (pnet (tp t)) (socket conn) @ fst (session sent (log_of (dk (tf t)))))"
      "log_of (dk (tf t')) = snd (session sent (log_of (dk (tf t))))"
    using device_session [where cs = cs and ctx = ctx and e = e, OF assms(1-14) ok] by blast
  with s show ?thesis
    by (intro exI [of _ cs'] exI [of _ t'] exI [of _ earlier]) simp
qed

theorem server_keeps_newest_lines_witness:
  "\<exists>cs' t' earlier. thread_routine demo_libc sample_stdio (device_file big_kernel sample_bufs) (\<lambda>k. False) 4 sample_ctxs
      (sample_thread\<lparr>tp := sample_pstate (client_events [''one'', ''two''])\<rparr>) = Some (True, cs', t') \<and>
    log_of (dk (tf t')) = \<lparr>commands = newest 10 (commands (log_of (dk (tf (sample_thread\<lparr>tp := sample_pstate (client_events [''one'', ''two''])\<rparr>)))) @
      map (\<lambda>m. m @ [newline]) [''one'', ''two'']), pending = []\<rparr> \<and>
    outbox (pnet (tp t')) (socket sample_conn) =
      outbox (pnet (tp (sample_thread\<lparr>tp := sample_pstate (client_events [''one'', ''two''])\<rparr>))) (socket sample_conn) @ earlier @
      concat (newest 10 (commands (log_of (dk (tf (sample_thread\<lparr>tp := sample_pstate (client_events [''one'', ''two''])\<rparr>)))) @
        map (\<lambda>m. m @ [newline]) [''one'', ''two'']))"
  by (rule server_keeps_newest_lines [where e = "\<lparr>payload = \<lparr>manager = Ptr 0, connection = Ptr 1, thread = 1\<rparr>, sle_next = NULL\<rparr>" and c = 1,
      OF demo_libc_ok demo_libc_memory sample_stdio_ok big_kernel_env])
    (simp_all add: sample_thread_def sample_ctxs_def sample_pstate_def sample_conn_def empty_device_inv empty_device_log
      whole_sends_def seek_prefix_def device_limit_def big_kernel_def demo_kernel_def)

text \<open>C18: Sending the device to the client: if no send fails, the call reads the device to its end and returns true,
  and the client gets, of each chunk, only as many bytes as that one send took. So everything arrives
  when every send takes its whole chunk, and a send that takes less loses the rest of its chunk
  while the call still reports success.\<close>

theorem send_file_delivers_accepted:
  assumes "device_valid K U F (sfile fd)" and "obuf fd = []" and "conns s c = Some conn" and "no_send_errors (pnet s)"
  shows "\<exists>fd' chunks s'. concat chunks = device_rest (sfile fd) \<and>
    tcp_connection_send_file (stream_read (device_file K U)) (Ptr c) fd s = Some (True, fd', s') \<and>
    device_rest (sfile fd') = [] \<and> device_log (sfile fd') = device_log (sfile fd) \<and>
    outbox (pnet s') (socket conn) = outbox (pnet s) (socket conn) @ delivered (accepted (pnet s)) chunks \<and>
    ((\<forall>i. 4096 \<le> accepted (pnet s) i) \<longrightarrow> delivered (accepted (pnet s)) chunks = device_rest (sfile fd))"
proof -
  have v: "device_valid K U F (sfile fd) \<and> obuf fd = [] \<and> device_log (sfile fd) = device_log (sfile fd)"
    using assms(1,2) by simp
  obtain fd' chunks where r: "concat chunks = device_rest (sfile fd)" "\<forall>ch\<in>set chunks. length ch \<le> 4096"
      "device_log (sfile fd') = device_log (sfile fd)" "device_rest (sfile fd') = []"
      "send_file_loop (stream_read (device_file K U)) (Ptr c) fd s = Some (True, fd',
        s\<lparr>pnet := sent_net (socket conn) (delivered (accepted (pnet s)) chunks) (length chunks) (pnet s)\<rparr>)"
    using aesdchar.stream.send_file_sends [OF v assms(3,4)] by blast
  have "delivered (accepted (pnet s)) chunks = concat chunks" if "\<forall>i. 4096 \<le> accepted (pnet s) i"
    using r(2) that by (intro delivered_full) (meson le_trans nth_mem)
  with r show ?thesis
    by (intro exI [of _ fd'] exI [of _ chunks] exI) (auto simp: tcp_connection_send_file_def sent_net_def)
qed


text \<open>An open stream on a device that holds one command, and a peer that takes one byte per send.\<close>

definition sample_stream :: "devfile stream" where
  "sample_stream = \<lparr>sfile = \<lparr>dfile = sample_file, dk = sample_state\<rparr>, obuf = []\<rparr>"

definition slow_peer :: pstate where
  "slow_peer = (sample_pstate [])\<lparr>pnet := (pnet (sample_pstate []))\<lparr>send_plan := (\<lambda>i. Send_Accept 1)\<rparr>\<rparr>"

lemma sample_inv_big: "dev_inv big_kernel {} sample_state"
  using sample_inv by (simp add: dev_inv_def big_kernel_def)

lemma sample_stream_valid: "device_valid big_kernel sample_bufs {} (sfile sample_stream)"
  using big_kernel_env sample_inv_big sample_file_dev
  by (simp add: device_valid_def device_ready_def sample_stream_def)

theorem send_file_delivers_accepted_witness:
  "\<exists>fd' chunks s'. concat chunks = device_rest (sfile sample_stream) \<and>
    tcp_connection_send_file (stream_read (device_file big_kernel sample_bufs)) (Ptr 1) sample_stream slow_peer = Some (True, fd', s') \<and>
    device_rest (sfile fd') = [] \<and> device_log (sfile fd') = device_log (sfile sample_stream) \<and>
    outbox (pnet s') (socket sample_conn) = outbox (pnet slow_peer) (socket sample_conn) @ delivered (accepted (pnet slow_peer)) chunks \<and>
    ((\<forall>i. 4096 \<le> accepted (pnet slow_peer) i) \<longrightarrow> delivered (accepted (pnet slow_peer)) chunks = device_rest (sfile sample_stream))"
  by (rule send_file_delivers_accepted [OF sample_stream_valid])
    (simp_all add: sample_stream_def slow_peer_def sample_pstate_def no_send_errors_def)

text \<open>C26: A line that the driver could not store is reported as stored: when the line fits the stream's buffer, the
  driver's out-of-memory error shows up only in \<open>fflush\<close>, whose result \<open>handle_message\<close> ignores; it
  returns the number of characters, and the log is unchanged.\<close>

theorem handle_message_hides_write_error:
  assumes "kernel_ok K" and "dev_inv K F (dk (sfile fd))" and "private_data (dfile (sfile fd)) = Aesd_Device" and "obuf fd = []"
    and "decode_ioctl_command m = Some None" and "split_out io (m @ [newline]) = ([], m @ [newline])"
    and "length m + 1 + length (pending (device_log (sfile fd))) < 2 ^ 31"
    and "kmalloc K (length m + 1 + length (pending (device_log (sfile fd)))) (kheap (dk (sfile fd))) = NULL"
  shows "\<exists>r fd'. handle_message io (device_file K U) m fd = Some (r, fd') \<and> 0 < sint r \<and>
    device_log (sfile fd') = device_log (sfile fd)"
proof -
  let ?bs = "m @ [newline]"
  obtain d' where w: "device_write K U ?bs (sfile fd) = Some (- 1, d')" "device_log d' = device_log (sfile fd)"
    using device_write_no_memory [OF assms(1-3), of ?bs] assms(7,8) by auto
  have all: "write_all (device_file K U) ?bs (sfile fd) = Some (False, d')"
    using w(1) by (subst write_all.simps) (simp add: device_file_def)
  have "sint (word_of_nat (length ?bs) :: cint) = int (length ?bs)"
    by (rule sint_word_of_nat) (use assms(7) in simp)
  then have "0 < sint (word_of_nat (length ?bs) :: cint)" by simp
  moreover have "handle_message io (device_file K U) m fd = Some (word_of_nat (length ?bs), \<lparr>sfile = d', obuf = retained io ?bs\<rparr>)"
    using assms(4-6) all by (simp add: handle_message_def fprintf_line_def fflush_def)
  ultimately show ?thesis using w(2) by (simp del: length_append)
qed

text \<open>A kernel without free memory.\<close>

definition full_kernel :: kernel_api where
  "full_kernel = demo_kernel\<lparr>kmalloc := (\<lambda>n h. NULL)\<rparr>"

lemma full_kernel_ok: "kernel_ok full_kernel"
  using demo_kernel_ok by (simp add: kernel_ok_def kmalloc_ok_def uaccess_ok_def llseek_ok_def fresh_allocator_def full_kernel_def)

theorem handle_message_hides_write_error_witness:
  "\<exists>r fd'. handle_message sample_stdio (device_file full_kernel sample_bufs) ''lost'' sample_stream = Some (r, fd') \<and> 0 < sint r \<and>
    device_log (sfile fd') = device_log (sfile sample_stream)"
proof (rule handle_message_hides_write_error [OF full_kernel_ok])
  show "dev_inv full_kernel {} (dk (sfile sample_stream))"
    using sample_inv by (simp add: dev_inv_def full_kernel_def sample_stream_def)
  show "decode_ioctl_command ''lost'' = Some None"
    by (rule decode_no_prefix) (simp add: seek_prefix_def)
qed (simp_all add: sample_stream_def sample_stdio_def full_kernel_def sample_file_def device_log_def sample_log)

end
